(* ===== verification/Prelude.thy ===== *)
theory Prelude
  imports "HOL-Library.Word" "HOL-Library.Sublist"
begin

text \<open>
  What every other theory uses: the outcome of running C++ code that may abort (a failed
  \<open>RX_CHECK\<close>), touch freed memory, or not return at all; the sequencing of such code; and the
  development's collections of rewrite rules.

  An outcome \<open>'a res\<close> is \<open>None\<close> when the call does not return, \<open>Some (Inl f)\<close> when the process
  dies with fault \<open>f\<close>, and \<open>Some (Inr x)\<close> when the call returns \<open>x\<close>.
\<close>

named_theorems res_simps "rewriting of sequenced outcomes"
named_theorems method_defs "the bodies of the modelled methods"
named_theorems mono_method "monotonicity of method bodies in the dispatcher"

section \<open>Machine types\<close>

type_synonym size_t = "64 word"
type_synonym addr = nat

section \<open>Faults and outcomes\<close>

text \<open>
  \<open>CheckFailed\<close> is the fatal log message of a failed \<open>RX_CHECK\<close>, after which the process
  aborts. \<open>BadPointer a\<close> is an access to the object at \<open>a\<close> after it was destroyed, which C++
  leaves undefined: the model stops there, so every theorem that a run returns also says that it
  performed no such access.
\<close>

datatype fault = CheckFailed string | BadPointer addr

type_synonym 'a res = "(fault + 'a) option"

definition ret :: "'a \<Rightarrow> 'a res" where
  "ret x = Some (Inr x)"

definition fail :: "fault \<Rightarrow> 'a res" where
  "fail e = Some (Inl e)"

definition bnd :: "'a res \<Rightarrow> ('a \<Rightarrow> 'b res) \<Rightarrow> 'b res" where
  "bnd m f = (case m of None \<Rightarrow> None | Some r \<Rightarrow> (case r of Inl e \<Rightarrow> Some (Inl e) | Inr x \<Rightarrow> f x))"

text \<open>\<open>RX_CHECK(c) << msg\<close> followed by the rest of the body \<open>m\<close>.\<close>

definition rx_check :: "bool \<Rightarrow> string \<Rightarrow> 'a res \<Rightarrow> 'a res" where
  "rx_check c msg m = (if c then m else fail (CheckFailed msg))"

definition returns :: "'a res \<Rightarrow> bool" where
  "returns m \<longleftrightarrow> (case m of Some (Inr _) \<Rightarrow> True | _ \<Rightarrow> False)"

lemma bnd_ret [simp, res_simps]: "bnd (ret x) f = f x"
  by (simp add: bnd_def ret_def)

lemma bnd_fail [simp, res_simps]: "bnd (fail e) f = fail e"
  by (simp add: bnd_def fail_def)

lemma bnd_None [simp, res_simps]: "bnd None f = None"
  by (simp add: bnd_def)

lemma bnd_Some_Inr [simp, res_simps]: "bnd (Some (Inr x)) f = f x"
  by (simp add: bnd_def)

lemma bnd_Some_Inl [simp, res_simps]: "bnd (Some (Inl e)) f = fail e"
  by (simp add: bnd_def fail_def)

lemma bnd_assoc: "bnd (bnd m f) g = bnd m (\<lambda>x. bnd (f x) g)"
  by (auto simp: bnd_def split: option.splits sum.splits)

lemma bnd_right_ret [simp]: "bnd m ret = m"
  by (auto simp: bnd_def ret_def split: option.splits sum.splits)

lemma ret_inject [simp]: "ret x = ret y \<longleftrightarrow> x = y"
  by (simp add: ret_def)

lemma fail_inject [simp]: "fail e = fail e' \<longleftrightarrow> e = e'"
  by (simp add: fail_def)

lemma ret_neq [simp]: "ret x \<noteq> None" "None \<noteq> ret x" "ret x \<noteq> fail e" "fail e \<noteq> ret x"
  "fail e \<noteq> None" "None \<noteq> fail e"
  by (simp_all add: ret_def fail_def)

lemma rx_check_True [simp, res_simps]: "rx_check True msg m = m"
  by (simp add: rx_check_def)

lemma rx_check_False [simp, res_simps]: "rx_check False msg m = fail (CheckFailed msg)"
  by (simp add: rx_check_def)

lemma returns_ret [simp]: "returns (ret x)"
  by (simp add: returns_def ret_def)

lemma not_returns [simp]: "\<not> returns (fail e)" "\<not> returns None"
  by (simp_all add: returns_def fail_def)

lemma returns_iff: "returns m \<longleftrightarrow> (\<exists>x. m = ret x)"
  by (auto simp: returns_def ret_def split: option.splits sum.splits)

text \<open>Inversion: a sequence that returns has a first part that returns.\<close>

lemma bnd_eq_ret: "bnd m f = ret y \<longleftrightarrow> (\<exists>x. m = ret x \<and> f x = ret y)"
  by (auto simp: bnd_def ret_def split: option.splits sum.splits)

lemma rx_check_eq_ret: "rx_check c msg m = ret y \<longleftrightarrow> c \<and> m = ret y"
  by (simp add: rx_check_def)

lemma bnd_retE [elim!]:
  assumes "bnd m f = ret y"
  obtains x where "m = ret x" and "f x = ret y"
  using assms by (auto simp: bnd_eq_ret)

lemma rx_check_retE [elim!]:
  assumes "rx_check c msg m = ret y"
  obtains c and "m = ret y"
  using assms by (auto simp: rx_check_eq_ret)

text \<open>Only the first part of a sequence is rewritten before it is known to return.\<close>

lemma bnd_weak_cong: "m = m' \<Longrightarrow> bnd m f = bnd m' f"
  by simp

lemma rx_check_weak_cong: "c = c' \<Longrightarrow> rx_check c msg m = rx_check c' msg m"
  by simp

section \<open>Monotonicity in the dispatcher\<close>

text \<open>
  Methods call each other through a parameter \<open>run\<close>, the virtual dispatch. The fixed point that
  ties the knot exists because sequencing is monotone in the approximation of \<open>run\<close>.
\<close>

lemma bnd_mono [partial_function_mono, mono_method]:
  fixes f :: "('a \<Rightarrow> 'b option) \<Rightarrow> 'c res" and g :: "'c \<Rightarrow> ('a \<Rightarrow> 'b option) \<Rightarrow> 'd res"
  assumes f: "mono_option f" and g: "\<And>y. mono_option (\<lambda>r. g y r)"
  shows "mono_option (\<lambda>r. bnd (f r) (\<lambda>y. g y r))"
proof (rule monotoneI)
  fix r r' :: "'a \<Rightarrow> 'b option" assume le: "option.le_fun r r'"
  have 1: "option_ord (f r) (f r')" using f le unfolding monotone_def by blast
  have 2: "\<And>y. option_ord (g y r) (g y r')" using g le unfolding monotone_def by blast
  show "option_ord (bnd (f r) (\<lambda>y. g y r)) (bnd (f r') (\<lambda>y. g y r'))"
  proof (cases "f r")
    case None
    then show ?thesis by (simp add: flat_ord_def)
  next
    case (Some a)
    with 1 have "f r' = Some a" by (simp add: flat_ord_def)
    with Some 2 show ?thesis by (cases a) (simp_all add: flat_ord_def fail_def [symmetric])
  qed
qed

lemma rx_check_mono [partial_function_mono, mono_method]:
  assumes "mono_option f"
  shows "mono_option (\<lambda>r. rx_check c msg (f r))"
  using assms by (cases c) (auto intro: option.const_mono)

lemma option_case_mono [mono_method]:
  assumes "mono_option f" and "\<And>x. mono_option (g x)"
  shows "mono_option (\<lambda>r. case v of None \<Rightarrow> f r | Some x \<Rightarrow> g x r)"
  using assms by (cases v) auto

lemma prod_case_mono [mono_method]:
  assumes "\<And>x y. mono_option (g x y)"
  shows "mono_option (\<lambda>r. case v of (x, y) \<Rightarrow> g x y r)"
  using assms by (cases v) auto

lemma bool_if_mono [mono_method]:
  assumes "mono_option f" and "mono_option g"
  shows "mono_option (\<lambda>r. if c then f r else g r)"
  using assms by (cases c) auto

lemma let_mono_option [mono_method]:
  assumes "\<And>x. mono_option (g x)"
  shows "mono_option (\<lambda>r. let x = v in g x r)"
  using assms by (simp add: Let_def)

lemma const_mono_option [mono_method]: "mono_option (\<lambda>r. c)"
  by (rule option.const_mono)

lemma nat_case_mono [mono_method]:
  assumes "mono_option f" and "\<And>n. mono_option (g n)"
  shows "mono_option (\<lambda>r. case v of 0 \<Rightarrow> f r | Suc n \<Rightarrow> g n r)"
  using assms by (cases v) auto

section \<open>Words used as counters\<close>

lemma unat_minus_1_64 [simp]: "unat (- 1 :: size_t) = 18446744073709551615"
  by (simp add: unsigned_minus_1_eq_mask mask_eq_exp_minus_1)

lemma unat_lt_64 [simp]: "unat (x :: size_t) < 18446744073709551616"
  using unsigned_less [of x] by simp

lemma unat_le_64 [simp]: "unat (x :: size_t) \<le> 18446744073709551615"
  using unat_lt_64 [of x] by linarith

lemma unat_plus_64:
  "unat (x + y :: size_t) =
    (if unat x + unat y < 18446744073709551616 then unat x + unat y
     else unat x + unat y - 18446744073709551616)"
  by (simp add: unat_plus_if_size word_size)

lemma unat_minus_64:
  "unat (x - y :: size_t) =
    (if unat y \<le> unat x then unat x - unat y
     else unat x + 18446744073709551616 - unat y)"
  by (simp add: unat_sub_if_size word_size word_le_nat_alt)

lemma unat_pos_64: "x \<noteq> 0 \<Longrightarrow> Suc 0 \<le> unat (x :: size_t)"
  by (metis Suc_leI gr0I unat_eq_0)

lemma unat_eq_max_64: "unat (x :: size_t) = 18446744073709551615 \<longleftrightarrow> x = - 1"
  by (metis unat_minus_1_64 unsigned_word_eqI)

lemma minus_eq_max_64:
  assumes "unat y \<le> unat (x :: size_t)" and "x - y = - 1"
  shows "x = - 1"
proof -
  have "unat x - unat y = 18446744073709551615"
    using assms unat_minus_64 [of x y] by simp
  with unat_le_64 [of x] have "unat x = 18446744073709551615" by linarith
  then show ?thesis by (simp add: unat_eq_max_64)
qed

end
