(* ===== verification/Platform.thy ===== *)
theory Platform
  imports Prelude
begin

text \<open>
  The path functions of \<open>base/platform.cc\<close>, on POSIX (\<open>kPathSeparator\<close> is a slash). A
  \<open>string_view\<close> is a character list whose length fits a \<open>size_t\<close>; \<open>find_last_of\<close> returns
  \<open>npos\<close>, the largest \<open>size_t\<close>, when nothing is found, and the code relies on \<open>npos + 1\<close>
  wrapping around to 0. The functions that reach the operating system (files, directories,
  \<open>system\<close>) are not modelled.
\<close>

definition kPathSeparator :: string where
  "kPathSeparator = ''/''"

definition npos :: size_t where
  "npos = - 1"

definition find_last_of :: "string \<Rightarrow> string \<Rightarrow> size_t" where
  "find_last_of s cs =
     (case filter (\<lambda>i. s ! i \<in> set cs) [0..<length s] of [] \<Rightarrow> npos | is \<Rightarrow> of_nat (last is))"

definition substr :: "string \<Rightarrow> size_t \<Rightarrow> string" where
  "substr s pos = drop (unat pos) s"

definition ConcatPath :: "string \<Rightarrow> string \<Rightarrow> string" where
  "ConcatPath path1 path2 = (if path1 = [] then path2 else path1 @ kPathSeparator @ path2)"

definition BaseName :: "string \<Rightarrow> string" where
  "BaseName path = substr path (find_last_of path kPathSeparator + 1)"

section \<open>The base name\<close>

lemma kPathSeparator_set [simp]: "set kPathSeparator = {CHR ''/''}"
  by (simp add: kPathSeparator_def)

lemma filter_seps_append:
  assumes "c \<in> set cs" and "set y \<inter> set cs = {}"
  shows "filter (\<lambda>i. (x @ c # y) ! i \<in> set cs) [0..<length (x @ c # y)]
    = filter (\<lambda>i. x ! i \<in> set cs) [0..<length x] @ [length x]"
proof -
  have len: "length (x @ c # y) = length x + Suc (length y)" by simp
  have split: "[0..<length (x @ c # y)]
      = [0..<length x] @ length x # [Suc (length x)..<length (x @ c # y)]"
    unfolding len by (metis upt_add_eq_append upt_conv_Cons le0 less_add_Suc1 add_Suc_right)
  have "(x @ c # y) ! i \<notin> set cs" if "i \<in> set [Suc (length x)..<length (x @ c # y)]" for i
  proof -
    have "(x @ c # y) ! i = y ! (i - Suc (length x))" and "i - Suc (length x) < length y"
      using that by (auto simp: nth_append nth_Cons')
    then show ?thesis using assms(2) by (metis disjoint_iff nth_mem)
  qed
  then have rest: "filter (\<lambda>i. (x @ c # y) ! i \<in> set cs) [Suc (length x)..<length (x @ c # y)] = []"
    by (simp add: filter_empty_conv)
  have first: "filter (\<lambda>i. (x @ c # y) ! i \<in> set cs) [0..<length x]
      = filter (\<lambda>i. x ! i \<in> set cs) [0..<length x]"
    by (rule filter_cong) (auto simp: nth_append)
  show ?thesis
    unfolding split filter_append filter.simps first rest nth_append_length
    using assms(1) by simp
qed

lemma find_last_of_split:
  assumes "c \<in> set cs" and "set y \<inter> set cs = {}"
  shows "find_last_of (x @ c # y) cs = of_nat (length x)"
  unfolding find_last_of_def filter_seps_append [OF assms]
  by (auto split: list.splits simp del: last.simps)
     (metis append_is_Nil_conv last_snoc list.distinct(1) last_ConsL last_ConsR)+

lemma find_last_of_none: "set s \<inter> set cs = {} \<Longrightarrow> find_last_of s cs = npos"
  by (auto simp: find_last_of_def filter_empty_conv disjoint_iff split: list.splits)

lemma substr_after:
  assumes "length (x @ c # y) < 2 ^ 64"
  shows "substr (x @ c # y) (of_nat (length x) + 1) = y"
proof -
  have "unat (of_nat (length x) + 1 :: size_t) = Suc (length x)"
    using assms by (simp add: unat_plus_64 unsigned_of_nat take_bit_nat_eq_self)
  then show ?thesis by (simp add: substr_def)
qed

lemma BaseName_no_separator: "CHR ''/'' \<notin> set p \<Longrightarrow> BaseName p = p"
  by (simp add: BaseName_def find_last_of_none npos_def substr_def)

lemma BaseName_after_separator:
  assumes "CHR ''/'' \<notin> set f" and "length (d @ CHR ''/'' # f) < 2 ^ 64"
  shows "BaseName (d @ CHR ''/'' # f) = f"
  using assms by (simp add: BaseName_def find_last_of_split substr_after)

text \<open>Every path is its base name after a directory prefix that is empty or ends in a slash.\<close>

lemma split_last_separator:
  "CHR ''/'' \<in> set p \<Longrightarrow> \<exists>d f. p = d @ CHR ''/'' # f \<and> CHR ''/'' \<notin> set f"
  by (metis split_list_last)

text \<open>
  \<open>BaseName\<close> inverts \<open>ConcatPath\<close>: the base name of a joined path is its second component,
  when that has no slash; and the base name of any path never contains a slash.
\<close>

theorem BaseName_ConcatPath:
  assumes "CHR ''/'' \<notin> set f" and "length (ConcatPath d f) < 2 ^ 64" and "length p < 2 ^ 64"
  shows "BaseName (ConcatPath d f) = f \<and> CHR ''/'' \<notin> set (BaseName p)"
proof
  show "BaseName (ConcatPath d f) = f"
    using assms(1,2)
    by (auto simp: ConcatPath_def kPathSeparator_def BaseName_no_separator BaseName_after_separator)
  show "CHR ''/'' \<notin> set (BaseName p)"
  proof (cases "CHR ''/'' \<in> set p")
    case True
    then obtain x y where "p = x @ CHR ''/'' # y" and "CHR ''/'' \<notin> set y"
      using split_last_separator by blast
    with assms(3) show ?thesis by (simp add: BaseName_after_separator)
  next
    case False
    then show ?thesis by (simp add: BaseName_no_separator)
  qed
qed

theorem BaseName_ConcatPath_witness:
  "BaseName (ConcatPath ''foo'' ''bar.x'') = ''bar.x'' \<and> CHR ''/'' \<notin> set (BaseName ''a/b'')"
  by (rule BaseName_ConcatPath) (simp_all add: ConcatPath_def kPathSeparator_def)

end
