(* ===== verification/Monitoring.thy ===== *)
theory Monitoring
  imports Platform
begin

text \<open>
  Logging, \<open>Status\<close> and \<open>StatusOr\<close> (\<open>base/monitoring.h\<close>, \<open>base/monitoring.cc\<close>,
  \<open>base/status.proto\<close>) and the stream reading of a status (\<open>reactive/reactive_status.h\<close>), where
  the code \<open>OUT_OF_RANGE\<close> means ``end of stream''. The state of the logger is the list of lines it
  has written to stderr.
\<close>

section \<open>Status\<close>

datatype StatusCode = OK | CANCELLED | UNKNOWN | INVALID_ARGUMENT | DEADLINE_EXCEEDED | NOT_FOUND
  | ALREADY_EXISTS | PERMISSION_DENIED | UNAUTHENTICATED | RESOURCE_EXHAUSTED
  | FAILED_PRECONDITION | ABORTED | OUT_OF_RANGE | UNIMPLEMENTED | INTERNAL | UNAVAILABLE
  | DATA_LOSS

fun code_number :: "StatusCode \<Rightarrow> nat" where
  "code_number OK = 0"
| "code_number CANCELLED = 1"
| "code_number UNKNOWN = 2"
| "code_number INVALID_ARGUMENT = 3"
| "code_number DEADLINE_EXCEEDED = 4"
| "code_number NOT_FOUND = 5"
| "code_number ALREADY_EXISTS = 6"
| "code_number PERMISSION_DENIED = 7"
| "code_number UNAUTHENTICATED = 16"
| "code_number RESOURCE_EXHAUSTED = 8"
| "code_number FAILED_PRECONDITION = 9"
| "code_number ABORTED = 10"
| "code_number OUT_OF_RANGE = 11"
| "code_number UNIMPLEMENTED = 12"
| "code_number INTERNAL = 13"
| "code_number UNAVAILABLE = 14"
| "code_number DATA_LOSS = 15"

instantiation StatusCode :: linorder
begin

definition less_eq_StatusCode :: "StatusCode \<Rightarrow> StatusCode \<Rightarrow> bool" where
  "less_eq_StatusCode a b \<longleftrightarrow> code_number a \<le> code_number b"

definition less_StatusCode :: "StatusCode \<Rightarrow> StatusCode \<Rightarrow> bool" where
  "less_StatusCode a b \<longleftrightarrow> code_number a < code_number b"

instance
proof
  fix a b :: StatusCode
  show "a \<le> b \<Longrightarrow> b \<le> a \<Longrightarrow> a = b"
    by (cases a; cases b) (simp_all add: less_eq_StatusCode_def)
qed (auto simp: less_eq_StatusCode_def less_StatusCode_def)

end

datatype Status = Status (code: StatusCode) (message: string) (diag_code: "64 word")
  (inner_status: "Status list")

text \<open>The default instance of the protobuf message, and its setters.\<close>

definition Status_default :: Status where
  "Status_default = Status OK [] 0 []"

fun set_code :: "StatusCode \<Rightarrow> Status \<Rightarrow> Status" where
  "set_code c (Status _ m d i) = Status c m d i"

fun set_message :: "string \<Rightarrow> Status \<Rightarrow> Status" where
  "set_message m (Status c _ d i) = Status c m d i"

lemma code_set_code [simp]: "code (set_code c s) = c"
  by (cases s) simp

lemma code_set_message [simp]: "code (set_message m s) = code s"
  by (cases s) simp

definition IsOK :: "Status \<Rightarrow> bool" where
  "IsOK s \<longleftrightarrow> code s = OK"

definition CombineStatus :: "Status \<Rightarrow> Status \<Rightarrow> Status" where
  "CombineStatus s1 s2 = (if code s1 = OK then s2 else s1)"

section \<open>Reading a status as a stream event\<close>

definition Done :: Status where
  "Done = set_code OUT_OF_RANGE Status_default"

definition Ok :: Status where
  "Ok = set_code OK Status_default"

definition IsEnd_status :: "Status \<Rightarrow> bool" where
  "IsEnd_status s \<longleftrightarrow> code s \<noteq> OK"

definition IsDone_status :: "Status \<Rightarrow> bool" where
  "IsDone_status s \<longleftrightarrow> code s = OUT_OF_RANGE"

definition IsError_status :: "Status \<Rightarrow> bool" where
  "IsError_status s \<longleftrightarrow> code s \<noteq> OK \<and> \<not> IsDone_status s"

lemma code_Done [simp]: "code Done = OUT_OF_RANGE"
  by (simp add: Done_def)

section \<open>StatusOr\<close>

text \<open>The variant \<open>repr_\<close>: index 0 holds a status, index 1 a value.\<close>

datatype 'a StatusOr = StatusRepr Status | ValueRepr 'a

definition StatusOr_of_status :: "Status \<Rightarrow> 'a StatusOr res" where
  "StatusOr_of_status s = rx_check (code s \<noteq> OK) ''status.code() != OK'' (ret (StatusRepr s))"

definition StatusOr_of_code :: "StatusCode \<Rightarrow> 'a StatusOr res" where
  "StatusOr_of_code c =
     rx_check (c \<noteq> OK) ''code != OK'' (ret (StatusRepr (set_code c Status_default)))"

definition StatusOr_of_code_message :: "StatusCode \<Rightarrow> string \<Rightarrow> 'a StatusOr res" where
  "StatusOr_of_code_message c m =
     rx_check (c \<noteq> OK) ''code != OK''
       (ret (StatusRepr (set_message m (set_code c Status_default))))"

fun ok :: "'a StatusOr \<Rightarrow> bool" where
  "ok (ValueRepr _) = True"
| "ok (StatusRepr _) = False"

definition OkStatus :: Status where
  "OkStatus = Status_default"

fun status :: "'a StatusOr \<Rightarrow> Status" where
  "status (ValueRepr _) = OkStatus"
| "status (StatusRepr s) = s"

fun ValueOrDie :: "'a StatusOr \<Rightarrow> 'a res" where
  "ValueOrDie (ValueRepr v) = ret v"
| "ValueOrDie (StatusRepr s) = fail (CheckFailed ''StatusOr has no value'')"

definition IsEnd :: "'a StatusOr \<Rightarrow> bool" where
  "IsEnd e \<longleftrightarrow> IsEnd_status (status e)"

definition IsDone :: "'a StatusOr \<Rightarrow> bool" where
  "IsDone e \<longleftrightarrow> IsDone_status (status e)"

definition IsError :: "'a StatusOr \<Rightarrow> bool" where
  "IsError e \<longleftrightarrow> IsError_status (status e)"

text \<open>\<open>RX_RETURN_IF_ERROR\<close> and \<open>RX_ASSIGN_OR_RETURN\<close>, with the rest of the body as continuation.\<close>

definition return_if_error :: "Status \<Rightarrow> (unit \<Rightarrow> Status) \<Rightarrow> Status" where
  "return_if_error s rest = (if code s \<noteq> OK then s else rest ())"

definition assign_or_return :: "'a StatusOr \<Rightarrow> ('a \<Rightarrow> 'b StatusOr res) \<Rightarrow> 'b StatusOr res" where
  "assign_or_return e rest =
     (if \<not> ok e then StatusOr_of_status (status e) else bnd (ValueOrDie e) rest)"

text \<open>
  The class invariant: the constructors never store an OK status without a value.
\<close>

definition wf_StatusOr :: "'a StatusOr \<Rightarrow> bool" where
  "wf_StatusOr e \<longleftrightarrow> (ok e \<longleftrightarrow> code (status e) = OK)"

lemma code_OkStatus [simp]: "code OkStatus = OK"
  by (simp add: OkStatus_def Status_default_def)

lemma wf_ValueRepr [simp]: "wf_StatusOr (ValueRepr v)"
  by (simp add: wf_StatusOr_def)

lemma wf_StatusRepr [simp]: "wf_StatusOr (StatusRepr s) \<longleftrightarrow> code s \<noteq> OK"
  by (simp add: wf_StatusOr_def)

lemma IsEnd_simps [simp]:
  "IsEnd (ValueRepr v) = False" "IsEnd (StatusRepr s) = (code s \<noteq> OK)"
  by (simp_all add: IsEnd_def IsEnd_status_def)

lemma IsDone_simps [simp]:
  "IsDone (ValueRepr v) = False" "IsDone (StatusRepr s) = (code s = OUT_OF_RANGE)"
  by (simp_all add: IsDone_def IsDone_status_def)

lemma IsError_simps [simp]:
  "IsError (ValueRepr v) = False"
  "IsError (StatusRepr s) = (code s \<noteq> OK \<and> code s \<noteq> OUT_OF_RANGE)"
  by (simp_all add: IsError_def IsError_status_def IsDone_status_def)

lemma StatusOr_of_status_ok [simp]: "code s \<noteq> OK \<Longrightarrow> StatusOr_of_status s = ret (StatusRepr s)"
  by (simp add: StatusOr_of_status_def)



section \<open>Logging\<close>

datatype LogSeverity = kInfo | kWarning | kError | kFatal | kNoLog

fun severity_char :: "LogSeverity \<Rightarrow> char" where
  "severity_char kInfo = CHR ''I''"
| "severity_char kWarning = CHR ''W''"
| "severity_char kError = CHR ''E''"
| "severity_char kFatal = CHR ''F''"
| "severity_char kNoLog = CHR ''U''"

fun nat_to_string :: "nat \<Rightarrow> string" where
  "nat_to_string n =
     (if n < 10 then [char_of (48 + n)] else nat_to_string (n div 10) @ [char_of (48 + n mod 10)])"

declare nat_to_string.simps [simp del]

definition int_to_string :: "int \<Rightarrow> string" where
  "int_to_string i = (if i < 0 then ''-'' @ nat_to_string (nat (- i)) else nat_to_string (nat i))"

definition Logger_Log :: "string \<Rightarrow> int \<Rightarrow> LogSeverity \<Rightarrow> string \<Rightarrow> string list \<Rightarrow> string list" where
  "Logger_Log file line severity msg err =
     err @ [[severity_char severity] @ '' '' @ BaseName file @ '':'' @ int_to_string line @ '' '' @ msg]"

text \<open>The destructor of \<open>LogMessage\<close> writes the streamed message and aborts if it is fatal.\<close>

definition LogMessage_destroy ::
  "string \<Rightarrow> int \<Rightarrow> LogSeverity \<Rightarrow> string \<Rightarrow> string list \<Rightarrow> string list res" where
  "LogMessage_destroy file line severity msg err =
     (let err = Logger_Log file line severity msg err
      in if severity = kFatal then fail (CheckFailed msg) else ret err)"

section \<open>StatusBuilder\<close>

text \<open>
  \<open>message_\<close> is a \<open>std::ostringstream\<close>: a string and the position \<open>sb_put\<close> at which the next
  insertion writes, over what is there.
\<close>

record StatusBuilder =
  sb_file :: string
  sb_line :: int
  sb_code :: StatusCode
  sb_message :: string
  sb_put :: nat
  sb_log_severity :: LogSeverity

definition rx_debug :: bool where
  "rx_debug = False"

definition MakeStatusBuilder :: "StatusCode \<Rightarrow> string \<Rightarrow> int \<Rightarrow> StatusBuilder" where
  "MakeStatusBuilder c file line =
     \<lparr>sb_file = file, sb_line = line, sb_code = c, sb_message = [], sb_put = 0,
      sb_log_severity = (if rx_debug then kInfo else kNoLog)\<rparr>"

text \<open>
  The copy constructor keeps the code, the source position and the message, not the log level. A
  string stream made from a string writes from its beginning.
\<close>

definition StatusBuilder_copy :: "StatusBuilder \<Rightarrow> StatusBuilder" where
  "StatusBuilder_copy other =
     \<lparr>sb_file = sb_file other, sb_line = sb_line other, sb_code = sb_code other,
      sb_message = sb_message other, sb_put = 0, sb_log_severity = (if rx_debug then kInfo else kNoLog)\<rparr>"

definition StatusBuilder_stream :: "StatusBuilder \<Rightarrow> string \<Rightarrow> StatusBuilder" where
  "StatusBuilder_stream b x =
     b\<lparr>sb_message := take (sb_put b) (sb_message b) @ x @ drop (sb_put b + length x) (sb_message b),
       sb_put := sb_put b + length x\<rparr>"

definition LogInfo :: "StatusBuilder \<Rightarrow> StatusBuilder" where
  "LogInfo b = b\<lparr>sb_log_severity := kInfo\<rparr>"

definition LogWarning :: "StatusBuilder \<Rightarrow> StatusBuilder" where
  "LogWarning b = b\<lparr>sb_log_severity := kWarning\<rparr>"

definition LogError :: "StatusBuilder \<Rightarrow> StatusBuilder" where
  "LogError b = b\<lparr>sb_log_severity := kError\<rparr>"

definition LogFatal :: "StatusBuilder \<Rightarrow> StatusBuilder" where
  "LogFatal b = b\<lparr>sb_log_severity := kFatal\<rparr>"

definition StatusBuilder_to_Status :: "StatusBuilder \<Rightarrow> string list \<Rightarrow> (Status \<times> string list) res" where
  "StatusBuilder_to_Status b err =
     (let result = set_code (sb_code b) Status_default
      in if sb_code b \<noteq> OK then
           (let result = set_message (''(at '' @ BaseName (sb_file b) @ '':''
                           @ int_to_string (sb_line b) @ '') '' @ sb_message b) result
            in if sb_log_severity b \<noteq> kNoLog then
                 (let err = Logger_Log (sb_file b) (sb_line b) (sb_log_severity b)
                              (''['' @ nat_to_string (code_number (sb_code b)) @ ''] '' @ sb_message b) err
                  in if sb_log_severity b = kFatal then fail (CheckFailed (sb_message b))
                     else ret (result, err))
               else ret (result, err))
         else ret (result, err))"

text \<open>The implicit conversion to \<open>StatusOr\<close> goes through the checked constructor.\<close>

definition StatusBuilder_to_StatusOr ::
  "StatusBuilder \<Rightarrow> string list \<Rightarrow> ('a StatusOr \<times> string list) res" where
  "StatusBuilder_to_StatusOr b err =
     bnd (StatusBuilder_to_Status b err) (\<lambda>(s, err).
     bnd (StatusOr_of_status s) (\<lambda>e. ret (e, err)))"

lemma StatusBuilder_stream_append:
  "sb_put b = length (sb_message b) \<Longrightarrow>
    sb_message (StatusBuilder_stream b x) = sb_message b @ x
    \<and> sb_put (StatusBuilder_stream b x) = length (sb_message (StatusBuilder_stream b x))"
  by (simp add: StatusBuilder_stream_def)

text \<open>
  What is streamed into a new status builder accumulates in order, but the first insertion
  into a copy of a builder overwrites the beginning of the message copied.
\<close>

theorem StatusBuilder_streams:
  "sb_message (foldl StatusBuilder_stream (MakeStatusBuilder c file line) xs) = concat xs
   \<and> sb_message (StatusBuilder_stream (StatusBuilder_copy b) x) = x @ drop (length x) (sb_message b)"
proof -
  have "sb_message (foldl StatusBuilder_stream b xs) = sb_message b @ concat xs"
    if "sb_put b = length (sb_message b)" for b
    using that
  proof (induction xs arbitrary: b)
    case (Cons x xs)
    from Cons.IH [of "StatusBuilder_stream b x"] StatusBuilder_stream_append [OF Cons.prems]
    show ?case by simp
  qed simp
  from this [of "MakeStatusBuilder c file line"]
  show ?thesis by (simp add: MakeStatusBuilder_def StatusBuilder_stream_def StatusBuilder_copy_def)
qed

lemma MakeStatusBuilder_to_Status:
  "StatusBuilder_to_Status (StatusBuilder_stream (MakeStatusBuilder c file line) m) err =
     ret (if c = OK then set_code OK Status_default
          else set_message (''(at '' @ BaseName file @ '':'' @ int_to_string line @ '') '' @ m)
                 (set_code c Status_default), err)"
  by (simp add: StatusBuilder_to_Status_def StatusBuilder_stream_def MakeStatusBuilder_def
      rx_debug_def Let_def)

text \<open>
  Converting a status builder to a status keeps its code, ends the message with the streamed
  text whenever the code is not OK, and dies exactly when it is a failure marked \<open>LogFatal\<close>.
\<close>

theorem StatusBuilder_conversion:
  "(\<forall>s err'. StatusBuilder_to_Status b err = ret (s, err') \<longrightarrow>
      code s = sb_code b \<and> (sb_code b \<noteq> OK \<longrightarrow> suffix (sb_message b) (message s))
      \<and> length err' \<le> Suc (length err))
   \<and> (returns (StatusBuilder_to_Status b err) \<longleftrightarrow> sb_code b = OK \<or> sb_log_severity b \<noteq> kFatal)"
proof -
  have msg: "message (set_message m s) = m" for m s by (cases s) simp
  show ?thesis
    by (auto simp: StatusBuilder_to_Status_def Let_def msg Logger_Log_def suffix_def split: if_splits)
qed

theorem StatusBuilder_conversion_witness:
  "returns (StatusBuilder_to_Status (MakeStatusBuilder NOT_FOUND ''a/b.cc'' 7) [])"
  using StatusBuilder_conversion [of "MakeStatusBuilder NOT_FOUND ''a/b.cc'' 7" "[]"]
  by (simp add: MakeStatusBuilder_def rx_debug_def)

section \<open>RX_STATUS\<close>

text \<open>
  \<open>RX_STATUS(code) << message\<close> with nothing logged: the status that the builder converts to.
\<close>

definition rx_status :: "StatusCode \<Rightarrow> string \<Rightarrow> int \<Rightarrow> string \<Rightarrow> Status" where
  "rx_status c file line m =
     (if c = OK then set_code OK Status_default
      else set_message (''(at '' @ BaseName file @ '':'' @ int_to_string line @ '') '' @ m)
             (set_code c Status_default))"

lemma rx_status_builder:
  "StatusBuilder_to_Status (StatusBuilder_stream (MakeStatusBuilder c file line) m) err = ret (rx_status c file line m, err)"
  by (simp add: MakeStatusBuilder_to_Status rx_status_def)

lemma code_rx_status [simp]: "code (rx_status c file line m) = c"
  by (simp add: rx_status_def)

end
