(* ===== verification/Request_Balance.thy ===== *)
theory Request_Balance
  imports Prelude "HOL-Library.Extended_Nat"
begin

text \<open>
  Class \<open>RequestBalance\<close> (\<open>reactive/reactive.h\<close>, \<open>reactive/reactive.cc\<close>): the saturating
  counter of requested but undelivered events. Its largest value \<open>kMax\<close> means ``infinite'': once
  reached, adding and removing have no effect. The abstract specification is a counter over the
  extended naturals (locale \<open>request_counter\<close>); the word operations of the code refine it.
\<close>

section \<open>The class\<close>

definition kMax :: size_t where
  "kMax = - 1"

record RequestBalance =
  rb_balance :: size_t

definition RequestBalance_init :: RequestBalance where
  "RequestBalance_init = \<lparr>rb_balance = 0\<rparr>"

definition HasRequests :: "RequestBalance \<Rightarrow> bool" where
  "HasRequests b \<longleftrightarrow> rb_balance b > 0"

definition balance :: "RequestBalance \<Rightarrow> size_t" where
  "balance b = rb_balance b"

definition Add :: "RequestBalance \<Rightarrow> size_t \<Rightarrow> RequestBalance" where
  "Add b count = b\<lparr>rb_balance := (if kMax - rb_balance b < count then kMax else rb_balance b + count)\<rparr>"

definition Remove :: "RequestBalance \<Rightarrow> size_t \<Rightarrow> RequestBalance res" where
  "Remove b count =
     (if rb_balance b = kMax then ret b
      else rx_check (rb_balance b \<ge> count) ''negative request balance''
             (ret (b\<lparr>rb_balance := rb_balance b - count\<rparr>)))"

definition reset :: "RequestBalance \<Rightarrow> RequestBalance" where
  "reset b = b\<lparr>rb_balance := 0\<rparr>"

section \<open>The abstract counter\<close>

text \<open>
  What the stream operators rely on. A counter abstracts to an extended natural: adding is
  addition (which may round a sum of at least \<open>cap\<close> up to \<open>\<infinity>\<close>), removing fails exactly when the
  counter is finite and too small, and never changes \<open>\<infinity>\<close>.
\<close>

locale request_counter =
  fixes abs :: "'b \<Rightarrow> enat"
    and zero :: 'b
    and has :: "'b \<Rightarrow> bool"
    and add :: "'b \<Rightarrow> size_t \<Rightarrow> 'b"
    and remove :: "'b \<Rightarrow> size_t \<Rightarrow> 'b res"
    and cap :: nat
  assumes abs_zero: "abs zero = 0"
    and abs_has: "has b \<longleftrightarrow> abs b \<noteq> 0"
    and abs_add: "abs (add b n) =
      (if abs b + enat (unat n) < enat cap then abs b + enat (unat n) else \<infinity>)"
    and remove_ok: "enat (unat n) \<le> abs b \<Longrightarrow>
      \<exists>b'. remove b n = ret b' \<and> abs b' = abs b - enat (unat n)"
    and remove_fail: "abs b < enat (unat n) \<Longrightarrow> \<exists>msg. remove b n = fail (CheckFailed msg)"
    and cap_pos: "0 < cap"
begin

lemma add_increases: "abs b \<le> abs (add b n)"
  by (cases "abs b"; simp add: abs_add)

lemma infinite_is_absorbing:
  assumes "abs b = \<infinity>"
  shows "abs (add b n) = \<infinity>" and "\<exists>b'. remove b n = ret b' \<and> abs b' = \<infinity>"
proof -
  show "abs (add b n) = \<infinity>" using assms by (simp add: abs_add)
  show "\<exists>b'. remove b n = ret b' \<and> abs b' = \<infinity>"
    using assms remove_ok [of n b] by simp
qed

lemma remove_after_add:
  assumes "abs b + enat (unat n) < enat cap"
  shows "\<exists>b'. remove (add b n) n = ret b' \<and> abs b' = abs b"
proof -
  have eq: "abs (add b n) = abs b + enat (unat n)" using assms by (simp add: abs_add)
  then have "enat (unat n) \<le> abs (add b n)" by (cases "abs b") auto
  then obtain b' where "remove (add b n) n = ret b'"
    and "abs b' = abs (add b n) - enat (unat n)" using remove_ok by blast
  moreover have "abs b + enat (unat n) - enat (unat n) = abs b" by (cases "abs b") auto
  ultimately show ?thesis using eq by auto
qed

lemma remove_one_iff_has: "unat n = 1 \<Longrightarrow> has b \<longleftrightarrow> (\<exists>b'. remove b n = ret b')"
proof
  assume n: "unat n = 1" and "has b"
  then have "enat (unat n) \<le> abs b" by (cases "abs b") (auto simp: abs_has zero_enat_def)
  then show "\<exists>b'. remove b n = ret b'" using remove_ok by blast
next
  assume n: "unat n = 1" and "\<exists>b'. remove b n = ret b'"
  then have "\<not> abs b < enat (unat n)" using remove_fail by fastforce
  with n show "has b" by (cases "abs b") (auto simp: abs_has zero_enat_def)
qed

text \<open>Requests of several calls add up: the order and the grouping of \<open>Add\<close> calls is immaterial.\<close>

lemma add_add_abs:
  assumes "unat (m + n) = unat m + unat n"
  shows "abs (add (add b m) n) = abs (add b (m + n))"
  using assms by (cases "abs b") (auto simp: abs_add)

lemma add_commute_abs: "abs (add (add b m) n) = abs (add (add b n) m)"
  by (cases "abs b") (auto simp: abs_add)

end

section \<open>The refinement\<close>

definition rb_abs :: "RequestBalance \<Rightarrow> enat" where
  "rb_abs b = (if rb_balance b = kMax then \<infinity> else enat (unat (rb_balance b)))"

lemma unat_kMax: "unat kMax = 2 ^ 64 - 1"
  by (simp add: kMax_def)

lemma saturates_iff: "kMax - x < n \<longleftrightarrow> 2 ^ 64 - 1 < unat x + unat n"
proof -
  have "unat (kMax - x) = 18446744073709551615 - unat x"
    by (simp add: unat_minus_64 kMax_def)
  then show ?thesis by (simp add: word_less_nat_alt less_diff_conv2 add.commute)
qed

lemma not_saturated_add:
  "\<not> kMax - x < n \<Longrightarrow> unat (x + n) = unat x + unat n"
  by (simp add: saturates_iff unat_plus_64)

lemma rb_balance_Add:
  "rb_balance (Add b n) = (if unat (rb_balance b) + unat n < 2 ^ 64 then rb_balance b + n else kMax)"
  by (auto simp: Add_def saturates_iff)

lemma word_plus_eq_kMax: "unat x + unat n < 2 ^ 64 \<Longrightarrow>
  x + n = kMax \<longleftrightarrow> unat x + unat n = 2 ^ 64 - 1"
proof -
  assume "unat x + unat n < 2 ^ 64"
  then have "unat (x + n) = unat x + unat n" by (simp add: unat_plus_64)
  then show ?thesis by (metis kMax_def numeral_power_eq_of_nat_cancel_iff unat_eq_max_64 unat_kMax)
qed

interpretation rb: request_counter rb_abs RequestBalance_init HasRequests Add Remove "2 ^ 64 - 1"
proof (unfold_locales, goal_cases)
  case 1
  show ?case by (simp add: rb_abs_def RequestBalance_init_def kMax_def zero_enat_def)
next
  case (2 b)
  show ?case
    by (auto simp: rb_abs_def HasRequests_def zero_enat_def word_greater_zero_iff kMax_def
        unat_eq_0 split: if_splits)
next
  case (3 b n)
  show ?case
    using word_plus_eq_kMax [of "rb_balance b" n] unat_eq_max_64 [of "rb_balance b"]
    by (auto simp: rb_abs_def rb_balance_Add unat_plus_64 unat_kMax kMax_def)
next
  case (4 n b)
  show ?case
    using 4 minus_eq_max_64
    by (auto simp: rb_abs_def Remove_def word_le_nat_alt rx_check_def unat_minus_64
        ret_def kMax_def split: if_splits)
next
  case (5 b n)
  then show ?case
    by (auto simp: rb_abs_def Remove_def word_le_nat_alt rx_check_def split: if_splits)
next
  case 6
  show ?case by simp
qed

section \<open>Facts the stream operators use\<close>

lemma balance_ext: "rb_balance b = rb_balance b' \<Longrightarrow> (b :: RequestBalance) = b'"
  by simp

lemma HasRequests_iff: "HasRequests b \<longleftrightarrow> rb_balance b \<noteq> 0"
  by (simp add: HasRequests_def word_greater_zero_iff)

lemma Remove_1 [simp]:
  "rb_balance b \<noteq> 0 \<Longrightarrow> rb_balance b \<noteq> kMax \<Longrightarrow> Remove b 1 = ret (b\<lparr>rb_balance := rb_balance b - 1\<rparr>)"
  by (simp add: Remove_def rx_check_def word_le_nat_alt unat_pos_64)

lemma Remove_kMax [simp]: "rb_balance b = kMax \<Longrightarrow> Remove b n = ret b"
  by (simp add: Remove_def)

lemma Remove_zero: "rb_balance b = 0 \<Longrightarrow> Remove b 1 = fail (CheckFailed ''negative request balance'')"
  by (simp add: Remove_def kMax_def)

lemma Add_zero [simp]: "Add b 0 = b"
  by (simp add: Add_def)

section \<open>Properties\<close>

lemma rb_abs_inject: "rb_abs b = rb_abs b' \<longleftrightarrow> b = b'"
proof
  assume eq: "rb_abs b = rb_abs b'"
  have "rb_balance b = rb_balance b'"
    using eq by (auto simp: rb_abs_def kMax_def word_unat_eq_iff unat_kMax split: if_splits)
  then show "b = b'" by (rule balance_ext)
qed simp

text \<open>
  C27: \<open>RequestBalance\<close> implements a counter over the natural numbers with infinity: the empty
  balance is 0, adding adds and rounds a sum of at least \<open>kMax\<close> up to infinity, removing subtracts
  when enough is there, leaves infinity as it is, and fails its check exactly when the balance is
  too small.
\<close>

theorem RequestBalance_refines_counter:
  "rb_abs RequestBalance_init = 0 \<and> rb_abs (reset b) = 0
   \<and> (HasRequests b \<longleftrightarrow> rb_abs b \<noteq> 0)
   \<and> rb_abs (Add b n) = (let s = rb_abs b + enat (unat n) in if s < enat (2 ^ 64 - 1) then s else \<infinity>)
   \<and> (case Remove b n of
        Some (Inr b') \<Rightarrow> enat (unat n) \<le> rb_abs b \<and> rb_abs b' = rb_abs b - enat (unat n)
      | Some (Inl e) \<Rightarrow> rb_abs b < enat (unat n) \<and> e = CheckFailed ''negative request balance''
      | None \<Rightarrow> False)"
proof (intro conjI)
  show "rb_abs RequestBalance_init = 0" by (rule rb.abs_zero)
  show "rb_abs (reset b) = 0" by (simp add: rb_abs_def reset_def kMax_def zero_enat_def)
  show "HasRequests b \<longleftrightarrow> rb_abs b \<noteq> 0" by (rule rb.abs_has)
  show "rb_abs (Add b n) = (let s = rb_abs b + enat (unat n) in if s < enat (2 ^ 64 - 1) then s else \<infinity>)"
    unfolding Let_def by (rule rb.abs_add)
  show "case Remove b n of
        Some (Inr b') \<Rightarrow> enat (unat n) \<le> rb_abs b \<and> rb_abs b' = rb_abs b - enat (unat n)
      | Some (Inl e) \<Rightarrow> rb_abs b < enat (unat n) \<and> e = CheckFailed ''negative request balance''
      | None \<Rightarrow> False"
  proof (cases "enat (unat n) \<le> rb_abs b")
    case True
    from rb.remove_ok [OF True] show ?thesis using True by (auto simp: ret_def)
  next
    case False
    then have "rb_abs b < enat (unat n)" by simp
    with rb.remove_fail [OF this] show ?thesis
      by (auto simp: Remove_def rx_check_def fail_def ret_def split: if_splits)
  qed
qed

text \<open>
  Requests accumulate: neither the grouping nor the order of requests matters, whether or not
  they saturate, and a balance never decreases by a request. The only condition is that the sum of
  the two requests is itself a \<open>size_t\<close>.
\<close>

theorem RequestBalance_requests_accumulate:
  assumes "unat m + unat n < 2 ^ 64"
  shows "Add (Add b m) n = Add b (m + n) \<and> Add (Add b m) n = Add (Add b n) m
    \<and> rb_abs b \<le> rb_abs (Add b n)"
proof (intro conjI)
  have "unat (m + n) = unat m + unat n" using assms by (simp add: unat_plus_64)
  from rb.add_add_abs [OF this, of b] show "Add (Add b m) n = Add b (m + n)" by (simp add: rb_abs_inject)
  show "Add (Add b m) n = Add (Add b n) m"
    using rb.add_commute_abs [of b m n] by (simp add: rb_abs_inject)
  show "rb_abs b \<le> rb_abs (Add b n)" by (rule rb.add_increases)
qed

theorem RequestBalance_requests_accumulate_witness:
  "Add (Add \<lparr>rb_balance = kMax - 5\<rparr> 3) 7 = Add \<lparr>rb_balance = kMax - 5\<rparr> 10"
  using RequestBalance_requests_accumulate [of 3 7] by simp



end
