(* ===== verification/Streams.thy ===== *)
theory Streams
  imports Monitoring Request_Balance
begin

text \<open>
  The data model of the reactive core (\<open>reactive/reactive.h\<close>, \<open>reactive/reactive_impl.inc\<close>):
  element values, publishers, the classes whose instances live on the heap, and the heap itself,
  with \<open>Subscription\<close> and the reference counts of \<open>object.h\<close>.

  An object is a heap cell tagged with its class. A pointer is an address; a destroyed object has
  no cell, addresses are never reused, so an access through a dangling pointer is seen and stops
  the model with \<open>BadPointer\<close>. A \<open>Subscription\<close> is the number of a \<open>SubscriptionState\<close> cell, which
  outlives its stream and holds the stream's address until the stream's destructor clears it.
  Every virtual call goes through the parameter \<open>run\<close> of the calling method (type \<open>runner\<close>),
  so that the theory of one class does not depend on the others; theory \<open>Machine\<close> ties the knot.

  User code enters in three forms. Generators, map functions and flat-map continuations are
  functions that may read and change the user's own state (what the closures capture by
  reference). A user's \<open>on_subscribe\<close> and \<open>on_next\<close> are lists of steps; each step sees the
  subscription, whether it has ended, and the user's state, changes the state, and may make one
  call on the subscription. The lambdas the library itself creates are constructors.
\<close>

section \<open>Element values and publishers\<close>

text \<open>
  The values of C++ types, for elements and for generator states alike: \<open>Val\<close> is a value of any
  type of the user's, \<open>SizeVal\<close> a \<open>std::size_t\<close>, \<open>TriggerVal\<close> the empty \<open>Trigger\<close>, \<open>Vec\<close> a
  \<open>std::vector\<close> and \<open>Variant i x\<close> a \<open>absl::variant\<close> whose alternative \<open>i\<close> holds \<open>x\<close>.
\<close>

datatype 'v val = Val 'v | SizeVal size_t | TriggerVal | Vec "'v val list" | Variant nat "'v val"

type_synonym 'v event = "'v val StatusOr"
type_synonym sid = nat
type_synonym worker_id = nat

type_synonym ('v, 'u) generator = "'v val \<Rightarrow> 'u \<Rightarrow> 'v event \<times> 'v val \<times> 'u"

text \<open>
  The closures of a chaining stream: \<open>MapFn\<close> and \<open>CastFn\<close> for \<open>Map\<close> and \<open>StaticCast\<close>, and
  \<open>BufferFn size buffer\<close> for \<open>Buffer\<close>, which owns the vector being filled.
\<close>

datatype ('v, 'u) chain_fn =
    MapFn "'v val \<Rightarrow> 'u \<Rightarrow> 'v event \<times> 'u"
  | CastFn "'v val \<Rightarrow> 'v val"
  | BufferFn size_t "'v val list"

text \<open>
  Publishers are unique values that are moved into the stream a subscription creates. A
  \<open>Publisher<T>\<close> (\<open>UniqueObject<PublisherImpl<T>>\<close>) is \<open>pub option\<close>, \<open>None\<close> once moved away.
\<close>

datatype ('v, 'u) pub =
    GeneratingPublisher "'v val" "'v val \<Rightarrow> 'u \<Rightarrow> 'v event \<times> 'v val \<times> 'u"
  | ChainingPublisher "('v, 'u) pub" "('v, 'u) chain_fn"
  | PrefetchingPublisher "('v, 'u) pub" size_t rat
  | MergePublisher "('v, 'u) pub list"
  | MergeUniformPublisher "('v, 'u) pub list"
  | ConcatPublisher "('v, 'u) pub" "('v, 'u) pub"
  | FlatMapPublisher "('v, 'u) pub" "'v val \<Rightarrow> 'u \<Rightarrow> ('v, 'u) pub option \<times> 'u"
  | AsyncPublisher worker_id worker_id "('v, 'u) pub option"

type_synonym ('v, 'u) publisher = "('v, 'u) pub option"

section \<open>User callbacks\<close>

datatype uaction = NoAction | DoRequest size_t | DoCancel

type_synonym 'u ustep = "sid \<Rightarrow> bool \<Rightarrow> 'u \<Rightarrow> 'u \<times> uaction"

text \<open>
  The two functions of a \<open>FunctionalSubscriber\<close>: the user's own, the lambdas of
  \<open>MakeWithFlowControl\<close> and \<open>Single::Subscribe\<close> (with its captured \<open>listener\<close> and \<open>called\<close>),
  and those with which \<open>FlatMapStream\<close> listens to a continuation, capturing its \<open>this\<close>.
\<close>

datatype 'u on_subscribe_fn =
    SubscribeUser "'u ustep list"
  | SubscribeRequest1
  | SubscribeFlatMapCont addr

datatype ('v, 'u) on_next_fn =
    NextUser "'v event \<Rightarrow> 'u ustep list"
  | NextFlowControl "'v event \<Rightarrow> 'u \<Rightarrow> 'u"
  | NextSingle "'v event \<Rightarrow> 'u \<Rightarrow> 'u" bool
  | NextFlatMapCont addr

section \<open>The classes\<close>

record ('v, 'u) generating_stream =
  gs_generator :: "('v, 'u) generator"
  gs_state :: "'v val"
  gs_subscriber :: addr
  gs_requested :: RequestBalance
  gs_generating :: bool
  gs_sid :: sid

record ('v, 'u) chaining_stream =
  cs_func :: "('v, 'u) chain_fn"
  cs_subscriber :: addr
  cs_sid :: sid
  cs_base_subscription :: "sid option"

record 'v prefetching_stream =
  ps_buffer_size :: size_t
  ps_refill_mark :: rat
  ps_sid :: sid
  ps_self_lock :: "addr option"
  ps_subscriber :: addr
  ps_upstream_subscription :: "sid option"
  ps_buffer :: "'v event list"
  ps_request_balance :: RequestBalance
  ps_upstream_request_balance :: RequestBalance
  ps_delivering :: bool

text \<open>\<open>mu_merge\<close> is the \<open>self\<close> pointer that the \<open>state_changed_\<close> closure captures.\<close>

record 'v merge_upstream_subscriber =
  mu_index :: nat
  mu_merge :: addr
  mu_next :: "'v event option"
  mu_upstream_subscription :: "sid option"

record merge_stream =
  ms_subscriber :: addr
  ms_sid :: sid
  ms_upstream_subscribers :: "addr option list"
  ms_self_lock :: "addr option"
  ms_current_index :: nat
  ms_request_balance :: RequestBalance
  ms_available_balance :: RequestBalance
  ms_delivering :: bool

record ('v, 'u) concat_stream =
  co_sid :: sid
  co_subscriber :: addr
  co_continue_with :: "('v, 'u) publisher"
  co_upstream_subscription :: "sid option"
  co_request_balance :: RequestBalance
  co_self_lock :: "addr option"

record ('v, 'u) flatmap_stream =
  fm_cont :: "'v val \<Rightarrow> 'u \<Rightarrow> ('v, 'u) publisher \<times> 'u"
  fm_subscriber :: addr
  fm_sid :: sid
  fm_request_balance :: RequestBalance
  fm_cont_requested :: RequestBalance
  fm_base_subscription :: "sid option"
  fm_cont_subscription :: "sid option"

record async_stream =
  as_produce_on :: worker_id
  as_consume_on :: worker_id
  as_subscriber :: "addr option"
  as_sid :: sid
  as_upstream_subscription :: "sid option"

datatype ('v, 'u) obj =
    FunctionalSubscriber "'u on_subscribe_fn" "('v, 'u) on_next_fn"
  | SharedSubscriberWrapper addr
  | VariantSubscriberWrapper addr
  | GeneratingStream "('v, 'u) generating_stream"
  | ChainingStream "('v, 'u) chaining_stream"
  | PrefetchingStream "'v prefetching_stream"
  | MergeUpstreamSubscriber "'v merge_upstream_subscriber"
  | MergeStream merge_stream
  | ConcatStream "('v, 'u) concat_stream"
  | FlatMapStream "('v, 'u) flatmap_stream"
  | AsyncStream async_stream

text \<open>The tasks that \<open>AsyncPublisher\<close> and \<open>AsyncStream\<close> schedule on workers.\<close>

datatype ('v, 'u) task =
    TaskSubscribe "('v, 'u) publisher" addr worker_id worker_id
  | TaskCancel sid
  | TaskRequest size_t sid
  | TaskOnSubscribe sid addr
  | TaskOnNextLast "'v event" sid "addr option"
  | TaskOnNext "'v event" addr sid

record ('v, 'u) world =
  heap :: "addr \<rightharpoonup> ('v, 'u) obj"
  next_addr :: addr
  refs :: "addr \<Rightarrow> nat"
  impl :: "sid \<Rightarrow> addr option"
  next_sid :: sid
  user :: 'u
  queues :: "worker_id \<Rightarrow> ('v, 'u) task list"

text \<open>The calls between objects, dispatched on the class of the object they are made on.\<close>

datatype ('v, 'u) call =
    OnSubscribe addr sid
  | OnNext addr sid "'v event"
  | Request addr size_t
  | Cancel addr
  | Destroy addr
  | DoSubscribe "('v, 'u) pub" addr
  | GenerateLoop addr
  | PrefetchDeliverLoop addr
  | MergeDeliverLoop addr
  | FlatMapOnSubscribeCont addr sid
  | FlatMapOnNextCont addr "'v event"

type_synonym ('v, 'u) runner = "('v, 'u) call \<Rightarrow> ('v, 'u) world \<Rightarrow> ('v, 'u) world res"

section \<open>Heap operations\<close>

definition put :: "addr \<Rightarrow> ('v, 'u) obj \<Rightarrow> ('v, 'u) world \<Rightarrow> ('v, 'u) world" where
  "put a x w = w\<lparr>heap := (heap w)(a \<mapsto> x)\<rparr>"

definition free :: "addr \<Rightarrow> ('v, 'u) world \<Rightarrow> ('v, 'u) world" where
  "free a w = w\<lparr>heap := (heap w)(a := None)\<rparr>"

definition alloc :: "('v, 'u) obj \<Rightarrow> ('v, 'u) world \<Rightarrow> ('v, 'u) world" where
  "alloc x w = w\<lparr>heap := (heap w)(next_addr w \<mapsto> x), next_addr := Suc (next_addr w)\<rparr>"

text \<open>\<open>make_shared<SubscriptionState>(this)\<close> and \<open>clear_subscription()\<close>.\<close>

definition new_subscription_state :: "addr \<Rightarrow> ('v, 'u) world \<Rightarrow> ('v, 'u) world" where
  "new_subscription_state a w =
     w\<lparr>impl := (impl w)(next_sid w := Some a), next_sid := Suc (next_sid w)\<rparr>"

definition clear_subscription :: "sid \<Rightarrow> ('v, 'u) world \<Rightarrow> ('v, 'u) world" where
  "clear_subscription s w = w\<lparr>impl := (impl w)(s := None)\<rparr>"

definition schedule :: "worker_id \<Rightarrow> ('v, 'u) task \<Rightarrow> ('v, 'u) world \<Rightarrow> ('v, 'u) world" where
  "schedule k t w = w\<lparr>queues := (queues w)(k := queues w k @ [t])\<rparr>"

text \<open>A new \<open>shared_ptr\<close> to the object at \<open>a\<close>, and the end of one: the last one destroys it.\<close>

definition share :: "addr \<Rightarrow> ('v, 'u) world \<Rightarrow> ('v, 'u) world" where
  "share a w = w\<lparr>refs := (refs w)(a := Suc (refs w a))\<rparr>"

definition release :: "('v, 'u) runner \<Rightarrow> addr \<Rightarrow> ('v, 'u) world \<Rightarrow> ('v, 'u) world res" where
  "release run a w =
     (case refs w a of
        0 \<Rightarrow> fail (BadPointer a)
      | Suc n \<Rightarrow>
          (let w = w\<lparr>refs := (refs w)(a := n)\<rparr>
           in if n = 0 then run (Destroy a) w else ret w))"

definition release_opt ::
  "('v, 'u) runner \<Rightarrow> addr option \<Rightarrow> ('v, 'u) world \<Rightarrow> ('v, 'u) world res" where
  "release_opt run p w = (case p of None \<Rightarrow> ret w | Some a \<Rightarrow> release run a w)"

section \<open>Subscription\<close>

definition has_ended :: "sid \<Rightarrow> ('v, 'u) world \<Rightarrow> bool" where
  "has_ended s w \<longleftrightarrow> impl w s = None"

definition ended_msg :: string where
  "ended_msg = ''access to subscription after stream ended''"

definition Subscription_Cancel ::
  "('v, 'u) runner \<Rightarrow> sid \<Rightarrow> ('v, 'u) world \<Rightarrow> ('v, 'u) world res" where
  "Subscription_Cancel run s w =
     (case impl w s of None \<Rightarrow> fail (CheckFailed ended_msg) | Some a \<Rightarrow> run (Cancel a) w)"

definition Subscription_Request ::
  "('v, 'u) runner \<Rightarrow> sid \<Rightarrow> size_t \<Rightarrow> ('v, 'u) world \<Rightarrow> ('v, 'u) world res" where
  "Subscription_Request run s count w =
     (case impl w s of None \<Rightarrow> fail (CheckFailed ended_msg) | Some a \<Rightarrow> run (Request a count) w)"

definition never_subscribed_msg :: string where
  "never_subscribed_msg = ''OnSubscribe has never been called''"

text \<open>\<open>RX_CHECK(subscription)\<close> on an \<open>absl::optional<Subscription>\<close>, then its value.\<close>

definition with_subscription ::
  "sid option \<Rightarrow> string \<Rightarrow> (sid \<Rightarrow> 'a res) \<Rightarrow> 'a res" where
  "with_subscription p msg k = (case p of None \<Rightarrow> fail (CheckFailed msg) | Some s \<Rightarrow> k s)"

section \<open>Unique publishers\<close>

text \<open>\<open>UniqueObject::move_impl\<close>: the implementation, checked to be there.\<close>

definition move_impl :: "('v, 'u) publisher \<Rightarrow> ('v, 'u) pub res" where
  "move_impl p = (case p of None \<Rightarrow> fail (CheckFailed ''implementation missing (maybe moved)'')
                          | Some b \<Rightarrow> ret b)"

section \<open>Typed access\<close>

text \<open>
  Access to \<open>*this\<close> as an object of its class. The other branches are accesses to a destroyed
  object; an object never changes its class.
\<close>

definition get_generating :: "addr \<Rightarrow> ('v, 'u) world \<Rightarrow> ('v, 'u) generating_stream res" where
  "get_generating a w = (case heap w a of Some (GeneratingStream x) \<Rightarrow> ret x | _ \<Rightarrow> fail (BadPointer a))"

definition get_chaining :: "addr \<Rightarrow> ('v, 'u) world \<Rightarrow> ('v, 'u) chaining_stream res" where
  "get_chaining a w = (case heap w a of Some (ChainingStream x) \<Rightarrow> ret x | _ \<Rightarrow> fail (BadPointer a))"

definition get_prefetching :: "addr \<Rightarrow> ('v, 'u) world \<Rightarrow> 'v prefetching_stream res" where
  "get_prefetching a w = (case heap w a of Some (PrefetchingStream x) \<Rightarrow> ret x | _ \<Rightarrow> fail (BadPointer a))"

definition get_merge_upstream ::
  "addr \<Rightarrow> ('v, 'u) world \<Rightarrow> 'v merge_upstream_subscriber res" where
  "get_merge_upstream a w =
     (case heap w a of Some (MergeUpstreamSubscriber x) \<Rightarrow> ret x | _ \<Rightarrow> fail (BadPointer a))"

definition get_merge :: "addr \<Rightarrow> ('v, 'u) world \<Rightarrow> merge_stream res" where
  "get_merge a w = (case heap w a of Some (MergeStream x) \<Rightarrow> ret x | _ \<Rightarrow> fail (BadPointer a))"

definition get_concat :: "addr \<Rightarrow> ('v, 'u) world \<Rightarrow> ('v, 'u) concat_stream res" where
  "get_concat a w = (case heap w a of Some (ConcatStream x) \<Rightarrow> ret x | _ \<Rightarrow> fail (BadPointer a))"

definition get_flatmap :: "addr \<Rightarrow> ('v, 'u) world \<Rightarrow> ('v, 'u) flatmap_stream res" where
  "get_flatmap a w = (case heap w a of Some (FlatMapStream x) \<Rightarrow> ret x | _ \<Rightarrow> fail (BadPointer a))"

definition get_async :: "addr \<Rightarrow> ('v, 'u) world \<Rightarrow> async_stream res" where
  "get_async a w = (case heap w a of Some (AsyncStream x) \<Rightarrow> ret x | _ \<Rightarrow> fail (BadPointer a))"

end
