(* ===== verification/Subscribers.thy ===== *)
theory Subscribers
  imports Streams
begin

text \<open>
  Subscribers built from functions (\<open>FunctionalSubscriber\<close>, \<open>Subscriber::Make\<close>,
  \<open>MakeWithFlowControl\<close>), the wrapper around a shared subscriber, the three forms of
  \<open>Publisher::Subscribe\<close>, the subscriber that buffers what it receives
  (\<open>reactive/reactive_testing.h\<close>), and the monotonicity of the basic operations in the dispatcher.
\<close>

section \<open>Functional subscribers\<close>

primrec run_usteps ::
  "('v, 'u) runner \<Rightarrow> sid \<Rightarrow> 'u ustep list \<Rightarrow> ('v, 'u) world \<Rightarrow> ('v, 'u) world res" where
  "run_usteps run s [] w = ret w"
| "run_usteps run s (f # fs) w =
     (let (u, act) = f s (has_ended s w) (user w); w = w\<lparr>user := u\<rparr>
      in bnd (case act of
                NoAction \<Rightarrow> ret w
              | DoRequest n \<Rightarrow> Subscription_Request run s n w
              | DoCancel \<Rightarrow> Subscription_Cancel run s w)
           (\<lambda>w. run_usteps run s fs w))"

text \<open>The lambda of \<open>MakeWithFlowControl\<close>: pass the event on, then request the next one.\<close>

definition flow_control_next ::
  "('v, 'u) runner \<Rightarrow> ('v event \<Rightarrow> 'u \<Rightarrow> 'u) \<Rightarrow> sid \<Rightarrow> 'v event \<Rightarrow> ('v, 'u) world \<Rightarrow> ('v, 'u) world res" where
  "flow_control_next run on_next s event w =
     (let is_end = IsEnd event;
          w = w\<lparr>user := on_next event (user w)\<rparr>
      in if \<not> is_end then Subscription_Request run s 1 w else ret w)"

definition single_contract_status :: Status where
  "single_contract_status =
     set_message (''(at single.h:86) unexpected end-of-stream for single'')
       (set_code FAILED_PRECONDITION Status_default)"

text \<open>The status is the one the code builds with \<open>RX_STATUS\<close>.\<close>

lemma single_contract_status_builder:
  "StatusBuilder_to_Status (StatusBuilder_stream (MakeStatusBuilder FAILED_PRECONDITION ''rxcppuniq/reactive/single.h'' 86)
     ''unexpected end-of-stream for single'') err = ret (single_contract_status, err)"
  unfolding MakeStatusBuilder_to_Status single_contract_status_def by (cases err) code_simp+

text \<open>
  The lambda of \<open>Single::Subscribe\<close>; \<open>this\<close> is the subscriber that owns it, whose captured
  \<open>called\<close> it sets.
\<close>

definition single_next ::
  "('v, 'u) runner \<Rightarrow> addr \<Rightarrow> 'u on_subscribe_fn \<Rightarrow> ('v event \<Rightarrow> 'u \<Rightarrow> 'u) \<Rightarrow> bool \<Rightarrow> sid
    \<Rightarrow> 'v event \<Rightarrow> ('v, 'u) world \<Rightarrow> ('v, 'u) world res" where
  "single_next run this on_sub listener called s next w =
     (if IsDone next then
        (if \<not> called then
           (let w = put this (FunctionalSubscriber on_sub (NextSingle listener True)) w
            in bnd (StatusOr_of_status single_contract_status) (\<lambda>e.
               ret (w\<lparr>user := listener e (user w)\<rparr>)))
         else ret w)
      else
        (let w = put this (FunctionalSubscriber on_sub (NextSingle listener True)) w;
             is_end = IsEnd next;
             w = w\<lparr>user := listener next (user w)\<rparr>
         in if \<not> is_end \<and> \<not> has_ended s w then Subscription_Cancel run s w else ret w))"

definition FunctionalSubscriber_OnSubscribe ::
  "('v, 'u) runner \<Rightarrow> 'u on_subscribe_fn \<Rightarrow> sid \<Rightarrow> ('v, 'u) world \<Rightarrow> ('v, 'u) world res" where
  "FunctionalSubscriber_OnSubscribe run on_subscribe s w =
     (case on_subscribe of
        SubscribeUser steps \<Rightarrow> run_usteps run s steps w
      | SubscribeRequest1 \<Rightarrow> Subscription_Request run s 1 w
      | SubscribeFlatMapCont a \<Rightarrow> run (FlatMapOnSubscribeCont a s) w)"

definition FunctionalSubscriber_OnNext ::
  "('v, 'u) runner \<Rightarrow> addr \<Rightarrow> 'u on_subscribe_fn \<Rightarrow> ('v, 'u) on_next_fn \<Rightarrow> sid \<Rightarrow> 'v event
    \<Rightarrow> ('v, 'u) world \<Rightarrow> ('v, 'u) world res" where
  "FunctionalSubscriber_OnNext run this on_subscribe on_next s event w =
     (case on_next of
        NextUser f \<Rightarrow> run_usteps run s (f event) w
      | NextFlowControl f \<Rightarrow> flow_control_next run f s event w
      | NextSingle listener called \<Rightarrow> single_next run this on_subscribe listener called s event w
      | NextFlatMapCont a \<Rightarrow> run (FlatMapOnNextCont a event) w)"

section \<open>Subscribing\<close>

text \<open>\<open>Subscriber::Make\<close>: the new subscriber is at the next free address.\<close>

definition Subscriber_Make ::
  "'u on_subscribe_fn \<Rightarrow> ('v, 'u) on_next_fn \<Rightarrow> ('v, 'u) world \<Rightarrow> ('v, 'u) world" where
  "Subscriber_Make on_subscribe on_next w = alloc (FunctionalSubscriber on_subscribe on_next) w"

definition Subscriber_MakeWithFlowControl ::
  "('v event \<Rightarrow> 'u \<Rightarrow> 'u) \<Rightarrow> ('v, 'u) world \<Rightarrow> ('v, 'u) world" where
  "Subscriber_MakeWithFlowControl on_next w = Subscriber_Make SubscribeRequest1 (NextFlowControl on_next) w"

definition Publisher_Subscribe ::
  "('v, 'u) runner \<Rightarrow> ('v, 'u) publisher \<Rightarrow> addr \<Rightarrow> ('v, 'u) world \<Rightarrow> ('v, 'u) world res" where
  "Publisher_Subscribe run p subscriber w = bnd (move_impl p) (\<lambda>b. run (DoSubscribe b subscriber) w)"

definition Publisher_Subscribe_functions ::
  "('v, 'u) runner \<Rightarrow> ('v, 'u) publisher \<Rightarrow> 'u on_subscribe_fn \<Rightarrow> ('v, 'u) on_next_fn
    \<Rightarrow> ('v, 'u) world \<Rightarrow> ('v, 'u) world res" where
  "Publisher_Subscribe_functions run p on_subscribe on_next w =
     bnd (move_impl p) (\<lambda>b. run (DoSubscribe b (next_addr w)) (Subscriber_Make on_subscribe on_next w))"

definition Publisher_Subscribe_flow_control ::
  "('v, 'u) runner \<Rightarrow> ('v, 'u) publisher \<Rightarrow> ('v event \<Rightarrow> 'u \<Rightarrow> 'u) \<Rightarrow> ('v, 'u) world \<Rightarrow> ('v, 'u) world res" where
  "Publisher_Subscribe_flow_control run p on_next w =
     bnd (move_impl p) (\<lambda>b. run (DoSubscribe b (next_addr w)) (Subscriber_MakeWithFlowControl on_next w))"

text \<open>
  \<open>BufferingSubscriber\<close>: the user's state is the buffer and the statuses that the test helper
  compares with the expected one.
\<close>

definition buffering_next :: "'v event \<Rightarrow> 'v val list \<times> Status list \<Rightarrow> 'v val list \<times> Status list" where
  "buffering_next event u =
     (case event of ValueRepr v \<Rightarrow> (fst u @ [v], snd u) | StatusRepr s \<Rightarrow> (fst u, snd u @ [s]))"

section \<open>Shared subscribers\<close>

text \<open>\<open>SharedSubscriberWrapper::Create\<close>: the wrapper, at the next free address, holds a reference.\<close>

definition SharedSubscriberWrapper_Create :: "addr \<Rightarrow> ('v, 'u) world \<Rightarrow> ('v, 'u) world" where
  "SharedSubscriberWrapper_Create a w = alloc (SharedSubscriberWrapper a) (share a w)"

definition SharedSubscriberWrapper_OnSubscribe ::
  "('v, 'u) runner \<Rightarrow> addr \<Rightarrow> sid \<Rightarrow> ('v, 'u) world \<Rightarrow> ('v, 'u) world res" where
  "SharedSubscriberWrapper_OnSubscribe run delegate s w = run (OnSubscribe delegate s) w"

definition SharedSubscriberWrapper_OnNext ::
  "('v, 'u) runner \<Rightarrow> addr \<Rightarrow> sid \<Rightarrow> 'v event \<Rightarrow> ('v, 'u) world \<Rightarrow> ('v, 'u) world res" where
  "SharedSubscriberWrapper_OnNext run delegate s event w = run (OnNext delegate s event) w"

text \<open>\<open>SharedObjectImpl::self\<close>: a new \<open>shared_ptr\<close> from the weak one.\<close>

definition self :: "addr \<Rightarrow> ('v, 'u) world \<Rightarrow> ('v, 'u) world res" where
  "self a w = rx_check (refs w a > 0) ''lifetime expired'' (ret (share a w))"

section \<open>Monotonicity\<close>

lemma call_mono_uncurry [mono_method]: "mono_option (\<lambda>r. r t)"
  by (rule call_mono)

lemma release_mono [mono_method]: "mono_option (\<lambda>r. release (\<lambda>c w. r (c, w)) a w)"
  unfolding release_def by (intro mono_method)

lemma release_opt_mono [mono_method]: "mono_option (\<lambda>r. release_opt (\<lambda>c w. r (c, w)) p w)"
  unfolding release_opt_def by (intro mono_method)

lemma Subscription_Cancel_mono [mono_method]:
  "mono_option (\<lambda>r. Subscription_Cancel (\<lambda>c w. r (c, w)) s w)"
  unfolding Subscription_Cancel_def by (intro mono_method)

lemma Subscription_Request_mono [mono_method]:
  "mono_option (\<lambda>r. Subscription_Request (\<lambda>c w. r (c, w)) s n w)"
  unfolding Subscription_Request_def by (intro mono_method)

lemma with_subscription_mono [mono_method]:
  assumes "\<And>s. mono_option (k s)"
  shows "mono_option (\<lambda>r. with_subscription p msg (\<lambda>s. k s r))"
  using assms unfolding with_subscription_def by (intro mono_method)

lemma uaction_case_mono [mono_method]:
  assumes "mono_option f" and "\<And>n. mono_option (g n)" and "mono_option h"
  shows "mono_option (\<lambda>r. case v of NoAction \<Rightarrow> f r | DoRequest n \<Rightarrow> g n r | DoCancel \<Rightarrow> h r)"
  using assms by (cases v) auto

lemma on_subscribe_case_mono [mono_method]:
  assumes "\<And>x. mono_option (f x)" and "mono_option g" and "\<And>x. mono_option (h x)"
  shows "mono_option (\<lambda>r. case v of SubscribeUser x \<Rightarrow> f x r | SubscribeRequest1 \<Rightarrow> g r
    | SubscribeFlatMapCont x \<Rightarrow> h x r)"
  using assms by (cases v) auto

lemma on_next_case_mono [mono_method]:
  assumes "\<And>x. mono_option (f x)" and "\<And>x. mono_option (g x)" and "\<And>x y. mono_option (h x y)"
    and "\<And>x. mono_option (k x)"
  shows "mono_option (\<lambda>r. case v of NextUser x \<Rightarrow> f x r | NextFlowControl x \<Rightarrow> g x r
    | NextSingle x y \<Rightarrow> h x y r | NextFlatMapCont x \<Rightarrow> k x r)"
  using assms by (cases v) auto

lemma run_usteps_mono [mono_method]: "mono_option (\<lambda>r. run_usteps (\<lambda>c w. r (c, w)) s fs w)"
proof (induction fs arbitrary: w)
  case Nil
  show ?case by (simp add: mono_method)
next
  case (Cons f fs)
  show ?case unfolding run_usteps.simps by (intro mono_method Cons.IH)
qed

lemma flow_control_next_mono [mono_method]:
  "mono_option (\<lambda>r. flow_control_next (\<lambda>c w. r (c, w)) f s e w)"
  unfolding flow_control_next_def by (intro mono_method)

lemma single_next_mono [mono_method]:
  "mono_option (\<lambda>r. single_next (\<lambda>c w. r (c, w)) a o_s l cd s e w)"
  unfolding single_next_def by (intro mono_method)

lemma FunctionalSubscriber_OnSubscribe_mono [mono_method]:
  "mono_option (\<lambda>r. FunctionalSubscriber_OnSubscribe (\<lambda>c w. r (c, w)) f s w)"
  unfolding FunctionalSubscriber_OnSubscribe_def by (intro mono_method)

lemma FunctionalSubscriber_OnNext_mono [mono_method]:
  "mono_option (\<lambda>r. FunctionalSubscriber_OnNext (\<lambda>c w. r (c, w)) a o_s f s e w)"
  unfolding FunctionalSubscriber_OnNext_def by (intro mono_method)

lemma Publisher_Subscribe_mono [mono_method]:
  "mono_option (\<lambda>r. Publisher_Subscribe (\<lambda>c w. r (c, w)) p a w)"
  unfolding Publisher_Subscribe_def by (intro mono_method)

lemma Publisher_Subscribe_functions_mono [mono_method]:
  "mono_option (\<lambda>r. Publisher_Subscribe_functions (\<lambda>c w. r (c, w)) p f g w)"
  unfolding Publisher_Subscribe_functions_def by (intro mono_method)

lemma Publisher_Subscribe_flow_control_mono [mono_method]:
  "mono_option (\<lambda>r. Publisher_Subscribe_flow_control (\<lambda>c w. r (c, w)) p f w)"
  unfolding Publisher_Subscribe_flow_control_def by (intro mono_method)

lemma SharedSubscriberWrapper_mono [mono_method]:
  "mono_option (\<lambda>r. SharedSubscriberWrapper_OnSubscribe (\<lambda>c w. r (c, w)) a s w)"
  "mono_option (\<lambda>r. SharedSubscriberWrapper_OnNext (\<lambda>c w. r (c, w)) a s e w)"
  unfolding SharedSubscriberWrapper_OnSubscribe_def SharedSubscriberWrapper_OnNext_def
  by (intro mono_method)+

end
