(* ===== verification/Generating.thy ===== *)
theory Generating
  imports Subscribers
begin

text \<open>
  \<open>GeneratingStream\<close> and \<open>GeneratingPublisher\<close>: a stream produced by a generator function and
  its state, and the publisher constructors based on it.
\<close>

section \<open>GeneratingStream\<close>

definition GeneratingStream_new ::
  "('v, 'u) runner \<Rightarrow> 'v val \<Rightarrow> ('v, 'u) generator \<Rightarrow> addr \<Rightarrow> ('v, 'u) world \<Rightarrow> ('v, 'u) world res" where
  "GeneratingStream_new run initial_state generator subscriber w =
     (let this = next_addr w;
          s = next_sid w;
          w = alloc (GeneratingStream
                \<lparr>gs_generator = generator, gs_state = initial_state, gs_subscriber = subscriber,
                 gs_requested = RequestBalance_init, gs_generating = False, gs_sid = s\<rparr>) w;
          w = new_subscription_state this w
      in run (OnSubscribe subscriber s) w)"

definition GeneratingStream_destroy ::
  "('v, 'u) runner \<Rightarrow> addr \<Rightarrow> ('v, 'u) generating_stream \<Rightarrow> ('v, 'u) world \<Rightarrow> ('v, 'u) world res" where
  "GeneratingStream_destroy run this g w =
     run (Destroy (gs_subscriber g)) (free this (clear_subscription (gs_sid g) w))"

definition GeneratingStream_Cancel ::
  "('v, 'u) runner \<Rightarrow> addr \<Rightarrow> ('v, 'u) world \<Rightarrow> ('v, 'u) world res" where
  "GeneratingStream_Cancel run this w = run (Destroy this) w"

text \<open>The loop of \<open>Generate\<close>: one call is one test of the loop condition.\<close>

definition GeneratingStream_Generate_loop ::
  "('v, 'u) runner \<Rightarrow> addr \<Rightarrow> ('v, 'u) world \<Rightarrow> ('v, 'u) world res" where
  "GeneratingStream_Generate_loop run this w =
     bnd (get_generating this w) (\<lambda>g.
     if HasRequests (gs_requested g) then
       bnd (Remove (gs_requested g) 1) (\<lambda>requested.
       let (event, state, u) = gs_generator g (gs_state g) (user w);
           w = put this (GeneratingStream (g\<lparr>gs_requested := requested, gs_state := state\<rparr>)) w\<lparr>user := u\<rparr>;
           is_end = IsEnd event;
           subscription_state_copy = gs_sid g
       in bnd (run (OnNext (gs_subscriber g) (gs_sid g) event) w) (\<lambda>w.
          if impl w subscription_state_copy = None then ret w
          else if is_end then run (Destroy this) w
          else run (GenerateLoop this) w))
     else ret (put this (GeneratingStream (g\<lparr>gs_generating := False\<rparr>)) w))"

definition GeneratingStream_Generate ::
  "('v, 'u) runner \<Rightarrow> addr \<Rightarrow> ('v, 'u) world \<Rightarrow> ('v, 'u) world res" where
  "GeneratingStream_Generate run this w =
     bnd (get_generating this w) (\<lambda>g.
     run (GenerateLoop this) (put this (GeneratingStream (g\<lparr>gs_generating := True\<rparr>)) w))"

definition GeneratingStream_Request ::
  "('v, 'u) runner \<Rightarrow> addr \<Rightarrow> size_t \<Rightarrow> ('v, 'u) world \<Rightarrow> ('v, 'u) world res" where
  "GeneratingStream_Request run this count w =
     bnd (get_generating this w) (\<lambda>g.
     let w = put this (GeneratingStream (g\<lparr>gs_requested := Add (gs_requested g) count\<rparr>)) w
     in if \<not> gs_generating g then GeneratingStream_Generate run this w else ret w)"

definition GeneratingPublisher_Subscribe ::
  "('v, 'u) runner \<Rightarrow> 'v val \<Rightarrow> ('v, 'u) generator \<Rightarrow> addr \<Rightarrow> ('v, 'u) world \<Rightarrow> ('v, 'u) world res" where
  "GeneratingPublisher_Subscribe run initial_state generator subscriber w =
     GeneratingStream_new run initial_state generator subscriber w"

section \<open>Publishers of values\<close>

text \<open>
  The lambda of \<open>CreateValuePublisher\<close>, with the vector it captures; its state is the index.
\<close>

fun value_generator :: "'v val list \<Rightarrow> ('v, 'u) generator" where
  "value_generator values (SizeVal index) u =
     (if unat index \<ge> length values then (StatusRepr Done, SizeVal index, u)
      else (ValueRepr (values ! unat index), SizeVal (index + 1), u))"
| "value_generator values state u = (StatusRepr Done, state, u)"

definition CreateValuePublisher :: "'v val list \<Rightarrow> ('v, 'u) pub" where
  "CreateValuePublisher values = GeneratingPublisher (SizeVal 0) (value_generator values)"

definition Publisher_Generator :: "'v val \<Rightarrow> ('v, 'u) generator \<Rightarrow> ('v, 'u) publisher" where
  "Publisher_Generator initial_state generator = Some (GeneratingPublisher initial_state generator)"

definition Publisher_empty :: "('v, 'u) publisher" where
  "Publisher_empty = Some (GeneratingPublisher TriggerVal (\<lambda>st u. (StatusRepr Done, st, u)))"

definition Publisher_values :: "'v val list \<Rightarrow> ('v, 'u) publisher" where
  "Publisher_values values = Some (CreateValuePublisher values)"

definition Publisher_value :: "'v val \<Rightarrow> ('v, 'u) publisher" where
  "Publisher_value v = Some (CreateValuePublisher [v])"

definition Publisher_Error :: "Status \<Rightarrow> ('v, 'u) publisher res" where
  "Publisher_Error st =
     rx_check (IsError_status st) ''status must indicate error''
       (ret (Some (GeneratingPublisher TriggerVal (\<lambda>x u. (StatusRepr st, x, u)))))"

section \<open>Monotonicity\<close>

lemma GeneratingStream_mono [mono_method]:
  "mono_option (\<lambda>r. GeneratingStream_new (\<lambda>c w. r (c, w)) st g a w)"
  "mono_option (\<lambda>r. GeneratingStream_destroy (\<lambda>c w. r (c, w)) a x w)"
  "mono_option (\<lambda>r. GeneratingStream_Cancel (\<lambda>c w. r (c, w)) a w)"
  "mono_option (\<lambda>r. GeneratingStream_Generate_loop (\<lambda>c w. r (c, w)) a w)"
  "mono_option (\<lambda>r. GeneratingStream_Generate (\<lambda>c w. r (c, w)) a w)"
  unfolding GeneratingStream_new_def GeneratingStream_destroy_def GeneratingStream_Cancel_def
    GeneratingStream_Generate_loop_def GeneratingStream_Generate_def
  by (intro mono_method)+

lemma GeneratingStream_Request_mono [mono_method]:
  "mono_option (\<lambda>r. GeneratingStream_Request (\<lambda>c w. r (c, w)) a n w)"
  "mono_option (\<lambda>r. GeneratingPublisher_Subscribe (\<lambda>c w. r (c, w)) st g a w)"
  unfolding GeneratingStream_Request_def GeneratingPublisher_Subscribe_def by (intro mono_method)+

end
