(* ===== verification/Chaining.thy ===== *)
theory Chaining
  imports Subscribers
begin

text \<open>
  \<open>ChainingStream\<close> and \<open>ChainingPublisher\<close>, and the operators \<open>Map\<close>, \<open>StaticCast\<close> and
  \<open>Buffer\<close> based on them. A chaining stream is the subscriber of its upstream, which owns it, and
  a subscription implementation for its downstream.
\<close>

section \<open>The closures\<close>

text \<open>\<open>size * tokens\<close> wraps around like every \<open>size_t\<close> product.\<close>

fun request_mapping :: "('v, 'u) chain_fn \<Rightarrow> size_t \<Rightarrow> size_t" where
  "request_mapping (MapFn _) tokens = tokens"
| "request_mapping (CastFn _) tokens = tokens"
| "request_mapping (BufferFn sz _) tokens = sz * tokens"

definition set_buffer :: "addr \<Rightarrow> size_t \<Rightarrow> 'v val list \<Rightarrow> ('v, 'u) world \<Rightarrow> ('v, 'u) world res" where
  "set_buffer this sz buffer w =
     bnd (get_chaining this w) (\<lambda>c. ret (put this (ChainingStream (c\<lparr>cs_func := BufferFn sz buffer\<rparr>)) w))"

text \<open>The lambda of \<open>Map\<close>.\<close>

definition map_next ::
  "('v, 'u) runner \<Rightarrow> ('v val \<Rightarrow> 'u \<Rightarrow> 'v event \<times> 'u) \<Rightarrow> sid \<Rightarrow> addr \<Rightarrow> 'v event
    \<Rightarrow> ('v, 'u) world \<Rightarrow> ('v, 'u) world res" where
  "map_next run func s subscriber event w =
     (if \<not> IsEnd event then
        bnd (ValueOrDie event) (\<lambda>v.
        let (r, u) = func v (user w) in run (OnNext subscriber s r) (w\<lparr>user := u\<rparr>))
      else
        bnd (StatusOr_of_status (status event)) (\<lambda>e. run (OnNext subscriber s e) w))"

text \<open>The lambda of \<open>StaticCast\<close>.\<close>

definition cast_next ::
  "('v, 'u) runner \<Rightarrow> ('v val \<Rightarrow> 'v val) \<Rightarrow> sid \<Rightarrow> addr \<Rightarrow> 'v event
    \<Rightarrow> ('v, 'u) world \<Rightarrow> ('v, 'u) world res" where
  "cast_next run cast s subscriber event w =
     (if \<not> IsEnd event then
        bnd (ValueOrDie event) (\<lambda>v. run (OnNext subscriber s (ValueRepr (cast v))) w)
      else
        bnd (StatusOr_of_status (status event)) (\<lambda>e. run (OnNext subscriber s e) w))"

text \<open>
  The lambda of \<open>Buffer\<close>. Moving the vector into the event leaves it empty; \<open>clear\<close> after the
  delivery accesses the closure of \<open>this\<close> again.
\<close>

definition buffer_next ::
  "('v, 'u) runner \<Rightarrow> addr \<Rightarrow> size_t \<Rightarrow> 'v val list \<Rightarrow> sid \<Rightarrow> addr \<Rightarrow> 'v event
    \<Rightarrow> ('v, 'u) world \<Rightarrow> ('v, 'u) world res" where
  "buffer_next run this sz buffer s subscriber event w =
     (if \<not> IsEnd event then
        bnd (ValueOrDie event) (\<lambda>v.
        let buffer = buffer @ [v]
        in bnd (set_buffer this sz buffer w) (\<lambda>w.
           if of_nat (length buffer) = sz then
             bnd (set_buffer this sz [] w) (\<lambda>w.
             bnd (run (OnNext subscriber s (ValueRepr (Vec buffer))) w) (\<lambda>w.
             set_buffer this sz [] w))
           else ret w))
      else
        bnd (if code (status event) = OUT_OF_RANGE \<and> length buffer > 0 then
               bnd (set_buffer this sz [] w) (\<lambda>w.
               run (OnNext subscriber s (ValueRepr (Vec buffer))) w)
             else ret w) (\<lambda>w.
        bnd (StatusOr_of_status (status event)) (\<lambda>e. run (OnNext subscriber s e) w)))"

definition chain_next ::
  "('v, 'u) runner \<Rightarrow> addr \<Rightarrow> ('v, 'u) chain_fn \<Rightarrow> sid \<Rightarrow> addr \<Rightarrow> 'v event
    \<Rightarrow> ('v, 'u) world \<Rightarrow> ('v, 'u) world res" where
  "chain_next run this func s subscriber event w =
     (case func of
        MapFn f \<Rightarrow> map_next run f s subscriber event w
      | CastFn f \<Rightarrow> cast_next run f s subscriber event w
      | BufferFn sz buffer \<Rightarrow> buffer_next run this sz buffer s subscriber event w)"

section \<open>ChainingStream\<close>

definition ChainingStream_destroy ::
  "('v, 'u) runner \<Rightarrow> addr \<Rightarrow> ('v, 'u) chaining_stream \<Rightarrow> ('v, 'u) world \<Rightarrow> ('v, 'u) world res" where
  "ChainingStream_destroy run this c w =
     run (Destroy (cs_subscriber c)) (free this (clear_subscription (cs_sid c) w))"

definition ChainingStream_Request ::
  "('v, 'u) runner \<Rightarrow> addr \<Rightarrow> size_t \<Rightarrow> ('v, 'u) world \<Rightarrow> ('v, 'u) world res" where
  "ChainingStream_Request run this tokens w =
     bnd (get_chaining this w) (\<lambda>c.
     with_subscription (cs_base_subscription c) never_subscribed_msg (\<lambda>base.
     Subscription_Request run base (request_mapping (cs_func c) tokens) w))"

definition ChainingStream_Cancel ::
  "('v, 'u) runner \<Rightarrow> addr \<Rightarrow> ('v, 'u) world \<Rightarrow> ('v, 'u) world res" where
  "ChainingStream_Cancel run this w =
     bnd (get_chaining this w) (\<lambda>c.
     with_subscription (cs_base_subscription c) never_subscribed_msg (\<lambda>base.
     if \<not> has_ended base w then Subscription_Cancel run base w else ret w))"

definition ChainingStream_OnSubscribe ::
  "('v, 'u) runner \<Rightarrow> addr \<Rightarrow> sid \<Rightarrow> ('v, 'u) world \<Rightarrow> ('v, 'u) world res" where
  "ChainingStream_OnSubscribe run this subscription w =
     bnd (get_chaining this w) (\<lambda>c.
     run (OnSubscribe (cs_subscriber c) (cs_sid c))
       (put this (ChainingStream (c\<lparr>cs_base_subscription := Some subscription\<rparr>)) w))"

definition ChainingStream_OnNext ::
  "('v, 'u) runner \<Rightarrow> addr \<Rightarrow> 'v event \<Rightarrow> ('v, 'u) world \<Rightarrow> ('v, 'u) world res" where
  "ChainingStream_OnNext run this event w =
     bnd (get_chaining this w) (\<lambda>c. chain_next run this (cs_func c) (cs_sid c) (cs_subscriber c) event w)"

definition ChainingPublisher_Subscribe ::
  "('v, 'u) runner \<Rightarrow> ('v, 'u) pub \<Rightarrow> ('v, 'u) chain_fn \<Rightarrow> addr \<Rightarrow> ('v, 'u) world \<Rightarrow> ('v, 'u) world res" where
  "ChainingPublisher_Subscribe run base func subscriber w =
     (let stream = next_addr w;
          w = alloc (ChainingStream
                \<lparr>cs_func = func, cs_subscriber = subscriber, cs_sid = next_sid w,
                 cs_base_subscription = None\<rparr>) w;
          w = new_subscription_state stream w
      in run (DoSubscribe base stream) w)"

section \<open>The operators\<close>

definition Publisher_Map ::
  "('v val \<Rightarrow> 'u \<Rightarrow> 'v event \<times> 'u) \<Rightarrow> ('v, 'u) publisher \<Rightarrow> ('v, 'u) publisher res" where
  "Publisher_Map func p = bnd (move_impl p) (\<lambda>b. ret (Some (ChainingPublisher b (MapFn func))))"

definition Publisher_StaticCast ::
  "('v val \<Rightarrow> 'v val) \<Rightarrow> ('v, 'u) publisher \<Rightarrow> ('v, 'u) publisher res" where
  "Publisher_StaticCast cast p = bnd (move_impl p) (\<lambda>b. ret (Some (ChainingPublisher b (CastFn cast))))"

definition Publisher_Buffer :: "size_t \<Rightarrow> ('v, 'u) publisher \<Rightarrow> ('v, 'u) publisher res" where
  "Publisher_Buffer sz p = bnd (move_impl p) (\<lambda>b. ret (Some (ChainingPublisher b (BufferFn sz []))))"

section \<open>Monotonicity\<close>

lemma chain_fn_case_mono [mono_method]:
  assumes "\<And>x. mono_option (f x)" and "\<And>x. mono_option (g x)" and "\<And>x y. mono_option (h x y)"
  shows "mono_option (\<lambda>r. case v of MapFn x \<Rightarrow> f x r | CastFn x \<Rightarrow> g x r | BufferFn x y \<Rightarrow> h x y r)"
  using assms by (cases v) auto

lemma chain_next_mono [mono_method]:
  "mono_option (\<lambda>r. map_next (\<lambda>c w. r (c, w)) f s d e w)"
  "mono_option (\<lambda>r. cast_next (\<lambda>c w. r (c, w)) k s d e w)"
  "mono_option (\<lambda>r. buffer_next (\<lambda>c w. r (c, w)) a n b s d e w)"
  unfolding map_next_def cast_next_def buffer_next_def by (intro mono_method)+

lemma chain_next_mono' [mono_method]: "mono_option (\<lambda>r. chain_next (\<lambda>c w. r (c, w)) a f s d e w)"
  unfolding chain_next_def by (intro mono_method)

lemma ChainingStream_mono [mono_method]:
  "mono_option (\<lambda>r. ChainingStream_destroy (\<lambda>c w. r (c, w)) a x w)"
  "mono_option (\<lambda>r. ChainingStream_Request (\<lambda>c w. r (c, w)) a n w)"
  "mono_option (\<lambda>r. ChainingStream_Cancel (\<lambda>c w. r (c, w)) a w)"
  "mono_option (\<lambda>r. ChainingStream_OnSubscribe (\<lambda>c w. r (c, w)) a s w)"
  "mono_option (\<lambda>r. ChainingStream_OnNext (\<lambda>c w. r (c, w)) a e w)"
  "mono_option (\<lambda>r. ChainingPublisher_Subscribe (\<lambda>c w. r (c, w)) p f a w)"
  unfolding ChainingStream_destroy_def ChainingStream_Request_def ChainingStream_Cancel_def
    ChainingStream_OnSubscribe_def ChainingStream_OnNext_def ChainingPublisher_Subscribe_def
  by (intro mono_method)+

end
