(* ===== verification/Prefetching.thy ===== *)
theory Prefetching
  imports Subscribers
begin

text \<open>
  \<open>PrefetchingStream\<close> and the operator \<open>Prefetch\<close>: a bounded buffer between upstream and
  downstream. The stream is a shared object: the upstream holds it through a
  \<open>SharedSubscriberWrapper\<close>, and the stream holds itself through \<open>self_lock_\<close> until the last
  buffered event has been delivered.

  \<open>refill_mark_\<close> is a \<open>double\<close>; the model multiplies exactly, which is the code's result
  whenever the buffer size and the product are representable, in particular for marks that are
  powers of two (the default \<open>0.5\<close>, and \<open>1.0\<close>) and sizes below \<open>2 ^ 53\<close>.
\<close>

section \<open>PrefetchingStream\<close>

definition refill_threshold :: "size_t \<Rightarrow> rat \<Rightarrow> size_t" where
  "refill_threshold buffer_size refill_mark = of_nat (nat \<lfloor>of_nat (unat buffer_size) * refill_mark\<rfloor>)"

definition overflow_status :: Status where
  "overflow_status =
     set_message (''(at reactive_impl.inc:535) fetch buffer overflow (upstream flow control violation)'')
       (set_code RESOURCE_EXHAUSTED Status_default)"

text \<open>The status is the one the code builds with \<open>RX_STATUS\<close>.\<close>

lemma overflow_status_builder:
  "StatusBuilder_to_Status (StatusBuilder_stream (MakeStatusBuilder RESOURCE_EXHAUSTED ''rxcppuniq/reactive/reactive_impl.inc'' 535)
     ''fetch buffer overflow (upstream flow control violation)'') err = ret (overflow_status, err)"
  unfolding MakeStatusBuilder_to_Status overflow_status_def by (cases err) code_simp+

definition PrefetchingStream_destroy ::
  "('v, 'u) runner \<Rightarrow> addr \<Rightarrow> 'v prefetching_stream \<Rightarrow> ('v, 'u) world \<Rightarrow> ('v, 'u) world res" where
  "PrefetchingStream_destroy run this p w =
     bnd (run (Destroy (ps_subscriber p)) (free this (clear_subscription (ps_sid p) w))) (\<lambda>w.
     release_opt run (ps_self_lock p) w)"

definition PrefetchingStream_MaybeFill ::
  "('v, 'u) runner \<Rightarrow> addr \<Rightarrow> ('v, 'u) world \<Rightarrow> ('v, 'u) world res" where
  "PrefetchingStream_MaybeFill run this w =
     bnd (get_prefetching this w) (\<lambda>p.
     with_subscription (ps_upstream_subscription p) never_subscribed_msg (\<lambda>up.
     if has_ended up w then ret w
     else if of_nat (length (ps_buffer p)) > refill_threshold (ps_buffer_size p) (ps_refill_mark p) then ret w
     else
       (let to_fill = ps_buffer_size p - of_nat (length (ps_buffer p))
        in if balance (ps_upstream_request_balance p) \<ge> to_fill then ret w
           else
             (let request = to_fill - balance (ps_upstream_request_balance p);
                  w = put this (PrefetchingStream
                        (p\<lparr>ps_upstream_request_balance := Add (ps_upstream_request_balance p) request\<rparr>)) w
              in Subscription_Request run up request w))))"

text \<open>The loop of \<open>MaybeDeliver\<close>: one call is one test of the loop condition.\<close>

definition PrefetchingStream_deliver_loop ::
  "('v, 'u) runner \<Rightarrow> addr \<Rightarrow> ('v, 'u) world \<Rightarrow> ('v, 'u) world res" where
  "PrefetchingStream_deliver_loop run this w =
     bnd (get_prefetching this w) (\<lambda>p.
     case (HasRequests (ps_request_balance p), ps_buffer p) of
       (True, event # rest) \<Rightarrow>
         (let is_end = IsEnd event
          in bnd (Remove (ps_request_balance p) 1) (\<lambda>b.
             let w = put this (PrefetchingStream (p\<lparr>ps_request_balance := b, ps_buffer := rest\<rparr>)) w
             in bnd (run (OnNext (ps_subscriber p) (ps_sid p) event) w) (\<lambda>w.
                if is_end then
                  bnd (get_prefetching this w) (\<lambda>p.
                  release_opt run (ps_self_lock p)
                    (put this (PrefetchingStream (p\<lparr>ps_delivering := False, ps_self_lock := None\<rparr>)) w))
                else
                  bnd (PrefetchingStream_MaybeFill run this w) (\<lambda>w.
                  bnd (get_prefetching this w) (\<lambda>p.
                  if ps_buffer p = [] then
                    ret (put this (PrefetchingStream (p\<lparr>ps_delivering := False\<rparr>)) w)
                  else run (PrefetchDeliverLoop this) w)))))
     | _ \<Rightarrow> ret (put this (PrefetchingStream (p\<lparr>ps_delivering := False\<rparr>)) w))"

definition PrefetchingStream_MaybeDeliver ::
  "('v, 'u) runner \<Rightarrow> addr \<Rightarrow> ('v, 'u) world \<Rightarrow> ('v, 'u) world res" where
  "PrefetchingStream_MaybeDeliver run this w =
     bnd (get_prefetching this w) (\<lambda>p.
     if ps_delivering p then ret w
     else run (PrefetchDeliverLoop this) (put this (PrefetchingStream (p\<lparr>ps_delivering := True\<rparr>)) w))"

definition PrefetchingStream_OnSubscribe ::
  "('v, 'u) runner \<Rightarrow> addr \<Rightarrow> sid \<Rightarrow> ('v, 'u) world \<Rightarrow> ('v, 'u) world res" where
  "PrefetchingStream_OnSubscribe run this subscription w =
     bnd (get_prefetching this w) (\<lambda>p.
     rx_check (ps_upstream_subscription p = None) ''OnSubscribe already called''
     (bnd (run (OnSubscribe (ps_subscriber p) (ps_sid p))
            (put this (PrefetchingStream (p\<lparr>ps_upstream_subscription := Some subscription\<rparr>)) w)) (\<lambda>w.
      PrefetchingStream_MaybeFill run this w)))"

definition PrefetchingStream_OnNext ::
  "('v, 'u) runner \<Rightarrow> addr \<Rightarrow> 'v event \<Rightarrow> ('v, 'u) world \<Rightarrow> ('v, 'u) world res" where
  "PrefetchingStream_OnNext run this event w =
     bnd (get_prefetching this w) (\<lambda>p.
     bnd (if of_nat (length (ps_buffer p)) \<ge> ps_buffer_size p then
            bnd (StatusOr_of_status overflow_status) (\<lambda>e.
            ret (put this (PrefetchingStream (p\<lparr>ps_buffer := butlast (ps_buffer p) @ [e]\<rparr>)) w))
          else
            bnd (Remove (ps_upstream_request_balance p) 1) (\<lambda>b.
            ret (put this (PrefetchingStream
                  (p\<lparr>ps_upstream_request_balance := b, ps_buffer := ps_buffer p @ [event]\<rparr>)) w))) (\<lambda>w.
     PrefetchingStream_MaybeDeliver run this w))"

definition PrefetchingStream_Cancel ::
  "('v, 'u) runner \<Rightarrow> addr \<Rightarrow> ('v, 'u) world \<Rightarrow> ('v, 'u) world res" where
  "PrefetchingStream_Cancel run this w =
     bnd (get_prefetching this w) (\<lambda>p.
     with_subscription (ps_upstream_subscription p) never_subscribed_msg (\<lambda>up.
     Subscription_Cancel run up w))"

definition PrefetchingStream_Request ::
  "('v, 'u) runner \<Rightarrow> addr \<Rightarrow> size_t \<Rightarrow> ('v, 'u) world \<Rightarrow> ('v, 'u) world res" where
  "PrefetchingStream_Request run this count w =
     bnd (get_prefetching this w) (\<lambda>p.
     PrefetchingStream_MaybeDeliver run this
       (put this (PrefetchingStream (p\<lparr>ps_request_balance := Add (ps_request_balance p) count\<rparr>)) w))"

definition PrefetchingStream_LockSelf :: "addr \<Rightarrow> ('v, 'u) world \<Rightarrow> ('v, 'u) world res" where
  "PrefetchingStream_LockSelf this w =
     bnd (self this w) (\<lambda>w.
     bnd (get_prefetching this w) (\<lambda>p.
     ret (put this (PrefetchingStream (p\<lparr>ps_self_lock := Some this\<rparr>)) w)))"

text \<open>
  \<open>Subscribe\<close> holds its own reference to the stream in the local \<open>stream\<close>, so the stream is
  destroyed only after \<open>DoSubscribe\<close> has returned.
\<close>

definition PrefetchingPublisher_Subscribe ::
  "('v, 'u) runner \<Rightarrow> ('v, 'u) pub \<Rightarrow> size_t \<Rightarrow> rat \<Rightarrow> addr \<Rightarrow> ('v, 'u) world \<Rightarrow> ('v, 'u) world res" where
  "PrefetchingPublisher_Subscribe run upstream buffer_size refill_mark subscriber w =
     rx_check (buffer_size > 0) ''count must be greater 0''
     (let stream = next_addr w;
          w = alloc (PrefetchingStream
                \<lparr>ps_buffer_size = buffer_size, ps_refill_mark = refill_mark, ps_sid = next_sid w,
                 ps_self_lock = None, ps_subscriber = subscriber, ps_upstream_subscription = None,
                 ps_buffer = [], ps_request_balance = RequestBalance_init,
                 ps_upstream_request_balance = RequestBalance_init, ps_delivering = False\<rparr>) w;
          w = share stream (new_subscription_state stream w)
      in bnd (PrefetchingStream_LockSelf stream w) (\<lambda>w.
         let wrapper = next_addr w
         in bnd (run (DoSubscribe upstream wrapper) (SharedSubscriberWrapper_Create stream w)) (\<lambda>w.
         release run stream w)))"

definition Publisher_Prefetch ::
  "size_t \<Rightarrow> rat \<Rightarrow> ('v, 'u) publisher \<Rightarrow> ('v, 'u) publisher res" where
  "Publisher_Prefetch buffer_size refill_mark p =
     bnd (move_impl p) (\<lambda>b. ret (Some (PrefetchingPublisher b buffer_size refill_mark)))"

section \<open>Monotonicity\<close>

lemma list_case_mono [mono_method]:
  assumes "mono_option f" and "\<And>x xs. mono_option (g x xs)"
  shows "mono_option (\<lambda>r. case v of [] \<Rightarrow> f r | x # xs \<Rightarrow> g x xs r)"
  using assms by (cases v) auto

lemma bool_case_mono [mono_method]:
  assumes "mono_option f" and "mono_option g"
  shows "mono_option (\<lambda>r. case v of True \<Rightarrow> f r | False \<Rightarrow> g r)"
  using assms by (cases v) auto

lemma PrefetchingStream_MaybeFill_mono [mono_method]:
  "mono_option (\<lambda>r. PrefetchingStream_MaybeFill (\<lambda>c w. r (c, w)) a w)"
  unfolding PrefetchingStream_MaybeFill_def by (intro mono_method)

lemma PrefetchingStream_MaybeDeliver_mono [mono_method]:
  "mono_option (\<lambda>r. PrefetchingStream_MaybeDeliver (\<lambda>c w. r (c, w)) a w)"
  unfolding PrefetchingStream_MaybeDeliver_def by (intro mono_method)

lemma PrefetchingStream_mono [mono_method]:
  "mono_option (\<lambda>r. PrefetchingStream_destroy (\<lambda>c w. r (c, w)) a x w)"
  "mono_option (\<lambda>r. PrefetchingStream_deliver_loop (\<lambda>c w. r (c, w)) a w)"
  "mono_option (\<lambda>r. PrefetchingStream_OnSubscribe (\<lambda>c w. r (c, w)) a s w)"
  "mono_option (\<lambda>r. PrefetchingStream_OnNext (\<lambda>c w. r (c, w)) a e w)"
  "mono_option (\<lambda>r. PrefetchingStream_Cancel (\<lambda>c w. r (c, w)) a w)"
  "mono_option (\<lambda>r. PrefetchingStream_Request (\<lambda>c w. r (c, w)) a n w)"
  "mono_option (\<lambda>r. PrefetchingPublisher_Subscribe (\<lambda>c w. r (c, w)) p n m a w)"
  unfolding PrefetchingStream_destroy_def PrefetchingStream_deliver_loop_def
    PrefetchingStream_OnSubscribe_def PrefetchingStream_OnNext_def PrefetchingStream_Cancel_def
    PrefetchingStream_Request_def PrefetchingPublisher_Subscribe_def
  by (intro mono_method)+

end
