(* ===== verification/Concatenating.thy ===== *)
theory Concatenating
  imports Subscribers
begin

text \<open>
  \<open>ConcatStream\<close> and the operator \<open>Concat\<close>: the elements of a first publisher, then those of a
  second one. The stream is a shared object held by its upstream's subscriber wrapper and by
  itself; requests the first upstream has not served are rolled over to the second.
\<close>

section \<open>ConcatStream\<close>

definition is_running_first :: "('v, 'u) concat_stream \<Rightarrow> bool" where
  "is_running_first c \<longleftrightarrow> co_continue_with c \<noteq> None"

definition ConcatStream_destroy ::
  "('v, 'u) runner \<Rightarrow> addr \<Rightarrow> ('v, 'u) concat_stream \<Rightarrow> ('v, 'u) world \<Rightarrow> ('v, 'u) world res" where
  "ConcatStream_destroy run this c w =
     bnd (release_opt run (co_self_lock c) (free this (clear_subscription (co_sid c) w))) (\<lambda>w.
     run (Destroy (co_subscriber c)) w)"

text \<open>
  \<open>self_lock_ = self()\<close> shares the object before it drops the old lock. The temporary of the
  second \<open>self()\<close> lives until \<open>DoSubscribe\<close> has returned.
\<close>

definition ConcatStream_SubscribeNext ::
  "('v, 'u) runner \<Rightarrow> addr \<Rightarrow> ('v, 'u) pub \<Rightarrow> ('v, 'u) world \<Rightarrow> ('v, 'u) world res" where
  "ConcatStream_SubscribeNext run this upstream w =
     bnd (self this w) (\<lambda>w.
     bnd (get_concat this w) (\<lambda>c.
     bnd (release_opt run (co_self_lock c) (put this (ConcatStream (c\<lparr>co_self_lock := Some this\<rparr>)) w)) (\<lambda>w.
     bnd (self this w) (\<lambda>w.
     let wrapper = next_addr w
     in bnd (run (DoSubscribe upstream wrapper) (SharedSubscriberWrapper_Create this w)) (\<lambda>w.
        release run this w)))))"

definition ConcatStream_Cancel ::
  "('v, 'u) runner \<Rightarrow> addr \<Rightarrow> ('v, 'u) world \<Rightarrow> ('v, 'u) world res" where
  "ConcatStream_Cancel run this w =
     bnd (get_concat this w) (\<lambda>c.
     with_subscription (co_upstream_subscription c) never_subscribed_msg (\<lambda>up.
     if \<not> has_ended up w then Subscription_Cancel run up w else ret w))"

definition ConcatStream_Request ::
  "('v, 'u) runner \<Rightarrow> addr \<Rightarrow> size_t \<Rightarrow> ('v, 'u) world \<Rightarrow> ('v, 'u) world res" where
  "ConcatStream_Request run this count w =
     bnd (get_concat this w) (\<lambda>c.
     with_subscription (co_upstream_subscription c) never_subscribed_msg (\<lambda>up.
     let w = put this (ConcatStream (c\<lparr>co_request_balance := Add (co_request_balance c) count\<rparr>)) w
     in if \<not> has_ended up w then Subscription_Request run up count w else ret w))"

definition ConcatStream_OnSubscribe ::
  "('v, 'u) runner \<Rightarrow> addr \<Rightarrow> sid \<Rightarrow> ('v, 'u) world \<Rightarrow> ('v, 'u) world res" where
  "ConcatStream_OnSubscribe run this subscription w =
     bnd (get_concat this w) (\<lambda>c.
     rx_check (co_upstream_subscription c = None \<or> \<not> is_running_first c) ''already subscribed''
     (let w = put this (ConcatStream (c\<lparr>co_upstream_subscription := Some subscription\<rparr>)) w
      in if is_running_first c then run (OnSubscribe (co_subscriber c) (co_sid c)) w
         else if balance (co_request_balance c) > 0 then
           Subscription_Request run subscription (balance (co_request_balance c)) w
         else ret w))"

definition ConcatStream_OnNext ::
  "('v, 'u) runner \<Rightarrow> addr \<Rightarrow> 'v event \<Rightarrow> ('v, 'u) world \<Rightarrow> ('v, 'u) world res" where
  "ConcatStream_OnNext run this event w =
     bnd (get_concat this w) (\<lambda>c.
     if \<not> IsEnd event then
       bnd (Remove (co_request_balance c) 1) (\<lambda>b.
       run (OnNext (co_subscriber c) (co_sid c) event)
         (put this (ConcatStream (c\<lparr>co_request_balance := b\<rparr>)) w))
     else if IsError event \<or> \<not> is_running_first c then
       bnd (run (OnNext (co_subscriber c) (co_sid c) event) w) (\<lambda>w.
       bnd (get_concat this w) (\<lambda>c.
       release_opt run (co_self_lock c) (put this (ConcatStream (c\<lparr>co_self_lock := None\<rparr>)) w)))
     else
       (case co_continue_with c of
          None \<Rightarrow> fail (BadPointer this)
        | Some next \<Rightarrow>
            ConcatStream_SubscribeNext run this next
              (put this (ConcatStream (c\<lparr>co_upstream_subscription := None, co_continue_with := None\<rparr>)) w)))"

definition ConcatPublisher_Subscribe ::
  "('v, 'u) runner \<Rightarrow> ('v, 'u) pub \<Rightarrow> ('v, 'u) pub \<Rightarrow> addr \<Rightarrow> ('v, 'u) world \<Rightarrow> ('v, 'u) world res" where
  "ConcatPublisher_Subscribe run first second subscriber w =
     (let stream = next_addr w;
          w = alloc (ConcatStream
                \<lparr>co_sid = next_sid w, co_subscriber = subscriber, co_continue_with = Some second,
                 co_upstream_subscription = None, co_request_balance = RequestBalance_init,
                 co_self_lock = None\<rparr>) w;
          w = share stream (new_subscription_state stream w)
      in bnd (ConcatStream_SubscribeNext run stream first w) (\<lambda>w. release run stream w))"

definition Publisher_Concat ::
  "('v, 'u) publisher \<Rightarrow> ('v, 'u) publisher \<Rightarrow> ('v, 'u) publisher res" where
  "Publisher_Concat p q =
     bnd (move_impl p) (\<lambda>a. bnd (move_impl q) (\<lambda>b. ret (Some (ConcatPublisher a b))))"

section \<open>Monotonicity\<close>

lemma ConcatStream_SubscribeNext_mono [mono_method]:
  "mono_option (\<lambda>r. ConcatStream_SubscribeNext (\<lambda>c w. r (c, w)) a p w)"
  unfolding ConcatStream_SubscribeNext_def by (intro mono_method)

lemma ConcatStream_mono [mono_method]:
  "mono_option (\<lambda>r. ConcatStream_destroy (\<lambda>c w. r (c, w)) a x w)"
  "mono_option (\<lambda>r. ConcatStream_Cancel (\<lambda>c w. r (c, w)) a w)"
  "mono_option (\<lambda>r. ConcatStream_Request (\<lambda>c w. r (c, w)) a n w)"
  "mono_option (\<lambda>r. ConcatStream_OnSubscribe (\<lambda>c w. r (c, w)) a s w)"
  "mono_option (\<lambda>r. ConcatStream_OnNext (\<lambda>c w. r (c, w)) a e w)"
  "mono_option (\<lambda>r. ConcatPublisher_Subscribe (\<lambda>c w. r (c, w)) p q a w)"
  unfolding ConcatStream_destroy_def ConcatStream_Cancel_def ConcatStream_Request_def
    ConcatStream_OnSubscribe_def ConcatStream_OnNext_def ConcatPublisher_Subscribe_def
  by (intro mono_method)+

end
