(* ===== verification/Merging.thy ===== *)
theory Merging
  imports Subscribers
begin

text \<open>
  \<open>MergeUpstreamSubscriber\<close>, \<open>MergeStream\<close> and the operators \<open>Merge\<close> and \<open>MergeUniform\<close>. Each
  upstream has its own subscriber, which looks one event ahead; the stream polls them round robin.
  The stream is kept alive by its self lock and by the closure of each of its upstream
  subscribers, an upstream subscriber by the stream's vector and by the wrapper its upstream owns.
\<close>

section \<open>MergeStream: delivery\<close>

text \<open>
  \<open>available_balance_.Add(diff)\<close> converts the \<open>int\<close> to \<open>size_t\<close>, so \<open>-1\<close> becomes the largest
  \<open>size_t\<close>.
\<close>

definition MergeStream_MaybeDeliver ::
  "('v, 'u) runner \<Rightarrow> addr \<Rightarrow> ('v, 'u) world \<Rightarrow> ('v, 'u) world res" where
  "MergeStream_MaybeDeliver run this w =
     bnd (get_merge this w) (\<lambda>m.
     if ms_delivering m then ret w
     else run (MergeDeliverLoop this) (put this (MergeStream (m\<lparr>ms_delivering := True\<rparr>)) w))"

definition MergeStream_UpstreamSubscriberStateChanged ::
  "('v, 'u) runner \<Rightarrow> addr \<Rightarrow> int \<Rightarrow> ('v, 'u) world \<Rightarrow> ('v, 'u) world res" where
  "MergeStream_UpstreamSubscriberStateChanged run this diff w =
     bnd (get_merge this w) (\<lambda>m.
     let w = put this (MergeStream
               (m\<lparr>ms_available_balance := Add (ms_available_balance m) (of_int diff)\<rparr>)) w
     in if diff > 0 then MergeStream_MaybeDeliver run this w else ret w)"

section \<open>MergeUpstreamSubscriber\<close>

definition MergeUpstreamSubscriber_OnSubscribe ::
  "('v, 'u) runner \<Rightarrow> addr \<Rightarrow> sid \<Rightarrow> ('v, 'u) world \<Rightarrow> ('v, 'u) world res" where
  "MergeUpstreamSubscriber_OnSubscribe run this subscription w =
     bnd (get_merge_upstream this w) (\<lambda>m.
     rx_check (mu_upstream_subscription m = None) ''already subscribed''
     (Subscription_Request run subscription 1
       (put this (MergeUpstreamSubscriber (m\<lparr>mu_upstream_subscription := Some subscription\<rparr>)) w)))"

definition MergeUpstreamSubscriber_OnNext ::
  "('v, 'u) runner \<Rightarrow> addr \<Rightarrow> 'v event \<Rightarrow> ('v, 'u) world \<Rightarrow> ('v, 'u) world res" where
  "MergeUpstreamSubscriber_OnNext run this event w =
     bnd (get_merge_upstream this w) (\<lambda>m.
     rx_check (mu_next m = None) ''next element not consumed''
     (bnd (if IsEnd event then StatusOr_of_status (status event)
           else bnd (ValueOrDie event) (\<lambda>v. ret (ValueRepr (Variant (mu_index m) v)))) (\<lambda>next.
      MergeStream_UpstreamSubscriberStateChanged run (mu_merge m) 1
        (put this (MergeUpstreamSubscriber (m\<lparr>mu_next := Some next\<rparr>)) w))))"

definition MergeUpstreamSubscriber_HasNext :: "addr \<Rightarrow> ('v, 'u) world \<Rightarrow> bool res" where
  "MergeUpstreamSubscriber_HasNext this w =
     bnd (get_merge_upstream this w) (\<lambda>m. ret (mu_next m \<noteq> None))"

definition MergeUpstreamSubscriber_ConsumeNext ::
  "('v, 'u) runner \<Rightarrow> addr \<Rightarrow> ('v, 'u) world \<Rightarrow> ('v event \<times> ('v, 'u) world) res" where
  "MergeUpstreamSubscriber_ConsumeNext run this w =
     bnd (get_merge_upstream this w) (\<lambda>m.
     case mu_next m of
       None \<Rightarrow> fail (CheckFailed ''no next element to consume'')
     | Some result \<Rightarrow>
         bnd (MergeStream_UpstreamSubscriberStateChanged run (mu_merge m) (- 1)
               (put this (MergeUpstreamSubscriber (m\<lparr>mu_next := None\<rparr>)) w)) (\<lambda>w.
         bnd (if \<not> IsEnd result then
                bnd (get_merge_upstream this w) (\<lambda>m.
                with_subscription (mu_upstream_subscription m) never_subscribed_msg (\<lambda>up.
                Subscription_Request run up 1 w))
              else ret w) (\<lambda>w.
         ret (result, w))))"

definition MergeUpstreamSubscriber_Cancel ::
  "('v, 'u) runner \<Rightarrow> addr \<Rightarrow> ('v, 'u) world \<Rightarrow> ('v, 'u) world res" where
  "MergeUpstreamSubscriber_Cancel run this w =
     bnd (get_merge_upstream this w) (\<lambda>m.
     with_subscription (mu_upstream_subscription m) ''OnSubscribe never called'' (\<lambda>up.
     Subscription_Cancel run up w))"

definition MergeUpstreamSubscriber_destroy ::
  "('v, 'u) runner \<Rightarrow> addr \<Rightarrow> 'v merge_upstream_subscriber \<Rightarrow> ('v, 'u) world \<Rightarrow> ('v, 'u) world res" where
  "MergeUpstreamSubscriber_destroy run this m w = release run (mu_merge m) (free this w)"

text \<open>\<open>DoSubscribe\<close>: the result, \<open>self()\<close>, is one more reference, which the caller owns.\<close>

definition MergeUpstreamSubscriber_DoSubscribe ::
  "('v, 'u) runner \<Rightarrow> addr \<Rightarrow> ('v, 'u) pub \<Rightarrow> ('v, 'u) world \<Rightarrow> ('v, 'u) world res" where
  "MergeUpstreamSubscriber_DoSubscribe run this publisher w =
     bnd (self this w) (\<lambda>w.
     let wrapper = next_addr w
     in bnd (run (DoSubscribe publisher wrapper) (SharedSubscriberWrapper_Create this w)) (\<lambda>w.
        bnd (release run this w) (\<lambda>w.
        self this w)))"

section \<open>MergeStream\<close>

definition MergeStream_reset_self_lock ::
  "('v, 'u) runner \<Rightarrow> addr \<Rightarrow> ('v, 'u) world \<Rightarrow> ('v, 'u) world res" where
  "MergeStream_reset_self_lock run this w =
     bnd (get_merge this w) (\<lambda>m.
     release_opt run (ms_self_lock m) (put this (MergeStream (m\<lparr>ms_self_lock := None\<rparr>)) w))"

text \<open>\<open>upstream_subscribers_[i].reset()\<close>\<close>

definition MergeStream_reset_upstream ::
  "('v, 'u) runner \<Rightarrow> addr \<Rightarrow> nat \<Rightarrow> ('v, 'u) world \<Rightarrow> ('v, 'u) world res" where
  "MergeStream_reset_upstream run this i w =
     bnd (get_merge this w) (\<lambda>m.
     release_opt run (ms_upstream_subscribers m ! i)
       (put this (MergeStream
         (m\<lparr>ms_upstream_subscribers := (ms_upstream_subscribers m)[i := None]\<rparr>)) w))"

primrec MergeStream_cancel_upstreams ::
  "('v, 'u) runner \<Rightarrow> addr \<Rightarrow> nat list \<Rightarrow> ('v, 'u) world \<Rightarrow> ('v, 'u) world res" where
  "MergeStream_cancel_upstreams run this [] w = ret w"
| "MergeStream_cancel_upstreams run this (i # is) w =
     bnd (get_merge this w) (\<lambda>m.
     bnd (case ms_upstream_subscribers m ! i of
            None \<Rightarrow> ret w
          | Some up \<Rightarrow>
              bnd (MergeUpstreamSubscriber_Cancel run up w) (\<lambda>w.
              MergeStream_reset_upstream run this i w)) (\<lambda>w.
     MergeStream_cancel_upstreams run this is w))"

definition MergeStream_Cancel ::
  "('v, 'u) runner \<Rightarrow> addr \<Rightarrow> ('v, 'u) world \<Rightarrow> ('v, 'u) world res" where
  "MergeStream_Cancel run this w =
     bnd (get_merge this w) (\<lambda>m.
     bnd (MergeStream_cancel_upstreams run this [0..<length (ms_upstream_subscribers m)] w) (\<lambda>w.
     MergeStream_reset_self_lock run this w))"

definition MergeStream_Request ::
  "('v, 'u) runner \<Rightarrow> addr \<Rightarrow> size_t \<Rightarrow> ('v, 'u) world \<Rightarrow> ('v, 'u) world res" where
  "MergeStream_Request run this tokens w =
     bnd (get_merge this w) (\<lambda>m.
     MergeStream_MaybeDeliver run this
       (put this (MergeStream (m\<lparr>ms_request_balance := Add (ms_request_balance m) tokens\<rparr>)) w))"

text \<open>
  The loop of \<open>MaybeDeliver\<close>: one call is one test of the loop condition. The references that the
  code keeps to \<open>*this\<close> across the calls it makes are fresh accesses in the model.
\<close>

definition MergeStream_end_of_upstream ::
  "('v, 'u) runner \<Rightarrow> addr \<Rightarrow> nat \<Rightarrow> 'v event \<Rightarrow> ('v, 'u) world \<Rightarrow> ('v, 'u) world res" where
  "MergeStream_end_of_upstream run this i event w =
     bnd (MergeStream_reset_upstream run this i w) (\<lambda>w.
     bnd (get_merge this w) (\<lambda>m.
     if IsError event then
       bnd (run (OnNext (ms_subscriber m) (ms_sid m) event) w) (\<lambda>w.
       MergeStream_Cancel run this w)
     else if list_all (\<lambda>p. p = None) (ms_upstream_subscribers m) then
       bnd (run (OnNext (ms_subscriber m) (ms_sid m) (StatusRepr Done)) w) (\<lambda>w.
       MergeStream_reset_self_lock run this w)
     else run (MergeDeliverLoop this) w))"

definition MergeStream_deliver_loop ::
  "('v, 'u) runner \<Rightarrow> addr \<Rightarrow> ('v, 'u) world \<Rightarrow> ('v, 'u) world res" where
  "MergeStream_deliver_loop run this w =
     bnd (get_merge this w) (\<lambda>m.
     if balance (ms_request_balance m) > 0 \<and> balance (ms_available_balance m) > 0 then
       (let i = ms_current_index m;
            upstream_subscriber = ms_upstream_subscribers m ! i;
            w = put this (MergeStream
                  (m\<lparr>ms_current_index := (i + 1) mod length (ms_upstream_subscribers m)\<rparr>)) w
        in case upstream_subscriber of
             None \<Rightarrow> run (MergeDeliverLoop this) w
           | Some up \<Rightarrow>
               bnd (MergeUpstreamSubscriber_HasNext up w) (\<lambda>has_next.
               if \<not> has_next then run (MergeDeliverLoop this) w
               else
                 bnd (MergeUpstreamSubscriber_ConsumeNext run up w) (\<lambda>(event, w).
                 if \<not> IsEnd event then
                   bnd (get_merge this w) (\<lambda>m.
                   bnd (Remove (ms_request_balance m) 1) (\<lambda>b.
                   bnd (run (OnNext (ms_subscriber m) (ms_sid m) event)
                         (put this (MergeStream (m\<lparr>ms_request_balance := b\<rparr>)) w)) (\<lambda>w.
                   run (MergeDeliverLoop this) w)))
                 else MergeStream_end_of_upstream run this i event w)))
     else ret (put this (MergeStream (m\<lparr>ms_delivering := False\<rparr>)) w))"

primrec release_all ::
  "('v, 'u) runner \<Rightarrow> addr option list \<Rightarrow> ('v, 'u) world \<Rightarrow> ('v, 'u) world res" where
  "release_all run [] w = ret w"
| "release_all run (p # ps) w = bnd (release_opt run p w) (\<lambda>w. release_all run ps w)"

definition MergeStream_destroy ::
  "('v, 'u) runner \<Rightarrow> addr \<Rightarrow> merge_stream \<Rightarrow> ('v, 'u) world \<Rightarrow> ('v, 'u) world res" where
  "MergeStream_destroy run this m w =
     bnd (release_opt run (ms_self_lock m) (free this (clear_subscription (ms_sid m) w))) (\<lambda>w.
     bnd (release_all run (ms_upstream_subscribers m) w) (\<lambda>w.
     run (Destroy (ms_subscriber m)) w))"

text \<open>
  \<open>CreateUpstreamSubscriber<I>\<close>: the local \<open>self\<close>, its copy in the closure, the temporary that
  \<open>Create\<close> returns, and the result of \<open>DoSubscribe\<close>.
\<close>

definition MergeStream_CreateUpstreamSubscriber ::
  "('v, 'u) runner \<Rightarrow> nat \<Rightarrow> addr \<Rightarrow> ('v, 'u) pub \<Rightarrow> ('v, 'u) world \<Rightarrow> (addr \<times> ('v, 'u) world) res" where
  "MergeStream_CreateUpstreamSubscriber run I this upstream w =
     bnd (self this w) (\<lambda>w.
     let up = next_addr w;
         w = share up (alloc (MergeUpstreamSubscriber
               \<lparr>mu_index = I, mu_merge = this, mu_next = None, mu_upstream_subscription = None\<rparr>)
               (share this w))
     in bnd (MergeUpstreamSubscriber_DoSubscribe run up upstream w) (\<lambda>w.
        bnd (release run up w) (\<lambda>w.
        bnd (release run this w) (\<lambda>w.
        ret (up, w)))))"

primrec MergeStream_CreateUpstreamSubscribers ::
  "('v, 'u) runner \<Rightarrow> addr \<Rightarrow> ('v, 'u) pub list \<Rightarrow> nat \<Rightarrow> ('v, 'u) world
    \<Rightarrow> (addr list \<times> ('v, 'u) world) res" where
  "MergeStream_CreateUpstreamSubscribers run this [] I w = ret ([], w)"
| "MergeStream_CreateUpstreamSubscribers run this (p # ps) I w =
     bnd (MergeStream_CreateUpstreamSubscriber run I this p w) (\<lambda>(up, w).
     bnd (MergeStream_CreateUpstreamSubscribers run this ps (Suc I) w) (\<lambda>(ups, w).
     ret (up # ups, w)))"

definition MergeStream_lock_self :: "addr \<Rightarrow> ('v, 'u) world \<Rightarrow> ('v, 'u) world res" where
  "MergeStream_lock_self this w =
     bnd (self this w) (\<lambda>w.
     bnd (get_merge this w) (\<lambda>m. ret (put this (MergeStream (m\<lparr>ms_self_lock := Some this\<rparr>)) w)))"

definition MergeStream_confirm ::
  "('v, 'u) runner \<Rightarrow> addr \<Rightarrow> ('v, 'u) world \<Rightarrow> ('v, 'u) world res" where
  "MergeStream_confirm run this w =
     bnd (get_merge this w) (\<lambda>m. run (OnSubscribe (ms_subscriber m) (ms_sid m)) w)"

definition MergeStream_FinalizeConstruction ::
  "('v, 'u) runner \<Rightarrow> addr \<Rightarrow> ('v, 'u) pub list \<Rightarrow> ('v, 'u) world \<Rightarrow> ('v, 'u) world res" where
  "MergeStream_FinalizeConstruction run this upstream w =
     bnd (MergeStream_lock_self this w) (\<lambda>w.
     bnd (MergeStream_CreateUpstreamSubscribers run this upstream 0 w) (\<lambda>(ups, w).
     bnd (get_merge this w) (\<lambda>m.
     MergeStream_confirm run this
       (put this (MergeStream (m\<lparr>ms_upstream_subscribers := map Some ups\<rparr>)) w))))"

primrec MergeStream_add_uniform ::
  "('v, 'u) runner \<Rightarrow> addr \<Rightarrow> ('v, 'u) pub list \<Rightarrow> ('v, 'u) world \<Rightarrow> ('v, 'u) world res" where
  "MergeStream_add_uniform run this [] w = ret w"
| "MergeStream_add_uniform run this (p # ps) w =
     bnd (MergeStream_CreateUpstreamSubscriber run 0 this p w) (\<lambda>(up, w).
     bnd (get_merge this w) (\<lambda>m.
     MergeStream_add_uniform run this ps
       (put this (MergeStream
         (m\<lparr>ms_upstream_subscribers := ms_upstream_subscribers m @ [Some up]\<rparr>)) w)))"

definition MergeStream_FinalizeConstructionUniform ::
  "('v, 'u) runner \<Rightarrow> addr \<Rightarrow> ('v, 'u) pub list \<Rightarrow> ('v, 'u) world \<Rightarrow> ('v, 'u) world res" where
  "MergeStream_FinalizeConstructionUniform run this upstream w =
     bnd (MergeStream_lock_self this w) (\<lambda>w.
     bnd (MergeStream_add_uniform run this upstream w) (\<lambda>w.
     MergeStream_confirm run this w))"

text \<open>\<open>MergeStream::Create\<close>: the stream, at the next free address, with one reference.\<close>

definition MergeStream_Create :: "addr \<Rightarrow> ('v, 'u) world \<Rightarrow> ('v, 'u) world" where
  "MergeStream_Create subscriber w =
     (let this = next_addr w;
          w = alloc (MergeStream
                \<lparr>ms_subscriber = subscriber, ms_sid = next_sid w, ms_upstream_subscribers = [],
                 ms_self_lock = None, ms_current_index = 0, ms_request_balance = RequestBalance_init,
                 ms_available_balance = RequestBalance_init, ms_delivering = False\<rparr>) w
      in share this (new_subscription_state this w))"

definition MergePublisher_Subscribe ::
  "('v, 'u) runner \<Rightarrow> ('v, 'u) pub list \<Rightarrow> addr \<Rightarrow> ('v, 'u) world \<Rightarrow> ('v, 'u) world res" where
  "MergePublisher_Subscribe run upstream subscriber w =
     (let stream = next_addr w
      in bnd (MergeStream_FinalizeConstruction run stream upstream (MergeStream_Create subscriber w)) (\<lambda>w.
         release run stream w))"

definition MergeUniformPublisher_Subscribe ::
  "('v, 'u) runner \<Rightarrow> ('v, 'u) pub list \<Rightarrow> addr \<Rightarrow> ('v, 'u) world \<Rightarrow> ('v, 'u) world res" where
  "MergeUniformPublisher_Subscribe run upstream subscriber w =
     (let wrapper = next_addr w;
          w = alloc (VariantSubscriberWrapper subscriber) w;
          stream = next_addr w
      in bnd (MergeStream_FinalizeConstructionUniform run stream upstream (MergeStream_Create wrapper w)) (\<lambda>w.
         release run stream w))"

section \<open>VariantSubscriberWrapper\<close>

text \<open>\<open>absl::get<0>\<close>\<close>

fun variant_get_0 :: "'v val \<Rightarrow> 'v val res" where
  "variant_get_0 (Variant 0 x) = ret x"
| "variant_get_0 _ = fail (CheckFailed ''bad_variant_access'')"

definition VariantSubscriberWrapper_OnSubscribe ::
  "('v, 'u) runner \<Rightarrow> addr \<Rightarrow> sid \<Rightarrow> ('v, 'u) world \<Rightarrow> ('v, 'u) world res" where
  "VariantSubscriberWrapper_OnSubscribe run subscriber s w = run (OnSubscribe subscriber s) w"

definition VariantSubscriberWrapper_OnNext ::
  "('v, 'u) runner \<Rightarrow> addr \<Rightarrow> sid \<Rightarrow> 'v event \<Rightarrow> ('v, 'u) world \<Rightarrow> ('v, 'u) world res" where
  "VariantSubscriberWrapper_OnNext run subscriber s event w =
     (if IsEnd event then
        bnd (StatusOr_of_status (status event)) (\<lambda>e. run (OnNext subscriber s e) w)
      else
        bnd (ValueOrDie event) (\<lambda>v.
        bnd (variant_get_0 v) (\<lambda>x. run (OnNext subscriber s (ValueRepr x)) w)))"

section \<open>The operators\<close>

text \<open>\<open>p\<close> and every publisher of \<open>ps\<close> are moved into the new publisher.\<close>

primrec move_impls :: "('v, 'u) publisher list \<Rightarrow> ('v, 'u) pub list res" where
  "move_impls [] = ret []"
| "move_impls (p # ps) = bnd (move_impl p) (\<lambda>b. bnd (move_impls ps) (\<lambda>bs. ret (b # bs)))"

definition Publisher_Merge ::
  "('v, 'u) publisher \<Rightarrow> ('v, 'u) publisher list \<Rightarrow> ('v, 'u) publisher res" where
  "Publisher_Merge p ps = bnd (move_impls (p # ps)) (\<lambda>bs. ret (Some (MergePublisher bs)))"

definition Publisher_MergeUniform ::
  "('v, 'u) publisher \<Rightarrow> ('v, 'u) publisher list \<Rightarrow> ('v, 'u) publisher res" where
  "Publisher_MergeUniform p ps = bnd (move_impls (p # ps)) (\<lambda>bs. ret (Some (MergeUniformPublisher bs)))"

section \<open>Monotonicity\<close>

lemma MergeStream_MaybeDeliver_mono [mono_method]:
  "mono_option (\<lambda>r. MergeStream_MaybeDeliver (\<lambda>c w. r (c, w)) a w)"
  unfolding MergeStream_MaybeDeliver_def by (intro mono_method)

lemma MergeStream_StateChanged_mono [mono_method]:
  "mono_option (\<lambda>r. MergeStream_UpstreamSubscriberStateChanged (\<lambda>c w. r (c, w)) a d w)"
  unfolding MergeStream_UpstreamSubscriberStateChanged_def by (intro mono_method)

lemma MergeUpstreamSubscriber_mono [mono_method]:
  "mono_option (\<lambda>r. MergeUpstreamSubscriber_OnSubscribe (\<lambda>c w. r (c, w)) a s w)"
  "mono_option (\<lambda>r. MergeUpstreamSubscriber_OnNext (\<lambda>c w. r (c, w)) a e w)"
  "mono_option (\<lambda>r. MergeUpstreamSubscriber_ConsumeNext (\<lambda>c w. r (c, w)) a w)"
  "mono_option (\<lambda>r. MergeUpstreamSubscriber_Cancel (\<lambda>c w. r (c, w)) a w)"
  "mono_option (\<lambda>r. MergeUpstreamSubscriber_destroy (\<lambda>c w. r (c, w)) a m w)"
  "mono_option (\<lambda>r. MergeUpstreamSubscriber_DoSubscribe (\<lambda>c w. r (c, w)) a p w)"
  unfolding MergeUpstreamSubscriber_OnSubscribe_def MergeUpstreamSubscriber_OnNext_def
    MergeUpstreamSubscriber_ConsumeNext_def MergeUpstreamSubscriber_Cancel_def
    MergeUpstreamSubscriber_destroy_def MergeUpstreamSubscriber_DoSubscribe_def
  by (intro mono_method)+

lemma MergeStream_reset_mono [mono_method]:
  "mono_option (\<lambda>r. MergeStream_reset_self_lock (\<lambda>c w. r (c, w)) a w)"
  "mono_option (\<lambda>r. MergeStream_reset_upstream (\<lambda>c w. r (c, w)) a i w)"
  unfolding MergeStream_reset_self_lock_def MergeStream_reset_upstream_def by (intro mono_method)+

lemma MergeStream_cancel_upstreams_mono [mono_method]:
  "mono_option (\<lambda>r. MergeStream_cancel_upstreams (\<lambda>c w. r (c, w)) a is w)"
proof (induction "is" arbitrary: w)
  case Nil
  show ?case by (simp add: mono_method)
next
  case (Cons i "is")
  show ?case unfolding MergeStream_cancel_upstreams.simps by (intro mono_method Cons.IH)
qed

lemma MergeStream_Cancel_mono [mono_method]:
  "mono_option (\<lambda>r. MergeStream_Cancel (\<lambda>c w. r (c, w)) a w)"
  "mono_option (\<lambda>r. MergeStream_Request (\<lambda>c w. r (c, w)) a n w)"
  unfolding MergeStream_Cancel_def MergeStream_Request_def by (intro mono_method)+

lemma MergeStream_end_of_upstream_mono [mono_method]:
  "mono_option (\<lambda>r. MergeStream_end_of_upstream (\<lambda>c w. r (c, w)) a i e w)"
  unfolding MergeStream_end_of_upstream_def by (intro mono_method)

lemma MergeStream_deliver_loop_mono [mono_method]:
  "mono_option (\<lambda>r. MergeStream_deliver_loop (\<lambda>c w. r (c, w)) a w)"
  unfolding MergeStream_deliver_loop_def by (intro mono_method)

lemma release_all_mono [mono_method]: "mono_option (\<lambda>r. release_all (\<lambda>c w. r (c, w)) ps w)"
proof (induction ps arbitrary: w)
  case Nil
  show ?case by (simp add: mono_method)
next
  case (Cons p ps)
  show ?case unfolding release_all.simps by (intro mono_method Cons.IH)
qed

lemma MergeStream_destroy_mono [mono_method]:
  "mono_option (\<lambda>r. MergeStream_destroy (\<lambda>c w. r (c, w)) a m w)"
  unfolding MergeStream_destroy_def by (intro mono_method)

lemma MergeStream_CreateUpstreamSubscriber_mono [mono_method]:
  "mono_option (\<lambda>r. MergeStream_CreateUpstreamSubscriber (\<lambda>c w. r (c, w)) i a p w)"
  unfolding MergeStream_CreateUpstreamSubscriber_def by (intro mono_method)

lemma MergeStream_CreateUpstreamSubscribers_mono [mono_method]:
  "mono_option (\<lambda>r. MergeStream_CreateUpstreamSubscribers (\<lambda>c w. r (c, w)) a ps i w)"
proof (induction ps arbitrary: i w)
  case Nil
  show ?case by (simp add: mono_method)
next
  case (Cons p ps)
  show ?case unfolding MergeStream_CreateUpstreamSubscribers.simps by (intro mono_method Cons.IH)
qed

lemma MergeStream_add_uniform_mono [mono_method]:
  "mono_option (\<lambda>r. MergeStream_add_uniform (\<lambda>c w. r (c, w)) a ps w)"
proof (induction ps arbitrary: w)
  case Nil
  show ?case by (simp add: mono_method)
next
  case (Cons p ps)
  show ?case unfolding MergeStream_add_uniform.simps by (intro mono_method Cons.IH)
qed

lemma MergeStream_confirm_mono [mono_method]:
  "mono_option (\<lambda>r. MergeStream_confirm (\<lambda>c w. r (c, w)) a w)"
  unfolding MergeStream_confirm_def by (intro mono_method)

lemma MergeStream_FinalizeConstruction_mono [mono_method]:
  "mono_option (\<lambda>r. MergeStream_FinalizeConstruction (\<lambda>c w. r (c, w)) a ps w)"
  "mono_option (\<lambda>r. MergeStream_FinalizeConstructionUniform (\<lambda>c w. r (c, w)) a ps w)"
  unfolding MergeStream_FinalizeConstruction_def MergeStream_FinalizeConstructionUniform_def
  by (intro mono_method)+

lemma MergePublisher_mono [mono_method]:
  "mono_option (\<lambda>r. MergePublisher_Subscribe (\<lambda>c w. r (c, w)) ps a w)"
  "mono_option (\<lambda>r. MergeUniformPublisher_Subscribe (\<lambda>c w. r (c, w)) ps a w)"
  "mono_option (\<lambda>r. VariantSubscriberWrapper_OnSubscribe (\<lambda>c w. r (c, w)) a s w)"
  "mono_option (\<lambda>r. VariantSubscriberWrapper_OnNext (\<lambda>c w. r (c, w)) a s e w)"
  unfolding MergePublisher_Subscribe_def MergeUniformPublisher_Subscribe_def
    VariantSubscriberWrapper_OnSubscribe_def VariantSubscriberWrapper_OnNext_def
  by (intro mono_method)+

end
