(* ===== verification/FlatMapping.thy ===== *)
theory FlatMapping
  imports Subscribers
begin

text \<open>
  \<open>FlatMapStream\<close> and the operator \<open>FlatMap\<close>: each element of the base stream is replaced by the
  stream a continuation function produces for it. The stream counts the events requested of it
  (\<open>request_balance_\<close>) and those it has requested of the active continuation
  (\<open>cont_requested_\<close>).
\<close>

section \<open>FlatMapStream\<close>

definition flow_control_error :: Status where
  "flow_control_error =
     set_message ''(at reactive_impl.inc:1219) flow control error''
       (set_code FAILED_PRECONDITION Status_default)"

text \<open>The status is the one the code builds with \<open>RX_STATUS\<close>.\<close>

lemma flow_control_error_builder:
  "StatusBuilder_to_Status (StatusBuilder_stream (MakeStatusBuilder FAILED_PRECONDITION ''rxcppuniq/reactive/reactive_impl.inc'' 1219)
     ''flow control error'') err = ret (flow_control_error, err)"
  unfolding MakeStatusBuilder_to_Status flow_control_error_def by (cases err) code_simp+

definition base_subscription ::
  "('v, 'u) flatmap_stream \<Rightarrow> (sid \<Rightarrow> 'a res) \<Rightarrow> 'a res" where
  "base_subscription f k = with_subscription (fm_base_subscription f) ''OnSubscribe was never called'' k"

definition FlatMapStream_destroy ::
  "('v, 'u) runner \<Rightarrow> addr \<Rightarrow> ('v, 'u) flatmap_stream \<Rightarrow> ('v, 'u) world \<Rightarrow> ('v, 'u) world res" where
  "FlatMapStream_destroy run this f w =
     bnd (case fm_cont_subscription f of
            None \<Rightarrow> ret w
          | Some c \<Rightarrow> if \<not> has_ended c w then Subscription_Cancel run c w else ret w) (\<lambda>w.
     run (Destroy (fm_subscriber f)) (free this (clear_subscription (fm_sid f) w)))"

definition FlatMapStream_Cancel ::
  "('v, 'u) runner \<Rightarrow> addr \<Rightarrow> ('v, 'u) world \<Rightarrow> ('v, 'u) world res" where
  "FlatMapStream_Cancel run this w =
     bnd (get_flatmap this w) (\<lambda>f. base_subscription f (\<lambda>base. Subscription_Cancel run base w))"

definition FlatMapStream_Request ::
  "('v, 'u) runner \<Rightarrow> addr \<Rightarrow> size_t \<Rightarrow> ('v, 'u) world \<Rightarrow> ('v, 'u) world res" where
  "FlatMapStream_Request run this tokens w =
     bnd (get_flatmap this w) (\<lambda>f.
     let f = f\<lparr>fm_request_balance := Add (fm_request_balance f) tokens\<rparr>;
         w = put this (FlatMapStream f) w
     in case fm_cont_subscription f of
          Some c \<Rightarrow>
            (let delta = balance (fm_request_balance f) - balance (fm_cont_requested f)
             in if delta > 0 then
                  Subscription_Request run c delta
                    (put this (FlatMapStream (f\<lparr>fm_cont_requested := Add (fm_cont_requested f) delta\<rparr>)) w)
                else ret w)
        | None \<Rightarrow> base_subscription f (\<lambda>base. Subscription_Request run base 1 w))"

definition FlatMapStream_Send ::
  "('v, 'u) runner \<Rightarrow> addr \<Rightarrow> 'v event \<Rightarrow> ('v, 'u) world \<Rightarrow> ('v, 'u) world res" where
  "FlatMapStream_Send run this event w =
     bnd (get_flatmap this w) (\<lambda>f. run (OnNext (fm_subscriber f) (fm_sid f) event) w)"

definition FlatMapStream_Terminate ::
  "('v, 'u) runner \<Rightarrow> addr \<Rightarrow> Status \<Rightarrow> ('v, 'u) world \<Rightarrow> ('v, 'u) world res" where
  "FlatMapStream_Terminate run this st w =
     bnd (StatusOr_of_status st) (\<lambda>e.
     bnd (FlatMapStream_Send run this e w) (\<lambda>w.
     bnd (get_flatmap this w) (\<lambda>f.
     base_subscription f (\<lambda>base. Subscription_Cancel run base w))))"

definition FlatMapStream_OnNext ::
  "('v, 'u) runner \<Rightarrow> addr \<Rightarrow> 'v event \<Rightarrow> ('v, 'u) world \<Rightarrow> ('v, 'u) world res" where
  "FlatMapStream_OnNext run this event w =
     (if IsEnd event then
        bnd (StatusOr_of_status (status event)) (\<lambda>e. FlatMapStream_Send run this e w)
      else
        bnd (get_flatmap this w) (\<lambda>f.
        if fm_cont_subscription f \<noteq> None then FlatMapStream_Terminate run this flow_control_error w
        else
          bnd (ValueOrDie event) (\<lambda>v.
          let (p, u) = fm_cont f v (user w)
          in Publisher_Subscribe_functions run p (SubscribeFlatMapCont this) (NextFlatMapCont this)
               (w\<lparr>user := u\<rparr>))))"

definition FlatMapStream_OnSubscribe ::
  "('v, 'u) runner \<Rightarrow> addr \<Rightarrow> sid \<Rightarrow> ('v, 'u) world \<Rightarrow> ('v, 'u) world res" where
  "FlatMapStream_OnSubscribe run this subscription w =
     bnd (get_flatmap this w) (\<lambda>f.
     run (OnSubscribe (fm_subscriber f) (fm_sid f))
       (put this (FlatMapStream (f\<lparr>fm_base_subscription := Some subscription\<rparr>)) w))"

text \<open>The first lambda that \<open>OnNext\<close> subscribes to a continuation with.\<close>

definition FlatMapStream_OnSubscribeCont ::
  "('v, 'u) runner \<Rightarrow> addr \<Rightarrow> sid \<Rightarrow> ('v, 'u) world \<Rightarrow> ('v, 'u) world res" where
  "FlatMapStream_OnSubscribeCont run this subscription w =
     bnd (get_flatmap this w) (\<lambda>f.
     let f = f\<lparr>fm_cont_subscription := Some subscription, fm_cont_requested := reset (fm_cont_requested f)\<rparr>;
         w = put this (FlatMapStream f) w
     in if HasRequests (fm_request_balance f) then FlatMapStream_Request run this 0 w else ret w)"

definition FlatMapStream_OnNextCont ::
  "('v, 'u) runner \<Rightarrow> addr \<Rightarrow> 'v event \<Rightarrow> ('v, 'u) world \<Rightarrow> ('v, 'u) world res" where
  "FlatMapStream_OnNextCont run this event w =
     (if \<not> IsEnd event then
        bnd (get_flatmap this w) (\<lambda>f.
        bnd (Remove (fm_request_balance f) 1) (\<lambda>b.
        bnd (Remove (fm_cont_requested f) 1) (\<lambda>c.
        FlatMapStream_Send run this event
          (put this (FlatMapStream (f\<lparr>fm_request_balance := b, fm_cont_requested := c\<rparr>)) w))))
      else if IsDone event then
        bnd (get_flatmap this w) (\<lambda>f.
        let w = put this (FlatMapStream (f\<lparr>fm_cont_subscription := None\<rparr>)) w
        in if HasRequests (fm_request_balance f) then FlatMapStream_Request run this 0 w else ret w)
      else FlatMapStream_Terminate run this (status event) w)"

definition FlatMapPublisher_Subscribe ::
  "('v, 'u) runner \<Rightarrow> ('v, 'u) pub \<Rightarrow> ('v val \<Rightarrow> 'u \<Rightarrow> ('v, 'u) publisher \<times> 'u) \<Rightarrow> addr
    \<Rightarrow> ('v, 'u) world \<Rightarrow> ('v, 'u) world res" where
  "FlatMapPublisher_Subscribe run base cont subscriber w =
     (let stream = next_addr w;
          w = alloc (FlatMapStream
                \<lparr>fm_cont = cont, fm_subscriber = subscriber, fm_sid = next_sid w,
                 fm_request_balance = RequestBalance_init, fm_cont_requested = RequestBalance_init,
                 fm_base_subscription = None, fm_cont_subscription = None\<rparr>) w;
          w = new_subscription_state stream w
      in run (DoSubscribe base stream) w)"

definition Publisher_FlatMap ::
  "('v val \<Rightarrow> 'u \<Rightarrow> ('v, 'u) publisher \<times> 'u) \<Rightarrow> ('v, 'u) publisher \<Rightarrow> ('v, 'u) publisher res" where
  "Publisher_FlatMap func p = bnd (move_impl p) (\<lambda>b. ret (Some (FlatMapPublisher b func)))"

section \<open>Monotonicity\<close>

lemma base_subscription_mono [mono_method]:
  assumes "\<And>s. mono_option (k s)"
  shows "mono_option (\<lambda>r. base_subscription f (\<lambda>s. k s r))"
  using assms unfolding base_subscription_def by (intro mono_method)

lemma FlatMapStream_Send_mono [mono_method]:
  "mono_option (\<lambda>r. FlatMapStream_Send (\<lambda>c w. r (c, w)) a e w)"
  "mono_option (\<lambda>r. FlatMapStream_Request (\<lambda>c w. r (c, w)) a n w)"
  unfolding FlatMapStream_Send_def FlatMapStream_Request_def by (intro mono_method)+

lemma FlatMapStream_Terminate_mono [mono_method]:
  "mono_option (\<lambda>r. FlatMapStream_Terminate (\<lambda>c w. r (c, w)) a s w)"
  unfolding FlatMapStream_Terminate_def by (intro mono_method)

lemma FlatMapStream_mono [mono_method]:
  "mono_option (\<lambda>r. FlatMapStream_destroy (\<lambda>c w. r (c, w)) a f w)"
  "mono_option (\<lambda>r. FlatMapStream_Cancel (\<lambda>c w. r (c, w)) a w)"
  "mono_option (\<lambda>r. FlatMapStream_OnNext (\<lambda>c w. r (c, w)) a e w)"
  "mono_option (\<lambda>r. FlatMapStream_OnSubscribe (\<lambda>c w. r (c, w)) a s w)"
  "mono_option (\<lambda>r. FlatMapStream_OnSubscribeCont (\<lambda>c w. r (c, w)) a s w)"
  "mono_option (\<lambda>r. FlatMapStream_OnNextCont (\<lambda>c w. r (c, w)) a e w)"
  "mono_option (\<lambda>r. FlatMapPublisher_Subscribe (\<lambda>c w. r (c, w)) p k a w)"
  unfolding FlatMapStream_destroy_def FlatMapStream_Cancel_def FlatMapStream_OnNext_def
    FlatMapStream_OnSubscribe_def FlatMapStream_OnSubscribeCont_def FlatMapStream_OnNextCont_def
    FlatMapPublisher_Subscribe_def
  by (intro mono_method)+

end
