(* ===== verification/Asynchronous.thy ===== *)
theory Asynchronous
  imports Subscribers
begin

text \<open>
  \<open>AsyncStream\<close>, \<open>AsyncPublisher\<close> and the operator \<open>Async\<close>: requests travel to the upstream, and
  events to the downstream, as tasks on two workers. A worker is its queue of tasks (theory
  \<open>Scheduling\<close> shows that the code's worker runs them one at a time and in order); the state a task
  closure captures is the task's constructor arguments.
\<close>

section \<open>AsyncStream\<close>

text \<open>
  \<open>AsyncOnNextHelper\<close>: the last event takes the subscriber along, moved out of the stream; any
  other event goes with a pointer into the stream, named here by the stream's address.
\<close>

definition AsyncOnNextHelper ::
  "addr \<Rightarrow> async_stream \<Rightarrow> 'v event \<Rightarrow> ('v, 'u) world \<Rightarrow> ('v, 'u) world" where
  "AsyncOnNextHelper this s event w =
     (if \<not> ok event then
        schedule (as_consume_on s) (TaskOnNextLast event (as_sid s) (as_subscriber s))
          (put this (AsyncStream (s\<lparr>as_subscriber := None\<rparr>)) w)
      else schedule (as_consume_on s) (TaskOnNext event this (as_sid s)) w)"

definition AsyncStream_destroy ::
  "('v, 'u) runner \<Rightarrow> addr \<Rightarrow> async_stream \<Rightarrow> ('v, 'u) world \<Rightarrow> ('v, 'u) world res" where
  "AsyncStream_destroy run this s w =
     (let w = free this (clear_subscription (as_sid s) w)
      in case as_subscriber s of None \<Rightarrow> ret w | Some d \<Rightarrow> run (Destroy d) w)"

definition AsyncStream_Cancel :: "addr \<Rightarrow> ('v, 'u) world \<Rightarrow> ('v, 'u) world res" where
  "AsyncStream_Cancel this w =
     bnd (get_async this w) (\<lambda>s.
     with_subscription (as_upstream_subscription s) never_subscribed_msg (\<lambda>up.
     ret (schedule (as_produce_on s) (TaskCancel up) w)))"

definition AsyncStream_Request :: "addr \<Rightarrow> size_t \<Rightarrow> ('v, 'u) world \<Rightarrow> ('v, 'u) world res" where
  "AsyncStream_Request this tokens w =
     bnd (get_async this w) (\<lambda>s.
     with_subscription (as_upstream_subscription s) never_subscribed_msg (\<lambda>up.
     ret (schedule (as_produce_on s) (TaskRequest tokens up) w)))"

definition AsyncStream_OnSubscribe :: "addr \<Rightarrow> sid \<Rightarrow> ('v, 'u) world \<Rightarrow> ('v, 'u) world res" where
  "AsyncStream_OnSubscribe this subscription w =
     bnd (get_async this w) (\<lambda>s.
     rx_check (as_upstream_subscription s = None) ''OnSubscribe already called''
     (let w = put this (AsyncStream (s\<lparr>as_upstream_subscription := Some subscription\<rparr>)) w
      in case as_subscriber s of
           None \<Rightarrow> fail (BadPointer this)
         | Some d \<Rightarrow> ret (schedule (as_consume_on s) (TaskOnSubscribe (as_sid s) d) w)))"

definition AsyncStream_OnNext :: "addr \<Rightarrow> 'v event \<Rightarrow> ('v, 'u) world \<Rightarrow> ('v, 'u) world res" where
  "AsyncStream_OnNext this event w =
     bnd (get_async this w) (\<lambda>s. ret (AsyncOnNextHelper this s event w))"

definition AsyncPublisher_Subscribe ::
  "worker_id \<Rightarrow> worker_id \<Rightarrow> ('v, 'u) publisher \<Rightarrow> addr \<Rightarrow> ('v, 'u) world \<Rightarrow> ('v, 'u) world res" where
  "AsyncPublisher_Subscribe produce_on consume_on input subscriber w =
     ret (schedule produce_on (TaskSubscribe input subscriber produce_on consume_on) w)"

definition Publisher_Async ::
  "worker_id \<Rightarrow> worker_id \<Rightarrow> ('v, 'u) publisher \<Rightarrow> ('v, 'u) publisher res" where
  "Publisher_Async produce_on consume_on p =
     bnd (move_impl p) (\<lambda>b. ret (Some (AsyncPublisher produce_on consume_on (Some b))))"

section \<open>Running a task\<close>

definition stale_subscriber_call_msg :: string where
  "stale_subscriber_call_msg = ''unexpected call to stale subscriber''"

fun run_task :: "('v, 'u) runner \<Rightarrow> ('v, 'u) task \<Rightarrow> ('v, 'u) world \<Rightarrow> ('v, 'u) world res" where
  "run_task run (TaskSubscribe input subscriber produce_on consume_on) w =
     (let stream = next_addr w;
          w = alloc (AsyncStream
                \<lparr>as_produce_on = produce_on, as_consume_on = consume_on,
                 as_subscriber = Some subscriber, as_sid = next_sid w,
                 as_upstream_subscription = None\<rparr>) w;
          w = new_subscription_state stream w
      in bnd (move_impl input) (\<lambda>b. run (DoSubscribe b stream) w))"
| "run_task run (TaskCancel s) w = Subscription_Cancel run s w"
| "run_task run (TaskRequest tokens s) w =
     (if \<not> has_ended s w then Subscription_Request run s tokens w else ret w)"
| "run_task run (TaskOnSubscribe s subscriber) w =
     rx_check (impl w s \<noteq> None) ''stale subscriber'' (run (OnSubscribe subscriber s) w)"
| "run_task run (TaskOnNextLast event s subscriber) w =
     (case subscriber of
        None \<Rightarrow> fail (BadPointer 0)
      | Some d \<Rightarrow> bnd (run (OnNext d s event) w) (\<lambda>w. run (Destroy d) w))"
| "run_task run (TaskOnNext event stream s) w =
     rx_check (\<not> has_ended s w) stale_subscriber_call_msg
     (bnd (get_async stream w) (\<lambda>a.
      case as_subscriber a of
        None \<Rightarrow> fail (BadPointer stream)
      | Some d \<Rightarrow> run (OnNext d s event) w))"

section \<open>Monotonicity\<close>

lemma AsyncStream_destroy_mono [mono_method]:
  "mono_option (\<lambda>r. AsyncStream_destroy (\<lambda>c w. r (c, w)) a s w)"
  unfolding AsyncStream_destroy_def by (intro mono_method)

end
