(* ===== verification/Machine.thy ===== *)
theory Machine
  imports Generating Chaining Prefetching Concatenating Merging FlatMapping Asynchronous
begin

text \<open>
  Virtual dispatch: a call is handled by the class of the object it is made on, and the machine
  \<open>exec\<close> is the least fixed point of the dispatch. A call that never returns is \<open>None\<close>. The
  second part runs the tasks of the workers, one at a time, in any order that keeps each worker's
  own order.
\<close>

section \<open>Dispatch\<close>

definition dispatch_OnSubscribe :: "('v, 'u) runner \<Rightarrow> addr \<Rightarrow> sid \<Rightarrow> ('v, 'u) world \<Rightarrow> ('v, 'u) world res" where
  "dispatch_OnSubscribe run a s w =
     (case heap w a of
        Some (FunctionalSubscriber f g) \<Rightarrow> FunctionalSubscriber_OnSubscribe run f s w
      | Some (SharedSubscriberWrapper d) \<Rightarrow> SharedSubscriberWrapper_OnSubscribe run d s w
      | Some (VariantSubscriberWrapper d) \<Rightarrow> VariantSubscriberWrapper_OnSubscribe run d s w
      | Some (ChainingStream x) \<Rightarrow> ChainingStream_OnSubscribe run a s w
      | Some (PrefetchingStream x) \<Rightarrow> PrefetchingStream_OnSubscribe run a s w
      | Some (MergeUpstreamSubscriber x) \<Rightarrow> MergeUpstreamSubscriber_OnSubscribe run a s w
      | Some (ConcatStream x) \<Rightarrow> ConcatStream_OnSubscribe run a s w
      | Some (FlatMapStream x) \<Rightarrow> FlatMapStream_OnSubscribe run a s w
      | Some (AsyncStream x) \<Rightarrow> AsyncStream_OnSubscribe a s w
      | _ \<Rightarrow> fail (BadPointer a))"

definition dispatch_OnNext ::
  "('v, 'u) runner \<Rightarrow> addr \<Rightarrow> sid \<Rightarrow> 'v event \<Rightarrow> ('v, 'u) world \<Rightarrow> ('v, 'u) world res" where
  "dispatch_OnNext run a s event w =
     (case heap w a of
        Some (FunctionalSubscriber f g) \<Rightarrow> FunctionalSubscriber_OnNext run a f g s event w
      | Some (SharedSubscriberWrapper d) \<Rightarrow> SharedSubscriberWrapper_OnNext run d s event w
      | Some (VariantSubscriberWrapper d) \<Rightarrow> VariantSubscriberWrapper_OnNext run d s event w
      | Some (ChainingStream x) \<Rightarrow> ChainingStream_OnNext run a event w
      | Some (PrefetchingStream x) \<Rightarrow> PrefetchingStream_OnNext run a event w
      | Some (MergeUpstreamSubscriber x) \<Rightarrow> MergeUpstreamSubscriber_OnNext run a event w
      | Some (ConcatStream x) \<Rightarrow> ConcatStream_OnNext run a event w
      | Some (FlatMapStream x) \<Rightarrow> FlatMapStream_OnNext run a event w
      | Some (AsyncStream x) \<Rightarrow> AsyncStream_OnNext a event w
      | _ \<Rightarrow> fail (BadPointer a))"

definition dispatch_Request :: "('v, 'u) runner \<Rightarrow> addr \<Rightarrow> size_t \<Rightarrow> ('v, 'u) world \<Rightarrow> ('v, 'u) world res" where
  "dispatch_Request run a n w =
     (case heap w a of
        Some (GeneratingStream x) \<Rightarrow> GeneratingStream_Request run a n w
      | Some (ChainingStream x) \<Rightarrow> ChainingStream_Request run a n w
      | Some (PrefetchingStream x) \<Rightarrow> PrefetchingStream_Request run a n w
      | Some (MergeStream x) \<Rightarrow> MergeStream_Request run a n w
      | Some (ConcatStream x) \<Rightarrow> ConcatStream_Request run a n w
      | Some (FlatMapStream x) \<Rightarrow> FlatMapStream_Request run a n w
      | Some (AsyncStream x) \<Rightarrow> AsyncStream_Request a n w
      | _ \<Rightarrow> fail (BadPointer a))"

definition dispatch_Cancel :: "('v, 'u) runner \<Rightarrow> addr \<Rightarrow> ('v, 'u) world \<Rightarrow> ('v, 'u) world res" where
  "dispatch_Cancel run a w =
     (case heap w a of
        Some (GeneratingStream x) \<Rightarrow> GeneratingStream_Cancel run a w
      | Some (ChainingStream x) \<Rightarrow> ChainingStream_Cancel run a w
      | Some (PrefetchingStream x) \<Rightarrow> PrefetchingStream_Cancel run a w
      | Some (MergeStream x) \<Rightarrow> MergeStream_Cancel run a w
      | Some (ConcatStream x) \<Rightarrow> ConcatStream_Cancel run a w
      | Some (FlatMapStream x) \<Rightarrow> FlatMapStream_Cancel run a w
      | Some (AsyncStream x) \<Rightarrow> AsyncStream_Cancel a w
      | _ \<Rightarrow> fail (BadPointer a))"

definition dispatch_Destroy :: "('v, 'u) runner \<Rightarrow> addr \<Rightarrow> ('v, 'u) world \<Rightarrow> ('v, 'u) world res" where
  "dispatch_Destroy run a w =
     (case heap w a of
        Some (FunctionalSubscriber f g) \<Rightarrow> ret (free a w)
      | Some (SharedSubscriberWrapper d) \<Rightarrow> release run d (free a w)
      | Some (VariantSubscriberWrapper d) \<Rightarrow> run (Destroy d) (free a w)
      | Some (GeneratingStream x) \<Rightarrow> GeneratingStream_destroy run a x w
      | Some (ChainingStream x) \<Rightarrow> ChainingStream_destroy run a x w
      | Some (PrefetchingStream x) \<Rightarrow> PrefetchingStream_destroy run a x w
      | Some (MergeUpstreamSubscriber x) \<Rightarrow> MergeUpstreamSubscriber_destroy run a x w
      | Some (MergeStream x) \<Rightarrow> MergeStream_destroy run a x w
      | Some (ConcatStream x) \<Rightarrow> ConcatStream_destroy run a x w
      | Some (FlatMapStream x) \<Rightarrow> FlatMapStream_destroy run a x w
      | Some (AsyncStream x) \<Rightarrow> AsyncStream_destroy run a x w
      | None \<Rightarrow> fail (BadPointer a))"

definition dispatch_DoSubscribe ::
  "('v, 'u) runner \<Rightarrow> ('v, 'u) pub \<Rightarrow> addr \<Rightarrow> ('v, 'u) world \<Rightarrow> ('v, 'u) world res" where
  "dispatch_DoSubscribe run p subscriber w =
     (case p of
        GeneratingPublisher st g \<Rightarrow> GeneratingPublisher_Subscribe run st g subscriber w
      | ChainingPublisher base f \<Rightarrow> ChainingPublisher_Subscribe run base f subscriber w
      | PrefetchingPublisher up n m \<Rightarrow> PrefetchingPublisher_Subscribe run up n m subscriber w
      | MergePublisher ups \<Rightarrow> MergePublisher_Subscribe run ups subscriber w
      | MergeUniformPublisher ups \<Rightarrow> MergeUniformPublisher_Subscribe run ups subscriber w
      | ConcatPublisher first second \<Rightarrow> ConcatPublisher_Subscribe run first second subscriber w
      | FlatMapPublisher base cont \<Rightarrow> FlatMapPublisher_Subscribe run base cont subscriber w
      | AsyncPublisher produce_on consume_on input \<Rightarrow>
          AsyncPublisher_Subscribe produce_on consume_on input subscriber w)"

definition dispatch :: "('v, 'u) runner \<Rightarrow> ('v, 'u) call \<Rightarrow> ('v, 'u) world \<Rightarrow> ('v, 'u) world res" where
  "dispatch run c w =
     (case c of
        OnSubscribe a s \<Rightarrow> dispatch_OnSubscribe run a s w
      | OnNext a s event \<Rightarrow> dispatch_OnNext run a s event w
      | Request a n \<Rightarrow> dispatch_Request run a n w
      | Cancel a \<Rightarrow> dispatch_Cancel run a w
      | Destroy a \<Rightarrow> dispatch_Destroy run a w
      | DoSubscribe p a \<Rightarrow> dispatch_DoSubscribe run p a w
      | GenerateLoop a \<Rightarrow> GeneratingStream_Generate_loop run a w
      | PrefetchDeliverLoop a \<Rightarrow> PrefetchingStream_deliver_loop run a w
      | MergeDeliverLoop a \<Rightarrow> MergeStream_deliver_loop run a w
      | FlatMapOnSubscribeCont a s \<Rightarrow> FlatMapStream_OnSubscribeCont run a s w
      | FlatMapOnNextCont a event \<Rightarrow> FlatMapStream_OnNextCont run a event w)"

text \<open>Every branch of a dispatch is monotone, whatever the object.\<close>

lemma obj_option_exhaust:
  obtains "x = None" | f g where "x = Some (FunctionalSubscriber f g)"
  | d where "x = Some (SharedSubscriberWrapper d)" | d where "x = Some (VariantSubscriberWrapper d)"
  | y where "x = Some (GeneratingStream y)" | y where "x = Some (ChainingStream y)"
  | y where "x = Some (PrefetchingStream y)" | y where "x = Some (MergeUpstreamSubscriber y)"
  | y where "x = Some (MergeStream y)" | y where "x = Some (ConcatStream y)"
  | y where "x = Some (FlatMapStream y)" | y where "x = Some (AsyncStream y)"
  by (metis obj.exhaust option.exhaust)

lemma dispatch_OnSubscribe_mono [mono_method]:
  "mono_option (\<lambda>r. dispatch_OnSubscribe (\<lambda>c w. r (c, w)) a s w)"
  unfolding dispatch_OnSubscribe_def
  by (cases "heap w a" rule: obj_option_exhaust) (simp_all only: option.case obj.case mono_method)

lemma dispatch_OnNext_mono [mono_method]:
  "mono_option (\<lambda>r. dispatch_OnNext (\<lambda>c w. r (c, w)) a s e w)"
  unfolding dispatch_OnNext_def
  by (cases "heap w a" rule: obj_option_exhaust) (simp_all only: option.case obj.case mono_method)

lemma dispatch_Request_mono [mono_method]:
  "mono_option (\<lambda>r. dispatch_Request (\<lambda>c w. r (c, w)) a n w)"
  unfolding dispatch_Request_def
  by (cases "heap w a" rule: obj_option_exhaust) (simp_all only: option.case obj.case mono_method)

lemma dispatch_Cancel_mono [mono_method]:
  "mono_option (\<lambda>r. dispatch_Cancel (\<lambda>c w. r (c, w)) a w)"
  unfolding dispatch_Cancel_def
  by (cases "heap w a" rule: obj_option_exhaust) (simp_all only: option.case obj.case mono_method)

lemma dispatch_Destroy_mono [mono_method]:
  "mono_option (\<lambda>r. dispatch_Destroy (\<lambda>c w. r (c, w)) a w)"
  unfolding dispatch_Destroy_def
  by (cases "heap w a" rule: obj_option_exhaust) (simp_all only: option.case obj.case mono_method)

lemma dispatch_DoSubscribe_mono [mono_method]:
  "mono_option (\<lambda>r. dispatch_DoSubscribe (\<lambda>c w. r (c, w)) p a w)"
  unfolding dispatch_DoSubscribe_def by (cases p) (simp_all only: pub.case mono_method)

lemma dispatch_mono [partial_function_mono]:
  "mono_option (\<lambda>r. dispatch (\<lambda>c w. r (c, w)) c w)"
  unfolding dispatch_def by (cases c) (simp_all only: call.case mono_method)

section \<open>The machine\<close>

partial_function (option) exec :: "('v, 'u) call \<Rightarrow> ('v, 'u) world \<Rightarrow> ('v, 'u) world res" where
  "exec c w = dispatch exec c w"

declare exec.simps [code]

text \<open>Evaluation runs a call to its end before it looks at what follows.\<close>

declare bnd_def [code_unfold]

text \<open>
  Reasoning about every execution: a property of calls that each call keeps, provided the calls it
  makes keep it, holds of every call that returns an outcome.
\<close>

lemma exec_induct:
  assumes "\<And>run c w r. (\<And>c w r. run c w = Some r \<Longrightarrow> P c w r) \<Longrightarrow> dispatch run c w = Some r \<Longrightarrow> P c w r"
    and "exec c w = Some r"
  shows "P c w r"
  using assms(2) by (rule exec.raw_induct [rotated]) (rule assms(1))

section \<open>Workers\<close>

text \<open>
  One step of the asynchronous system: some worker with a pending task runs its oldest one to
  completion.
\<close>

inductive worker_step :: "('v, 'u) world \<Rightarrow> ('v, 'u) world res \<Rightarrow> bool" where
  oldest_task: "queues w k = t # ts \<Longrightarrow>
    worker_step w (run_task exec t (w\<lparr>queues := (queues w)(k := ts)\<rparr>))"

text \<open>A given schedule: the worker to run next at each step; an idle worker has no step.\<close>

fun run_schedule :: "worker_id list \<Rightarrow> ('v, 'u) world \<Rightarrow> ('v, 'u) world res" where
  "run_schedule [] w = ret w"
| "run_schedule (k # ks) w =
     (case queues w k of
        [] \<Rightarrow> run_schedule ks w
      | t # ts \<Rightarrow> bnd (run_task exec t (w\<lparr>queues := (queues w)(k := ts)\<rparr>)) (\<lambda>w. run_schedule ks w))"

inductive worker_steps :: "('v, 'u) world \<Rightarrow> ('v, 'u) world res \<Rightarrow> bool" where
  no_step: "worker_steps w (ret w)"
| more_steps: "worker_step w (ret w') \<Longrightarrow> worker_steps w' r \<Longrightarrow> worker_steps w r"
| step_fails: "worker_step w r \<Longrightarrow> \<not> returns r \<Longrightarrow> worker_steps w r"

section \<open>Starting points\<close>

definition empty_world :: "'u \<Rightarrow> ('v, 'u) world" where
  "empty_world u = \<lparr>heap = Map.empty, next_addr = 1, refs = (\<lambda>_. 0), impl = (\<lambda>_. None),
     next_sid = 0, user = u, queues = (\<lambda>_. [])\<rparr>"

end
