(* ===== verification/World_Facts.thy ===== *)
theory World_Facts
  imports Machine
begin

text \<open>
  Rewrite rules for running methods symbolically: what the heap operations change, how a call is
  dispatched once the class of its object is known, and the counters as natural numbers.
\<close>

section \<open>Heap operations\<close>

definition set_refs :: "addr \<Rightarrow> nat \<Rightarrow> ('v, 'u) world \<Rightarrow> ('v, 'u) world" where
  "set_refs a n w = w\<lparr>refs := (refs w)(a := n)\<rparr>"

lemma put_simps [simp]:
  "heap (put a x w) = (heap w)(a \<mapsto> x)" "refs (put a x w) = refs w" "impl (put a x w) = impl w"
  "user (put a x w) = user w" "queues (put a x w) = queues w"
  "next_addr (put a x w) = next_addr w" "next_sid (put a x w) = next_sid w"
  by (simp_all add: put_def)

lemma free_simps [simp]:
  "heap (free a w) = (heap w)(a := None)" "refs (free a w) = refs w" "impl (free a w) = impl w"
  "user (free a w) = user w" "queues (free a w) = queues w"
  "next_addr (free a w) = next_addr w" "next_sid (free a w) = next_sid w"
  by (simp_all add: free_def)

lemma alloc_simps [simp]:
  "heap (alloc x w) = (heap w)(next_addr w \<mapsto> x)" "refs (alloc x w) = refs w"
  "impl (alloc x w) = impl w" "user (alloc x w) = user w" "queues (alloc x w) = queues w"
  "next_addr (alloc x w) = Suc (next_addr w)" "next_sid (alloc x w) = next_sid w"
  by (simp_all add: alloc_def)

lemma new_subscription_state_simps [simp]:
  "heap (new_subscription_state a w) = heap w" "refs (new_subscription_state a w) = refs w"
  "impl (new_subscription_state a w) = (impl w)(next_sid w := Some a)"
  "user (new_subscription_state a w) = user w" "queues (new_subscription_state a w) = queues w"
  "next_addr (new_subscription_state a w) = next_addr w"
  "next_sid (new_subscription_state a w) = Suc (next_sid w)"
  by (simp_all add: new_subscription_state_def)

lemma clear_subscription_simps [simp]:
  "heap (clear_subscription s w) = heap w" "refs (clear_subscription s w) = refs w"
  "impl (clear_subscription s w) = (impl w)(s := None)" "user (clear_subscription s w) = user w"
  "queues (clear_subscription s w) = queues w" "next_addr (clear_subscription s w) = next_addr w"
  "next_sid (clear_subscription s w) = next_sid w"
  by (simp_all add: clear_subscription_def)

lemma share_simps [simp]:
  "heap (share a w) = heap w" "refs (share a w) = (refs w)(a := Suc (refs w a))"
  "impl (share a w) = impl w" "user (share a w) = user w" "queues (share a w) = queues w"
  "next_addr (share a w) = next_addr w" "next_sid (share a w) = next_sid w"
  by (simp_all add: share_def)

lemma set_refs_simps [simp]:
  "heap (set_refs a n w) = heap w" "refs (set_refs a n w) = (refs w)(a := n)"
  "impl (set_refs a n w) = impl w" "user (set_refs a n w) = user w"
  "queues (set_refs a n w) = queues w"
  "next_addr (set_refs a n w) = next_addr w" "next_sid (set_refs a n w) = next_sid w"
  by (simp_all add: set_refs_def)

lemma user_update_same [simp]: "w\<lparr>user := user w\<rparr> = w"
  by simp

lemma put_user [simp]: "(put a x w)\<lparr>user := u\<rparr> = put a x (w\<lparr>user := u\<rparr>)"
  by (simp add: put_def)

lemma put_put [simp]: "put a x (put a y w) = put a x w"
  by (simp add: put_def)

lemma put_same: "heap w a = Some x \<Longrightarrow> put a x w = w"
  by (simp add: put_def fun_upd_idem)

lemma release_last: "refs w a = Suc 0 \<Longrightarrow> release run a w = run (Destroy a) (set_refs a 0 w)"
  by (simp add: release_def set_refs_def)

lemma release_dec: "refs w a = Suc (Suc n) \<Longrightarrow> release run a w = ret (set_refs a (Suc n) w)"
  by (simp add: release_def set_refs_def)

lemma release_opt_simps [simp]:
  "release_opt run None w = ret w" "release_opt run (Some a) w = release run a w"
  by (simp_all add: release_opt_def)

lemma self_live: "refs w a \<noteq> 0 \<Longrightarrow> self a w = ret (share a w)"
  by (simp add: self_def)

lemma has_ended_iff [simp]: "has_ended s w \<longleftrightarrow> impl w s = None"
  by (simp add: has_ended_def)

lemma with_subscription_Some [simp]: "with_subscription (Some s) msg k = k s"
  by (simp add: with_subscription_def)

lemma move_impl_Some [simp]: "move_impl (Some p) = ret p"
  by (simp add: move_impl_def)

lemma Subscription_live:
  "impl w s = Some a \<Longrightarrow> Subscription_Request run s n w = run (Request a n) w"
  "impl w s = Some a \<Longrightarrow> Subscription_Cancel run s w = run (Cancel a) w"
  by (simp_all add: Subscription_Request_def Subscription_Cancel_def)

lemma Subscription_ended:
  "impl w s = None \<Longrightarrow> Subscription_Request run s n w = fail (CheckFailed ended_msg)"
  "impl w s = None \<Longrightarrow> Subscription_Cancel run s w = fail (CheckFailed ended_msg)"
  by (simp_all add: Subscription_Request_def Subscription_Cancel_def)

section \<open>Typed access\<close>

lemma get_simps:
  "heap w a = Some (GeneratingStream g) \<Longrightarrow> get_generating a w = ret g"
  "heap w a = Some (ChainingStream c) \<Longrightarrow> get_chaining a w = ret c"
  "heap w a = Some (PrefetchingStream p) \<Longrightarrow> get_prefetching a w = ret p"
  "heap w a = Some (MergeUpstreamSubscriber mu) \<Longrightarrow> get_merge_upstream a w = ret mu"
  "heap w a = Some (MergeStream m) \<Longrightarrow> get_merge a w = ret m"
  "heap w a = Some (ConcatStream co) \<Longrightarrow> get_concat a w = ret co"
  "heap w a = Some (FlatMapStream f) \<Longrightarrow> get_flatmap a w = ret f"
  "heap w a = Some (AsyncStream s) \<Longrightarrow> get_async a w = ret s"
  by (simp_all add: get_generating_def get_chaining_def get_prefetching_def get_merge_upstream_def
      get_merge_def get_concat_def get_flatmap_def get_async_def)

section \<open>Dispatch\<close>

lemmas dispatch_defs = dispatch_OnSubscribe_def dispatch_OnNext_def dispatch_Request_def
  dispatch_Cancel_def dispatch_Destroy_def dispatch_DoSubscribe_def

lemma exec_OnSubscribe:
  "heap w a = Some (FunctionalSubscriber f g) \<Longrightarrow>
    exec (OnSubscribe a s) w = FunctionalSubscriber_OnSubscribe exec f s w"
  "heap w a = Some (SharedSubscriberWrapper d) \<Longrightarrow>
    exec (OnSubscribe a s) w = SharedSubscriberWrapper_OnSubscribe exec d s w"
  "heap w a = Some (VariantSubscriberWrapper d) \<Longrightarrow>
    exec (OnSubscribe a s) w = VariantSubscriberWrapper_OnSubscribe exec d s w"
  "heap w a = Some (ChainingStream c) \<Longrightarrow> exec (OnSubscribe a s) w = ChainingStream_OnSubscribe exec a s w"
  "heap w a = Some (PrefetchingStream p) \<Longrightarrow>
    exec (OnSubscribe a s) w = PrefetchingStream_OnSubscribe exec a s w"
  "heap w a = Some (MergeUpstreamSubscriber mu) \<Longrightarrow>
    exec (OnSubscribe a s) w = MergeUpstreamSubscriber_OnSubscribe exec a s w"
  "heap w a = Some (ConcatStream co) \<Longrightarrow> exec (OnSubscribe a s) w = ConcatStream_OnSubscribe exec a s w"
  "heap w a = Some (FlatMapStream fm) \<Longrightarrow> exec (OnSubscribe a s) w = FlatMapStream_OnSubscribe exec a s w"
  "heap w a = Some (AsyncStream as) \<Longrightarrow> exec (OnSubscribe a s) w = AsyncStream_OnSubscribe a s w"
  by (simp_all add: exec.simps [of "OnSubscribe a s"] dispatch_def dispatch_defs)

lemma exec_OnNext:
  "heap w a = Some (FunctionalSubscriber f g) \<Longrightarrow>
    exec (OnNext a s e) w = FunctionalSubscriber_OnNext exec a f g s e w"
  "heap w a = Some (SharedSubscriberWrapper d) \<Longrightarrow>
    exec (OnNext a s e) w = SharedSubscriberWrapper_OnNext exec d s e w"
  "heap w a = Some (VariantSubscriberWrapper d) \<Longrightarrow>
    exec (OnNext a s e) w = VariantSubscriberWrapper_OnNext exec d s e w"
  "heap w a = Some (ChainingStream c) \<Longrightarrow> exec (OnNext a s e) w = ChainingStream_OnNext exec a e w"
  "heap w a = Some (PrefetchingStream p) \<Longrightarrow> exec (OnNext a s e) w = PrefetchingStream_OnNext exec a e w"
  "heap w a = Some (MergeUpstreamSubscriber mu) \<Longrightarrow>
    exec (OnNext a s e) w = MergeUpstreamSubscriber_OnNext exec a e w"
  "heap w a = Some (ConcatStream co) \<Longrightarrow> exec (OnNext a s e) w = ConcatStream_OnNext exec a e w"
  "heap w a = Some (FlatMapStream fm) \<Longrightarrow> exec (OnNext a s e) w = FlatMapStream_OnNext exec a e w"
  "heap w a = Some (AsyncStream as) \<Longrightarrow> exec (OnNext a s e) w = AsyncStream_OnNext a e w"
  by (simp_all add: exec.simps [of "OnNext a s e"] dispatch_def dispatch_defs)

lemma exec_Request:
  "heap w a = Some (GeneratingStream g) \<Longrightarrow> exec (Request a n) w = GeneratingStream_Request exec a n w"
  "heap w a = Some (ChainingStream c) \<Longrightarrow> exec (Request a n) w = ChainingStream_Request exec a n w"
  "heap w a = Some (PrefetchingStream p) \<Longrightarrow> exec (Request a n) w = PrefetchingStream_Request exec a n w"
  "heap w a = Some (MergeStream m) \<Longrightarrow> exec (Request a n) w = MergeStream_Request exec a n w"
  "heap w a = Some (ConcatStream co) \<Longrightarrow> exec (Request a n) w = ConcatStream_Request exec a n w"
  "heap w a = Some (FlatMapStream fm) \<Longrightarrow> exec (Request a n) w = FlatMapStream_Request exec a n w"
  "heap w a = Some (AsyncStream as) \<Longrightarrow> exec (Request a n) w = AsyncStream_Request a n w"
  by (simp_all add: exec.simps [of "Request a n"] dispatch_def dispatch_defs)

lemma exec_Cancel:
  "heap w a = Some (GeneratingStream g) \<Longrightarrow> exec (Cancel a) w = GeneratingStream_Cancel exec a w"
  "heap w a = Some (ChainingStream c) \<Longrightarrow> exec (Cancel a) w = ChainingStream_Cancel exec a w"
  "heap w a = Some (PrefetchingStream p) \<Longrightarrow> exec (Cancel a) w = PrefetchingStream_Cancel exec a w"
  "heap w a = Some (MergeStream m) \<Longrightarrow> exec (Cancel a) w = MergeStream_Cancel exec a w"
  "heap w a = Some (ConcatStream co) \<Longrightarrow> exec (Cancel a) w = ConcatStream_Cancel exec a w"
  "heap w a = Some (FlatMapStream fm) \<Longrightarrow> exec (Cancel a) w = FlatMapStream_Cancel exec a w"
  "heap w a = Some (AsyncStream as) \<Longrightarrow> exec (Cancel a) w = AsyncStream_Cancel a w"
  by (simp_all add: exec.simps [of "Cancel a"] dispatch_def dispatch_defs)

lemma exec_Destroy:
  "heap w a = Some (FunctionalSubscriber f h) \<Longrightarrow> exec (Destroy a) w = ret (free a w)"
  "heap w a = Some (SharedSubscriberWrapper d) \<Longrightarrow> exec (Destroy a) w = release exec d (free a w)"
  "heap w a = Some (VariantSubscriberWrapper d) \<Longrightarrow> exec (Destroy a) w = exec (Destroy d) (free a w)"
  "heap w a = Some (GeneratingStream g) \<Longrightarrow> exec (Destroy a) w = GeneratingStream_destroy exec a g w"
  "heap w a = Some (ChainingStream c) \<Longrightarrow> exec (Destroy a) w = ChainingStream_destroy exec a c w"
  "heap w a = Some (PrefetchingStream p) \<Longrightarrow> exec (Destroy a) w = PrefetchingStream_destroy exec a p w"
  "heap w a = Some (MergeUpstreamSubscriber mu) \<Longrightarrow>
    exec (Destroy a) w = MergeUpstreamSubscriber_destroy exec a mu w"
  "heap w a = Some (MergeStream m) \<Longrightarrow> exec (Destroy a) w = MergeStream_destroy exec a m w"
  "heap w a = Some (ConcatStream co) \<Longrightarrow> exec (Destroy a) w = ConcatStream_destroy exec a co w"
  "heap w a = Some (FlatMapStream fm) \<Longrightarrow> exec (Destroy a) w = FlatMapStream_destroy exec a fm w"
  "heap w a = Some (AsyncStream as) \<Longrightarrow> exec (Destroy a) w = AsyncStream_destroy exec a as w"
  by (simp_all add: exec.simps [of "Destroy a"] dispatch_def dispatch_defs)

lemma exec_DoSubscribe:
  "exec (DoSubscribe (GeneratingPublisher st g) a) w = GeneratingPublisher_Subscribe exec st g a w"
  "exec (DoSubscribe (ChainingPublisher b f) a) w = ChainingPublisher_Subscribe exec b f a w"
  "exec (DoSubscribe (PrefetchingPublisher b n m) a) w = PrefetchingPublisher_Subscribe exec b n m a w"
  "exec (DoSubscribe (MergePublisher ps) a) w = MergePublisher_Subscribe exec ps a w"
  "exec (DoSubscribe (MergeUniformPublisher ps) a) w = MergeUniformPublisher_Subscribe exec ps a w"
  "exec (DoSubscribe (ConcatPublisher b c) a) w = ConcatPublisher_Subscribe exec b c a w"
  "exec (DoSubscribe (FlatMapPublisher b k) a) w = FlatMapPublisher_Subscribe exec b k a w"
  "exec (DoSubscribe (AsyncPublisher i j q) a) w = AsyncPublisher_Subscribe i j q a w"
  by (simp_all add: exec.simps [of "DoSubscribe p a" for p] dispatch_def dispatch_defs)

lemma exec_internal:
  "exec (GenerateLoop a) w = GeneratingStream_Generate_loop exec a w"
  "exec (PrefetchDeliverLoop a) w = PrefetchingStream_deliver_loop exec a w"
  "exec (MergeDeliverLoop a) w = MergeStream_deliver_loop exec a w"
  "exec (FlatMapOnSubscribeCont a s) w = FlatMapStream_OnSubscribeCont exec a s w"
  "exec (FlatMapOnNextCont a e) w = FlatMapStream_OnNextCont exec a e w"
  by (subst exec.simps, simp add: dispatch_def)+

section \<open>Counters\<close>

text \<open>
  Below \<open>kMax\<close> a request balance is a natural number.
\<close>

abbreviation pending_limit :: nat where
  "pending_limit \<equiv> 18446744073709551615"

definition counter :: "nat \<Rightarrow> RequestBalance" where
  "counter k = \<lparr>rb_balance = of_nat k\<rparr>"

lemma unat_of_nat_64: "k < 18446744073709551616 \<Longrightarrow> unat (of_nat k :: size_t) = k"
  by (simp add: unat_of_nat)

lemma of_nat_neq_0_64: "0 < k \<Longrightarrow> k < 18446744073709551616 \<Longrightarrow> (of_nat k :: size_t) \<noteq> 0"
  using unat_of_nat_64 [of k] by auto

lemma of_nat_eq_kMax: "k < pending_limit \<Longrightarrow> (of_nat k :: size_t) \<noteq> kMax"
proof
  assume k: "k < pending_limit" and "(of_nat k :: size_t) = kMax"
  then have "unat (of_nat k :: size_t) = 18446744073709551615" by (simp only: unat_kMax) simp
  with k show False by (simp add: unat_of_nat_64)
qed

lemma counter_zero [simp]: "RequestBalance_init = counter 0" "reset b = counter 0"
  by (simp_all add: RequestBalance_init_def counter_def reset_def)

lemma counter_Has: "k < pending_limit \<Longrightarrow> HasRequests (counter k) \<longleftrightarrow> 0 < k"
  by (auto simp: counter_def HasRequests_iff simp flip: unat_eq_0 simp: unat_of_nat_64)

lemma counter_Add: "k + n < pending_limit \<Longrightarrow> Add (counter k) (of_nat n) = counter (k + n)"
  by (simp add: counter_def Add_def saturates_iff unat_of_nat_64)

lemma counter_Remove: "Suc k < pending_limit \<Longrightarrow> Remove (counter (Suc k)) 1 = ret (counter k)"
proof -
  assume k: "Suc k < pending_limit"
  then have "(of_nat (Suc k) :: size_t) \<noteq> 0" using unat_of_nat_64 [of "Suc k"] by auto
  with of_nat_eq_kMax [OF k] show ?thesis by (simp add: counter_def)
qed

lemma counter_balance: "balance (counter k) = of_nat k"
  by (simp add: balance_def counter_def)

end
