(* ===== verification/Contracts.thy ===== *)
theory Contracts
  imports World_Facts
begin

text \<open>
  The contract between a synchronous stream and its subscriber, over the machine \<open>exec\<close>. The
  world is seen as a set of locations (an object with its reference count, a \<open>SubscriptionState\<close>
  cell, the user's state); a contract names the locations its side owns, and everything else is
  framed. The stream side is the locale \<open>passive_stream\<close>: while it delivers an event, a call of
  \<open>Subscription::Request\<close> only raises its pending count. The subscriber side is \<open>start\<close>, \<open>ready\<close>
  and \<open>closing\<close>: what happens on \<open>OnSubscribe\<close>, on the events of a given sequence, and in the
  destructor. A publisher meets \<open>pub_ok\<close> when it delivers its sequence to every such subscriber.
\<close>

section \<open>Locations and frames\<close>

datatype loc = Cell addr | Sub sid | UserState

datatype ('v, 'u) cell_content =
    CellContent "('v, 'u) obj option" nat
  | SubContent "addr option"
  | UserContent 'u

fun content :: "('v, 'u) world \<Rightarrow> loc \<Rightarrow> ('v, 'u) cell_content" where
  "content w (Cell a) = CellContent (heap w a) (refs w a)"
| "content w (Sub s) = SubContent (impl w s)"
| "content w UserState = UserContent (user w)"

definition same_on :: "loc set \<Rightarrow> ('v, 'u) world \<Rightarrow> ('v, 'u) world \<Rightarrow> bool" where
  "same_on L w w' \<longleftrightarrow> (\<forall>l\<in>L. content w' l = content w l)"

definition same_except :: "loc set \<Rightarrow> ('v, 'u) world \<Rightarrow> ('v, 'u) world \<Rightarrow> bool" where
  "same_except L w w' \<longleftrightarrow> (\<forall>l. l \<notin> L \<longrightarrow> content w' l = content w l) \<and> queues w' = queues w
     \<and> next_addr w \<le> next_addr w' \<and> next_sid w \<le> next_sid w'"

text \<open>The locations in use, and the invariant that the others are blank.\<close>

definition old :: "('v, 'u) world \<Rightarrow> loc set" where
  "old w = {l. case l of Cell a \<Rightarrow> a < next_addr w | Sub s \<Rightarrow> s < next_sid w | UserState \<Rightarrow> True}"

definition wf_world :: "('v, 'u) world \<Rightarrow> bool" where
  "wf_world w \<longleftrightarrow> (\<forall>a\<ge>next_addr w. heap w a = None \<and> refs w a = 0) \<and> (\<forall>s\<ge>next_sid w. impl w s = None)"

lemma old_simps [simp]:
  "Cell a \<in> old w \<longleftrightarrow> a < next_addr w" "Sub s \<in> old w \<longleftrightarrow> s < next_sid w" "UserState \<in> old w"
  by (auto simp: old_def)

lemma wf_worldD:
  assumes "wf_world w"
  shows "next_addr w \<le> a \<Longrightarrow> heap w a = None" "next_addr w \<le> a \<Longrightarrow> refs w a = 0"
    "next_sid w \<le> s \<Longrightarrow> impl w s = None"
  using assms by (auto simp: wf_world_def)

lemma same_on_insert [simp]:
  "same_on (insert (Cell a) L) w w' \<longleftrightarrow> heap w' a = heap w a \<and> refs w' a = refs w a \<and> same_on L w w'"
  "same_on (insert (Sub s) L) w w' \<longleftrightarrow> impl w' s = impl w s \<and> same_on L w w'"
  "same_on (insert UserState L) w w' \<longleftrightarrow> user w' = user w \<and> same_on L w w'"
  "same_on {} w w'"
  "same_on (L \<union> M) w w' \<longleftrightarrow> same_on L w w' \<and> same_on M w w'"
  by (auto simp: same_on_def)

lemma same_on_refl [simp]: "same_on L w w"
  by (simp add: same_on_def)

lemma same_on_trans [trans]: "same_on L w w' \<Longrightarrow> same_on L w' w'' \<Longrightarrow> same_on L w w''"
  by (simp add: same_on_def)

lemma same_on_sym: "same_on L w w' \<Longrightarrow> same_on L w' w"
  by (simp add: same_on_def)

lemma same_on_subset: "same_on L w w' \<Longrightarrow> M \<subseteq> L \<Longrightarrow> same_on M w w'"
  by (auto simp: same_on_def)

lemma same_except_refl [simp]: "same_except L w w"
  by (simp add: same_except_def)

lemma same_except_trans [trans]:
  "same_except L w w' \<Longrightarrow> same_except L w' w'' \<Longrightarrow> same_except L w w''"
  by (auto simp: same_except_def)

lemma same_except_mono: "same_except L w w' \<Longrightarrow> L \<subseteq> M \<Longrightarrow> same_except M w w'"
  by (auto simp: same_except_def)

lemma same_except_widen: "same_except L w w' \<Longrightarrow> same_except (L \<union> M) w w'"
  by (auto simp: same_except_def)

lemma same_except_from:
  "same_except L w1 w' \<Longrightarrow> same_except M w w1 \<Longrightarrow> same_except (L \<union> M) w w'"
  by (auto simp: same_except_def)

lemma same_except_same_on: "same_except L w w' \<Longrightarrow> L \<inter> M = {} \<Longrightarrow> same_on M w w'"
  by (auto simp: same_except_def same_on_def)

lemma same_exceptD:
  assumes "same_except L w w'"
  shows "Cell a \<notin> L \<Longrightarrow> heap w' a = heap w a" "Cell a \<notin> L \<Longrightarrow> refs w' a = refs w a"
    "Sub s \<notin> L \<Longrightarrow> impl w' s = impl w s" "UserState \<notin> L \<Longrightarrow> user w' = user w"
    "next_addr w \<le> next_addr w'" "next_sid w \<le> next_sid w'" "queues w' = queues w"
proof -
  have *: "l \<notin> L \<Longrightarrow> content w' l = content w l" for l using assms by (simp add: same_except_def)
  show "Cell a \<notin> L \<Longrightarrow> heap w' a = heap w a" "Cell a \<notin> L \<Longrightarrow> refs w' a = refs w a"
    using * [of "Cell a"] by auto
  show "Sub s \<notin> L \<Longrightarrow> impl w' s = impl w s" using * [of "Sub s"] by auto
  show "UserState \<notin> L \<Longrightarrow> user w' = user w" using * [of UserState] by auto
qed (use assms in \<open>auto simp: same_except_def\<close>)

lemma old_mono:
  "L \<subseteq> old w \<Longrightarrow> next_addr w \<le> next_addr w' \<Longrightarrow> next_sid w \<le> next_sid w' \<Longrightarrow> L \<subseteq> old w'"
  by (fastforce simp: old_def split: loc.splits)

lemma same_except_old: "same_except L w w' \<Longrightarrow> M \<subseteq> old w \<Longrightarrow> M \<subseteq> old w'"
  by (auto simp: same_except_def old_def split: loc.splits)

lemma same_except_shrink:
  assumes "same_except (L \<union> M) w w'" and "same_on M w w'"
  shows "same_except L w w'"
  using assms unfolding same_except_def same_on_def by blast

lemma wf_world_same_except:
  assumes "wf_world w" and "same_except L w w'" and "L \<subseteq> old w"
  shows "wf_world w'"
proof -
  have "Cell a \<notin> L" if "next_addr w' \<le> a" for a
    using that assms(2,3) by (auto simp: same_except_def subset_eq)
  moreover have "Sub s \<notin> L" if "next_sid w' \<le> s" for s
    using that assms(2,3) by (auto simp: same_except_def subset_eq)
  ultimately show ?thesis
    using assms(1) same_exceptD [OF assms(2)] unfolding wf_world_def by (metis order_trans)
qed

text \<open>The frames of the heap operations.\<close>

lemma same_except_alt:
  "same_except L w w' \<longleftrightarrow>
     (\<forall>a. Cell a \<notin> L \<longrightarrow> heap w' a = heap w a \<and> refs w' a = refs w a)
     \<and> (\<forall>s. Sub s \<notin> L \<longrightarrow> impl w' s = impl w s) \<and> (UserState \<notin> L \<longrightarrow> user w' = user w)
     \<and> queues w' = queues w \<and> next_addr w \<le> next_addr w' \<and> next_sid w \<le> next_sid w'"
proof -
  have "(\<forall>l. P l) \<longleftrightarrow> (\<forall>a. P (Cell a)) \<and> (\<forall>s. P (Sub s)) \<and> P UserState" for P
    by (metis loc.exhaust)
  then show ?thesis unfolding same_except_def by auto
qed

lemma same_on_alt:
  "same_on L w w' \<longleftrightarrow>
     (\<forall>a. Cell a \<in> L \<longrightarrow> heap w' a = heap w a \<and> refs w' a = refs w a)
     \<and> (\<forall>s. Sub s \<in> L \<longrightarrow> impl w' s = impl w s) \<and> (UserState \<in> L \<longrightarrow> user w' = user w)"
proof -
  have "(\<forall>l. P l) \<longleftrightarrow> (\<forall>a. P (Cell a)) \<and> (\<forall>s. P (Sub s)) \<and> P UserState" for P
    by (metis loc.exhaust)
  then show ?thesis unfolding same_on_def Ball_def by auto
qed

lemma same_except_ops [simp]:
  "same_except L w w1 \<Longrightarrow> Cell a \<in> L \<Longrightarrow> same_except L w (put a x w1)"
  "same_except L w w1 \<Longrightarrow> Cell a \<in> L \<Longrightarrow> same_except L w (free a w1)"
  "same_except L w w1 \<Longrightarrow> Cell a \<in> L \<Longrightarrow> same_except L w (share a w1)"
  "same_except L w w1 \<Longrightarrow> Cell a \<in> L \<Longrightarrow> same_except L w (set_refs a n w1)"
  "same_except L w w1 \<Longrightarrow> Cell (next_addr w1) \<in> L \<Longrightarrow> same_except L w (alloc x w1)"
  "same_except L w w1 \<Longrightarrow> Sub (next_sid w1) \<in> L \<Longrightarrow> same_except L w (new_subscription_state a w1)"
  "same_except L w w1 \<Longrightarrow> Sub s \<in> L \<Longrightarrow> same_except L w (clear_subscription s w1)"
  "same_except L w w1 \<Longrightarrow> UserState \<in> L \<Longrightarrow> same_except L w (w1\<lparr>user := u\<rparr>)"
  by (auto simp: same_except_alt)

lemma same_on_ops [simp]:
  "Cell a \<notin> L \<Longrightarrow> same_on L w (put a x w1) \<longleftrightarrow> same_on L w w1"
  "Cell a \<notin> L \<Longrightarrow> same_on L w (free a w1) \<longleftrightarrow> same_on L w w1"
  "Cell a \<notin> L \<Longrightarrow> same_on L w (share a w1) \<longleftrightarrow> same_on L w w1"
  "Cell a \<notin> L \<Longrightarrow> same_on L w (set_refs a n w1) \<longleftrightarrow> same_on L w w1"
  "Cell (next_addr w1) \<notin> L \<Longrightarrow> same_on L w (alloc x w1) \<longleftrightarrow> same_on L w w1"
  "Sub (next_sid w1) \<notin> L \<Longrightarrow> same_on L w (new_subscription_state a w1) \<longleftrightarrow> same_on L w w1"
  "Sub s \<notin> L \<Longrightarrow> same_on L w (clear_subscription s w1) \<longleftrightarrow> same_on L w w1"
  "UserState \<notin> L \<Longrightarrow> same_on L w (w1\<lparr>user := u\<rparr>) \<longleftrightarrow> same_on L w w1"
  by (auto simp: same_on_alt) metis+

lemma old_ops [simp]:
  "old (put a x w) = old w" "old (free a w) = old w" "old (share a w) = old w"
  "old (set_refs a n w) = old w" "old (clear_subscription s w) = old w" "old (w\<lparr>user := u\<rparr>) = old w"
  "old (alloc x w) = insert (Cell (next_addr w)) (old w)"
  "old (new_subscription_state a w) = insert (Sub (next_sid w)) (old w)"
  by (auto simp: old_def split: loc.splits)

lemma wf_world_ops [simp]:
  assumes "wf_world w"
  shows "a < next_addr w \<Longrightarrow> wf_world (put a x w)" "wf_world (free a w)"
    "a < next_addr w \<Longrightarrow> wf_world (share a w)" "a < next_addr w \<Longrightarrow> wf_world (set_refs a n w)"
    "wf_world (clear_subscription s w)" "wf_world (w\<lparr>user := u\<rparr>)" "wf_world (alloc x w)"
    "wf_world (new_subscription_state a w)"
  using assms by (auto simp: wf_world_def)

text \<open>A new object may be blanked again at the end: its location is fresh.\<close>

lemma fresh_not_in: "L \<subseteq> old w \<Longrightarrow> next_addr w \<le> a \<Longrightarrow> Cell a \<notin> L"
  "L \<subseteq> old w \<Longrightarrow> next_sid w \<le> s \<Longrightarrow> Sub s \<notin> L"
  by auto

section \<open>The stream side\<close>

text \<open>
  \<open>Up k\<close> says that the stream behind subscription \<open>s\<close>, which owns the locations \<open>U\<close>, is delivering
  an event and has \<open>k\<close> more pending. Requests made meanwhile, up to \<open>B\<close> pending events, add up and
  have no other effect.
\<close>

locale passive_stream =
  fixes s :: sid and U :: "loc set" and Up :: "nat \<Rightarrow> ('v, 'u) world \<Rightarrow> bool" and B :: nat
  assumes stable: "Up k w \<Longrightarrow> same_on U w w' \<Longrightarrow> Up k w'"
    and live: "Up k w \<Longrightarrow> impl w s \<noteq> None"
    and request: "Up k w \<Longrightarrow> 0 < n \<Longrightarrow> k + n \<le> B \<Longrightarrow>
      \<exists>w'. Subscription_Request exec s (of_nat n) w = ret w' \<and> Up (k + n) w' \<and> same_except U w w'"
begin

lemma stable_except: "Up k w \<Longrightarrow> same_except L w w' \<Longrightarrow> L \<inter> U = {} \<Longrightarrow> Up k w'"
  using stable same_except_same_on by blast

lemma request_twice:
  assumes "Up k w" and "0 < m" and "0 < n" and "k + m + n \<le> B"
  shows "\<exists>w'. bnd (Subscription_Request exec s (of_nat m) w) (Subscription_Request exec s (of_nat n)) = ret w'
    \<and> Up (k + m + n) w' \<and> same_except U w w'"
proof -
  obtain w1 where 1: "Subscription_Request exec s (of_nat m) w = ret w1" "Up (k + m) w1" "same_except U w w1"
    using request [OF assms(1,2)] assms(4) by auto
  obtain w2 where 2: "Subscription_Request exec s (of_nat n) w1 = ret w2" "Up (k + m + n) w2"
    "same_except U w1 w2"
    using request [OF 1(2) assms(3,4)] by auto
  from 1 2 show ?thesis by (auto intro: same_except_trans)
qed

end

lemma passive_stream_mono:
  assumes "passive_stream s U Up B" and "B' \<le> B"
  shows "passive_stream s U Up B'"
  using assms unfolding passive_stream_def by (meson order_trans)

section \<open>The subscriber side\<close>

definition closing ::
  "addr \<Rightarrow> loc set \<Rightarrow> (('v, 'u) world \<Rightarrow> bool) \<Rightarrow> ('v, 'u) world \<Rightarrow> bool" where
  "closing d L Q w \<longleftrightarrow> (\<forall>w'. same_on L w w' \<and> wf_world w' \<and> L \<subseteq> old w' \<longrightarrow>
     (\<exists>w''. exec (Destroy d) w' = ret w'' \<and> same_except L w' w'' \<and> Q w''))"

text \<open>
  The situations in which the subscriber, set up as in \<open>w\<close>, may receive an event: nothing it owns
  has changed, and the stream is delivering with \<open>k\<close> more events pending.
\<close>

definition delivering ::
  "sid \<Rightarrow> loc set \<Rightarrow> loc set \<Rightarrow> (nat \<Rightarrow> ('v, 'u) world \<Rightarrow> bool) \<Rightarrow> nat \<Rightarrow> nat
    \<Rightarrow> ('v, 'u) world \<Rightarrow> ('v, 'u) world \<Rightarrow> bool" where
  "delivering s L U Up K k w w' \<longleftrightarrow> same_on L w w' \<and> wf_world w' \<and> L \<union> U \<subseteq> old w' \<and> L \<inter> U = {}
     \<and> passive_stream s U Up K \<and> Up k w'"

text \<open>
  A subscriber with \<open>j + 1\<close> events pending, at most \<open>K\<close>: the next one leaves \<open>j\<close>. It always keeps
  at least one event pending until the terminal one, after the events \<open>vs\<close> and the terminal status
  \<open>t\<close> it is only to be destroyed, and then \<open>Q\<close> holds.
\<close>

primrec ready ::
  "addr \<Rightarrow> sid \<Rightarrow> loc set \<Rightarrow> nat \<Rightarrow> (('v, 'u) world \<Rightarrow> bool) \<Rightarrow> Status \<Rightarrow> 'v val list
    \<Rightarrow> nat \<Rightarrow> ('v, 'u) world \<Rightarrow> bool" where
  "ready d s L K Q t [] j w \<longleftrightarrow> j < K \<and>
     (\<forall>w' U Up. delivering s L U Up K j w w' \<longrightarrow>
       (\<exists>w'' j'. exec (OnNext d s (StatusRepr t)) w' = ret w'' \<and> same_except (L \<union> U) w' w''
         \<and> Up j' w'' \<and> closing d L Q w''))"
| "ready d s L K Q t (v # vs) j w \<longleftrightarrow> j < K \<and>
     (\<forall>w' U Up. delivering s L U Up K j w w' \<longrightarrow>
       (\<exists>w'' j'. exec (OnNext d s (ValueRepr v)) w' = ret w'' \<and> same_except (L \<union> U) w' w''
         \<and> Up (Suc j') w'' \<and> ready d s L K Q t vs j' w''))"

text \<open>
  On \<open>OnSubscribe\<close> a subscriber ends with its first request, which may already run the whole stream.
\<close>

definition start ::
  "addr \<Rightarrow> loc set \<Rightarrow> nat \<Rightarrow> (('v, 'u) world \<Rightarrow> bool) \<Rightarrow> Status \<Rightarrow> 'v val list
    \<Rightarrow> ('v, 'u) world \<Rightarrow> bool" where
  "start d L K Q t vs w \<longleftrightarrow>
     (\<forall>w' s. same_on L w w' \<and> wf_world w' \<and> insert (Sub s) L \<subseteq> old w' \<and> Sub s \<notin> L
         \<and> impl w' s \<noteq> None \<longrightarrow>
       (\<exists>j w''. same_except L w' w'' \<and> ready d s L K Q t vs j w''
         \<and> exec (OnSubscribe d s) w' = Subscription_Request exec s (of_nat (Suc j)) w''))"

definition stable_on :: "loc set \<Rightarrow> (('v, 'u) world \<Rightarrow> bool) \<Rightarrow> bool" where
  "stable_on L Q \<longleftrightarrow> (\<forall>w w'. Q w \<longrightarrow> same_on L w w' \<longrightarrow> Q w')"

definition pub_ok :: "nat \<Rightarrow> ('v, 'u) pub \<Rightarrow> Status \<Rightarrow> 'v val list \<Rightarrow> bool" where
  "pub_ok K p t vs \<longleftrightarrow>
     (\<forall>d L Q w. wf_world w \<and> L \<subseteq> old w \<and> stable_on L Q
         \<and> start d L K Q t vs w \<longrightarrow>
       (\<exists>w'. exec (DoSubscribe p d) w = ret w' \<and> same_except L w w' \<and> Q w'))"

lemma stable_onD: "stable_on L Q \<Longrightarrow> Q w \<Longrightarrow> same_on L w w' \<Longrightarrow> Q w'"
  by (auto simp: stable_on_def)

text \<open>The post-condition that an object and its subscription, and what \<open>Q\<close> says, are gone.\<close>

lemma stable_on_blank:
  "stable_on L Q \<Longrightarrow> stable_on (L \<union> {Cell a, Sub s})
    (\<lambda>w. Q w \<and> heap w a = None \<and> refs w a = 0 \<and> impl w s = None)"
  by (auto simp: stable_on_def)

lemma closing_stable: "closing d L Q w \<Longrightarrow> same_on L w w' \<Longrightarrow> closing d L Q w'"
  unfolding closing_def by (meson same_on_trans)

lemma delivering_stable: "delivering s L U Up K k w' w'' \<Longrightarrow> same_on L w w' \<Longrightarrow> delivering s L U Up K k w w''"
  unfolding delivering_def by (meson same_on_trans)

lemma delivering_after:
  assumes "delivering s L U Up K k w w'" and "same_except (L \<union> U) w' w''"
  shows "wf_world w''" and "L \<union> U \<subseteq> old w''" and "L \<subseteq> old w''" and "U \<subseteq> old w''"
  using assms wf_world_same_except [of w' "L \<union> U" w''] same_except_old [of "L \<union> U" w' w'' "L \<union> U"]
  unfolding delivering_def by simp_all

lemma delivering_again:
  assumes "delivering s L U Up K k w w'" and "same_except (L \<union> U) w' w''" and "Up k' w''"
  shows "delivering s L U Up K k' w'' w''"
  using assms delivering_after [OF assms(1,2)] by (simp add: delivering_def)

lemma ready_stable: "ready d s L K Q t vs k w \<Longrightarrow> same_on L w w' \<Longrightarrow> ready d s L K Q t vs k w'"
  by (cases vs) (auto dest: delivering_stable)

lemma start_stable: "start d L K Q t vs w \<Longrightarrow> same_on L w w' \<Longrightarrow> start d L K Q t vs w'"
  unfolding start_def by (meson same_on_trans)

lemma closingD:
  assumes "closing d L Q w" and "wf_world w" and "L \<subseteq> old w"
  obtains w' where "exec (Destroy d) w = ret w'" and "same_except L w w'" and "Q w'"
  using assms unfolding closing_def by (meson same_on_refl)

lemma ready_less: "ready d s L K Q t vs j w \<Longrightarrow> j < K"
  by (cases vs) auto

lemma ready_NilD:
  assumes "ready d s L K Q t [] j w" and "delivering s L U Up K j w w'"
  obtains w'' j' where "exec (OnNext d s (StatusRepr t)) w' = ret w''" and "same_except (L \<union> U) w' w''"
    and "Up j' w''" and "closing d L Q w''"
  using assms unfolding ready.simps by blast

lemma ready_ConsD:
  assumes "ready d s L K Q t (v # vs) j w" and "delivering s L U Up K j w w'"
  obtains w'' j' where "exec (OnNext d s (ValueRepr v)) w' = ret w''" and "same_except (L \<union> U) w' w''"
    and "Up (Suc j') w''" and "ready d s L K Q t vs j' w''"
  using assms unfolding ready.simps by blast

lemma startD:
  assumes "start d L K Q t vs w" and "same_on L w w'" and "wf_world w'" and "insert (Sub s) L \<subseteq> old w'"
    and "Sub s \<notin> L" and "impl w' s \<noteq> None"
  obtains j w'' where "same_except L w' w''" and "ready d s L K Q t vs j w''"
    and "exec (OnSubscribe d s) w' = Subscription_Request exec s (of_nat (Suc j)) w''"
  using assms unfolding start_def by blast

lemma pub_okD:
  assumes "pub_ok K p t vs" and "wf_world w" and "L \<subseteq> old w"
    and "stable_on L Q" and "start d L K Q t vs w"
  obtains w' where "exec (DoSubscribe p d) w = ret w'" and "same_except L w w'" and "Q w'"
  using assms unfolding pub_ok_def by blast

text \<open>
  A publisher that allocates a stream and subscribes it to another publisher: what is left to show is
  that the stream is a subscriber of the other publisher's events.
\<close>

lemma new_stream_pub_ok:
  fixes w :: "('v, 'u) world"
  defines "a \<equiv> next_addr w" and "s \<equiv> next_sid w"
  assumes base: "pub_ok B p t vs" and wf: "wf_world w" and L: "L \<subseteq> old w" and Q: "stable_on L Q"
    and w1: "w1 = new_subscription_state a (alloc x w)"
    and st: "start a (L \<union> {Cell a, Sub s}) B
      (\<lambda>w. Q w \<and> heap w a = None \<and> refs w a = 0 \<and> impl w s = None) t vs w1"
  shows "\<exists>w'. exec (DoSubscribe p a) w1 = ret w' \<and> same_except L w w' \<and> Q w'"
proof -
  have w1': "wf_world w1" "L \<union> {Cell a, Sub s} \<subseteq> old w1" "same_except (L \<union> {Cell a, Sub s}) w w1"
    using wf L by (auto simp: w1 a_def s_def)
  obtain w5 where 5: "exec (DoSubscribe p a) w1 = ret w5" "same_except (L \<union> {Cell a, Sub s}) w1 w5"
    "Q w5 \<and> heap w5 a = None \<and> refs w5 a = 0 \<and> impl w5 s = None"
    by (rule pub_okD [OF base w1'(1,2) stable_on_blank [OF Q] st])
  have "same_except L w w5"
  proof (rule same_except_shrink [of L "{Cell a, Sub s}"])
    show "same_except (L \<union> {Cell a, Sub s}) w w5" using w1'(3) 5(2) by (rule same_except_trans)
    show "same_on {Cell a, Sub s} w w5" using 5(3) wf by (simp add: wf_worldD a_def s_def)
  qed
  with 5 show ?thesis by blast
qed

section \<open>Wrappers of shared subscribers\<close>

definition wrapper_at :: "addr \<Rightarrow> addr \<Rightarrow> ('v, 'u) world \<Rightarrow> bool" where
  "wrapper_at e c w \<longleftrightarrow> heap w e = Some (SharedSubscriberWrapper c) \<and> refs w e = 0"

lemma wrapper_at_same_on: "wrapper_at e c w \<Longrightarrow> same_on L w w' \<Longrightarrow> Cell e \<in> L \<Longrightarrow> wrapper_at e c w'"
  by (auto simp: wrapper_at_def same_on_alt)

lemma wrapper_at_same_except:
  "wrapper_at e c w \<Longrightarrow> same_except L w w' \<Longrightarrow> Cell e \<notin> L \<Longrightarrow> wrapper_at e c w'"
  by (auto simp: wrapper_at_def same_except_alt)

end
