(* ===== verification/Generating_Contract.thy ===== *)
theory Generating_Contract
  imports Contracts
begin

text \<open>
  \<open>GeneratingStream\<close> meets the stream contract: while it generates, requests only raise the count
  of requested events, and the loop of \<open>Generate\<close> delivers the events of its generator in order,
  then destroys the stream and its subscriber.
\<close>

section \<open>The events of a generator\<close>

text \<open>
  The generator \<open>g\<close>, from state \<open>st\<close> on, returns the values \<open>vs\<close> and then the terminal status \<open>t\<close>,
  whatever the user's state, which it leaves alone.
\<close>

inductive gen_emits :: "('v, 'u) generator \<Rightarrow> 'v val \<Rightarrow> 'v val list \<Rightarrow> Status \<Rightarrow> bool"
  for g where
  last: "(\<And>u. g st u = (StatusRepr t, st' u, u)) \<Longrightarrow> code t \<noteq> OK \<Longrightarrow> gen_emits g st [] t"
| more: "(\<And>u. g st u = (ValueRepr v, st', u)) \<Longrightarrow> gen_emits g st' vs t \<Longrightarrow> gen_emits g st (v # vs) t"

lemma gen_emits_value_generator:
  fixes xs :: "'v val list"
  defines "g \<equiv> (value_generator xs :: ('v, 'u) generator)"
  assumes "length xs < 2 ^ 64" and "i \<le> length xs"
  shows "gen_emits g (SizeVal (of_nat i)) (drop i xs) Done"
  using assms(3)
proof (induction "length xs - i" arbitrary: i)
  case 0
  then have "i = length xs" by simp
  with assms(2) have "g (SizeVal (of_nat i)) u = (StatusRepr Done, SizeVal (of_nat i), u)" for u
    by (simp add: g_def unat_of_nat_64)
  then show ?case using \<open>i = length xs\<close> by (auto intro: gen_emits.last)
next
  case (Suc n)
  then have i: "i < length xs" by simp
  have "g (SizeVal (of_nat i)) u = (ValueRepr (xs ! i), SizeVal (of_nat (Suc i)), u)" for u
    using i assms(2) by (simp add: g_def unat_of_nat_64)
  moreover have "gen_emits g (SizeVal (of_nat (Suc i))) (drop (Suc i) xs) Done"
    using Suc.hyps(2) i by (intro Suc.hyps(1)) linarith+
  ultimately show ?case using i by (subst Cons_nth_drop_Suc [symmetric]) (auto intro: gen_emits.more)
qed

section \<open>The stream while it generates\<close>

definition generating_up ::
  "addr \<Rightarrow> sid \<Rightarrow> ('v, 'u) generator \<Rightarrow> 'v val \<Rightarrow> addr \<Rightarrow> nat \<Rightarrow> ('v, 'u) world \<Rightarrow> bool" where
  "generating_up a s g st d k w \<longleftrightarrow>
     heap w a = Some (GeneratingStream \<lparr>gs_generator = g, gs_state = st, gs_subscriber = d,
       gs_requested = counter k, gs_generating = True, gs_sid = s\<rparr>)
     \<and> refs w a = 0 \<and> impl w s = Some a"

interpretation generating: passive_stream s "{Cell a, Sub s}" "generating_up a s g st d" "pending_limit - 1"
  for a s g st d
proof (unfold_locales, goal_cases)
  case (1 k w w')
  then show ?case by (simp add: generating_up_def)
next
  case (2 k w)
  then show ?case by (simp add: generating_up_def)
next
  case (3 k w n)
  let ?w' = "put a (GeneratingStream \<lparr>gs_generator = g, gs_state = st, gs_subscriber = d,
       gs_requested = counter (k + n), gs_generating = True, gs_sid = s\<rparr>) w"
  have "Subscription_Request exec s (of_nat n) w = ret ?w'"
    using 3 by (simp add: generating_up_def Subscription_live exec_Request GeneratingStream_Request_def
        get_simps counter_Add)
  then show ?case using 3 by (auto simp: generating_up_def)
qed

section \<open>The loop\<close>

lemma generate_loop:
  assumes "gen_emits g st vs t" and "generating_up a s g st d (Suc j) w"
    and "ready d s L K Q t vs j w" and "wf_world w" and "L \<union> {Cell a, Sub s} \<subseteq> old w"
    and "L \<inter> {Cell a, Sub s} = {}" and "K < pending_limit"
  shows "\<exists>w'. exec (GenerateLoop a) w = ret w' \<and> same_except (L \<union> {Cell a, Sub s}) w w'
    \<and> heap w' a = None \<and> refs w' a = 0 \<and> impl w' s = None \<and> Q w'"
  using assms(1-6)
proof (induction arbitrary: j w)
  case (last st t st')
  define w1 where "w1 = put a (GeneratingStream \<lparr>gs_generator = g, gs_state = st' (user w), gs_subscriber = d,
       gs_requested = counter j, gs_generating = True, gs_sid = s\<rparr>) w"
  have j: "Suc j < pending_limit" using ready_less [OF last.prems(2)] assms(7) by simp
  have w1: "delivering s L {Cell a, Sub s} (generating_up a s g (st' (user w)) d) K j w w1"
    using last.prems passive_stream_mono [OF generating.passive_stream_axioms, of K] assms(7)
    by (auto simp: delivering_def w1_def generating_up_def)
  obtain w2 j' where 2: "exec (OnNext d s (StatusRepr t)) w1 = ret w2"
    "same_except (L \<union> {Cell a, Sub s}) w1 w2" "generating_up a s g (st' (user w)) d j' w2" "closing d L Q w2"
    by (rule ready_NilD [OF last.prems(2) w1])
  have wf2: "wf_world w2" "L \<union> {Cell a, Sub s} \<subseteq> old w2"
    using delivering_after [OF w1 2(2)] by auto
  have "exec (Destroy a) w2 = exec (Destroy d) (free a (clear_subscription s w2))"
    using 2(3) by (simp add: generating_up_def exec_Destroy GeneratingStream_destroy_def)
  moreover have "closing d L Q (free a (clear_subscription s w2))"
    using last.prems(5) by (intro closing_stable [OF 2(4)]) auto
  moreover have "wf_world (free a (clear_subscription s w2))" using wf2 by simp
  ultimately obtain w3 where 3: "exec (Destroy a) w2 = ret w3"
    "same_except L (free a (clear_subscription s w2)) w3" "Q w3"
    using closingD [of d L Q "free a (clear_subscription s w2)"] wf2 by auto
  have "exec (GenerateLoop a) w = ret w3"
    using last 2(1,3) 3(1) j
    by (simp add: exec_internal GeneratingStream_Generate_loop_def generating_up_def get_simps
        counter_Has counter_Remove w1_def cong: bnd_weak_cong)
  moreover have "same_except (L \<union> {Cell a, Sub s}) w w3"
  proof -
    have "same_except (L \<union> {Cell a, Sub s}) w (free a (clear_subscription s w2))"
      using same_except_trans [OF _ 2(2), of w] by (simp add: w1_def)
    with same_except_mono [OF 3(2)] show ?thesis by (blast intro: same_except_trans)
  qed
  moreover have "heap w3 a = None" "refs w3 a = 0" "impl w3 s = None"
    using same_exceptD [OF 3(2)] 2(3) last.prems(5) by (auto simp: generating_up_def)
  ultimately show ?case using 3(3) by blast
next
  case (more st v st' vs t)
  define w1 where "w1 = put a (GeneratingStream \<lparr>gs_generator = g, gs_state = st', gs_subscriber = d,
       gs_requested = counter j, gs_generating = True, gs_sid = s\<rparr>) w"
  have j: "Suc j < pending_limit" using ready_less [OF more.prems(2)] assms(7) by simp
  have w1: "delivering s L {Cell a, Sub s} (generating_up a s g st' d) K j w w1"
    using more.prems passive_stream_mono [OF generating.passive_stream_axioms, of K] assms(7)
    by (auto simp: delivering_def w1_def generating_up_def)
  obtain w2 j' where 2: "exec (OnNext d s (ValueRepr v)) w1 = ret w2"
    "same_except (L \<union> {Cell a, Sub s}) w1 w2" "generating_up a s g st' d (Suc j') w2"
    "ready d s L K Q t vs j' w2"
    by (rule ready_ConsD [OF more.prems(2) w1])
  have wf2: "wf_world w2" "L \<union> {Cell a, Sub s} \<subseteq> old w2"
    using delivering_after [OF w1 2(2)] by auto
  from more.IH [OF 2(3,4) wf2 more.prems(5)] obtain w3 where 3: "exec (GenerateLoop a) w2 = ret w3"
    "same_except (L \<union> {Cell a, Sub s}) w2 w3" "heap w3 a = None" "refs w3 a = 0" "impl w3 s = None" "Q w3"
    by blast
  have "exec (GenerateLoop a) w = ret w3"
    using more(1) more.prems 2(1,3) 3(1) j
    by (simp add: exec_internal(1) [of a w] GeneratingStream_Generate_loop_def generating_up_def get_simps
        counter_Has counter_Remove w1_def cong: bnd_weak_cong)
  moreover have "same_except (L \<union> {Cell a, Sub s}) w w3"
    using same_except_trans [OF _ same_except_trans [OF 2(2) 3(2)], of w] by (simp add: w1_def)
  ultimately show ?case using 3 by blast
qed

section \<open>The publisher\<close>

lemma generating_pub_ok:
  assumes "gen_emits g st vs t" and "K < pending_limit"
  shows "pub_ok K (GeneratingPublisher st g) t vs"
  unfolding pub_ok_def
proof (intro allI impI, elim conjE)
  fix d L Q and w :: "('a, 'b) world"
  assume wf: "wf_world w" and L: "L \<subseteq> old w" and Q: "stable_on L Q"
    and start: "start d L K Q t vs w"
  let ?a = "next_addr w" and ?s = "next_sid w"
  let ?g = "\<lambda>k b. GeneratingStream \<lparr>gs_generator = g, gs_state = st, gs_subscriber = d,
       gs_requested = counter k, gs_generating = b, gs_sid = ?s\<rparr>"
  define w1 where "w1 = new_subscription_state ?a (alloc (?g 0 False) w)"
  have fresh: "Cell ?a \<notin> L" "Sub ?s \<notin> L" using L by (auto dest: fresh_not_in)
  have w1: "same_on L w w1" "wf_world w1" "insert (Sub ?s) L \<subseteq> old w1"
    using wf L fresh by (auto simp: w1_def)
  obtain j w2 where 2: "same_except L w1 w2" "ready d ?s L K Q t vs j w2"
    "exec (OnSubscribe d ?s) w1 = Subscription_Request exec ?s (of_nat (Suc j)) w2"
    by (rule startD [OF start w1 fresh(2)]) (simp add: w1_def)
  have j: "Suc j < pending_limit" using ready_less [OF 2(2)] assms(2) by simp
  define w3 where "w3 = put ?a (?g (Suc j) True) w2"
  have at2: "heap w2 ?a = Some (?g 0 False)" "impl w2 ?s = Some ?a" "refs w2 ?a = 0"
    using same_exceptD [OF 2(1)] fresh wf by (auto simp: w1_def wf_worldD)
  have wf2: "wf_world w2" "L \<union> {Cell ?a, Sub ?s} \<subseteq> old w2"
    using wf_world_same_except [OF w1(2) 2(1)] same_except_old [OF 2(1), of "L \<union> {Cell ?a, Sub ?s}"] w1 L
    by (auto simp: w1_def)
  have add: "Add (counter 0) (of_nat (Suc j)) = counter (Suc j)" using counter_Add [of 0 "Suc j"] j by simp
  have "exec (DoSubscribe (GeneratingPublisher st g) d) w = exec (GenerateLoop ?a) w3"
    using 2(3) at2 add
    by (simp add: exec_DoSubscribe GeneratingPublisher_Subscribe_def GeneratingStream_new_def Let_def
        w1_def w3_def Subscription_live exec_Request GeneratingStream_Request_def get_simps
        GeneratingStream_Generate_def put_def del: of_nat_Suc)
  moreover have "\<exists>w4. exec (GenerateLoop ?a) w3 = ret w4 \<and> same_except (L \<union> {Cell ?a, Sub ?s}) w3 w4
    \<and> heap w4 ?a = None \<and> refs w4 ?a = 0 \<and> impl w4 ?s = None \<and> Q w4"
  proof (rule generate_loop [OF assms(1)])
    show "generating_up ?a ?s g st d (Suc j) w3" using at2 by (simp add: generating_up_def w3_def)
    show "ready d ?s L K Q t vs j w3" using ready_stable [OF 2(2)] fresh by (simp add: w3_def)
    show "wf_world w3" "L \<union> {Cell ?a, Sub ?s} \<subseteq> old w3" using wf2 by (simp_all add: w3_def)
  qed (use fresh assms(2) in auto)
  then obtain w4 where 4: "exec (GenerateLoop ?a) w3 = ret w4"
    "same_except (L \<union> {Cell ?a, Sub ?s}) w3 w4"
    "heap w4 ?a = None" "refs w4 ?a = 0" "impl w4 ?s = None" "Q w4" by blast
  moreover have "same_except L w w4"
  proof (rule same_except_shrink [of L "{Cell ?a, Sub ?s}"])
    have "same_except (L \<union> {Cell ?a, Sub ?s}) w w1" by (simp add: w1_def)
    also have "same_except (L \<union> {Cell ?a, Sub ?s}) w1 w3"
      using same_except_mono [OF 2(1), of "L \<union> {Cell ?a, Sub ?s}"] by (simp add: w3_def subset_iff)
    also note 4(2)
    finally show "same_except (L \<union> {Cell ?a, Sub ?s}) w w4" .
    show "same_on {Cell ?a, Sub ?s} w w4" using 4 wf by (simp add: wf_worldD)
  qed
  ultimately show "\<exists>w'. exec (DoSubscribe (GeneratingPublisher st g) d) w = ret w' \<and> same_except L w w' \<and> Q w'"
    by auto
qed

end
