(* ===== verification/Chaining_Contract.thy ===== *)
theory Chaining_Contract
  imports Contracts
begin

text \<open>
  \<open>ChainingStream\<close> meets the contract on both sides: towards its downstream it is a passive stream
  when its upstream is one, with every pending event of the downstream worth \<open>m\<close> events of the
  upstream (\<open>m\<close> is 1 for \<open>Map\<close> and \<open>StaticCast\<close>, the chunk size for \<open>Buffer\<close>); towards its
  upstream it is a subscriber that is ready when its own subscriber is.
\<close>

section \<open>The stream as its subscriber sees it\<close>

definition chain_at ::
  "addr \<Rightarrow> sid \<Rightarrow> addr \<Rightarrow> ('v, 'u) chain_fn \<Rightarrow> sid option \<Rightarrow> ('v, 'u) world \<Rightarrow> bool" where
  "chain_at a s' d f b w \<longleftrightarrow>
     heap w a = Some (ChainingStream \<lparr>cs_func = f, cs_subscriber = d, cs_sid = s', cs_base_subscription = b\<rparr>)
     \<and> refs w a = 0 \<and> impl w s' = Some a"

definition chain_up ::
  "addr \<Rightarrow> sid \<Rightarrow> addr \<Rightarrow> ('v, 'u) chain_fn \<Rightarrow> sid \<Rightarrow> nat \<Rightarrow> nat \<Rightarrow> (nat \<Rightarrow> ('v, 'u) world \<Rightarrow> bool)
    \<Rightarrow> nat \<Rightarrow> ('v, 'u) world \<Rightarrow> bool" where
  "chain_up a s' d f s m c Up k w \<longleftrightarrow> Up (m * k + c) w \<and> chain_at a s' d f (Some s) w"

lemma chain_at_same_on:
  "chain_at a s' d f b w \<Longrightarrow> same_on L w w' \<Longrightarrow> Cell a \<in> L \<Longrightarrow> Sub s' \<in> L \<Longrightarrow> chain_at a s' d f b w'"
  by (auto simp: chain_at_def same_on_alt)

lemma chain_at_delivering:
  "chain_at a s' d f b w \<Longrightarrow> delivering s (L \<union> {Cell a, Sub s'}) U Up K j w w' \<Longrightarrow> chain_at a s' d f b w'"
  by (simp add: chain_at_def delivering_def)

lemma chain_passive:
  assumes up: "passive_stream s U Up B" and own: "Cell a \<notin> U" "Sub s' \<notin> U"
    and m: "0 < m" "m * K + c \<le> B" and req: "\<And>n. request_mapping f (of_nat n) = of_nat (m * n)"
  shows "passive_stream s' (U \<union> {Cell a, Sub s'}) (chain_up a s' d f s m c Up) K"
proof (unfold_locales, goal_cases)
  case (1 k w w')
  then show ?case
    using passive_stream.stable [OF up] by (auto simp: chain_up_def chain_at_def)
next
  case (2 k w)
  then show ?case by (simp add: chain_up_def chain_at_def)
next
  case (3 k w n)
  have "m * (k + n) \<le> m * K" using 3(3) by (rule mult_le_mono2)
  then have "m * k + c + m * n \<le> B" using m(2) by (simp add: algebra_simps)
  then obtain w' where w': "Subscription_Request exec s (of_nat (m * n)) w = ret w'"
    "Up (m * k + c + m * n) w'" "same_except U w w'"
    using passive_stream.request [OF up, of "m * k + c" w "m * n"] 3 m(1) by (auto simp: chain_up_def)
  have "Subscription_Request exec s' (of_nat n) w = ret w'"
    using 3(1) w'(1) req [of n]
    by (simp add: chain_up_def chain_at_def Subscription_live exec_Request ChainingStream_Request_def get_simps)
  moreover have "chain_at a s' d f (Some s) w'"
    using 3(1) same_exceptD [OF w'(3)] own by (auto simp: chain_up_def chain_at_def)
  moreover have "Up (m * (k + n) + c) w'" using w'(2) by (simp add: algebra_simps)
  ultimately show ?case
    using same_except_widen [OF w'(3), of "{Cell a, Sub s'}"] by (auto simp: chain_up_def)
qed

lemma chain_delivering:
  assumes del: "delivering s (L \<union> {Cell a, Sub s'}) U Up B (m * j + c) w w1"
    and at: "chain_at a s' d f (Some s) w" and own: "Cell a \<notin> L" "Sub s' \<notin> L"
    and m: "0 < m" "m * K + c \<le> B" and req: "\<And>n. request_mapping f' (of_nat n) = of_nat (m * n)"
    and w2: "w2 = put a (ChainingStream \<lparr>cs_func = f', cs_subscriber = d, cs_sid = s',
      cs_base_subscription = Some s\<rparr>) w1"
  shows "delivering s' L (U \<union> {Cell a, Sub s'}) (chain_up a s' d f' s m c Up) K j w w2"
proof -
  have u: "Cell a \<notin> U" "Sub s' \<notin> U" using del by (auto simp: delivering_def)
  have up: "passive_stream s U Up B" using del by (simp add: delivering_def)
  have "Up (m * j + c) w2"
    using passive_stream.stable [OF up, of "m * j + c" w1 w2] del u by (simp add: delivering_def w2)
  moreover have "chain_at a s' d f' (Some s) w2"
    using del at by (simp add: chain_at_def delivering_def w2)
  ultimately show ?thesis
    using del own chain_passive [OF up u m req]
    unfolding delivering_def w2 by (auto simp: chain_up_def)
qed

lemma chain_closing:
  assumes "closing d L Q w" and at: "chain_at a s' d f b w" and own: "Cell a \<notin> L" "Sub s' \<notin> L"
  shows "closing a (L \<union> {Cell a, Sub s'})
    (\<lambda>w. Q w \<and> heap w a = None \<and> refs w a = 0 \<and> impl w s' = None) w"
  unfolding closing_def
proof (intro allI impI, elim conjE)
  fix w' assume same: "same_on (L \<union> {Cell a, Sub s'}) w w'" and wf: "wf_world w'"
    and L: "L \<union> {Cell a, Sub s'} \<subseteq> old w'"
  let ?w = "free a (clear_subscription s' w')"
  have at': "chain_at a s' d f b w'" using chain_at_same_on [OF at same] by simp
  have "closing d L Q ?w" using closing_stable [OF assms(1)] same own by simp
  then obtain w'' where "exec (Destroy d) ?w = ret w''" "same_except L ?w w''" "Q w''"
    by (rule closingD) (use wf L in auto)
  moreover have "exec (Destroy a) w' = exec (Destroy d) ?w"
    using at' by (simp add: chain_at_def exec_Destroy ChainingStream_destroy_def)
  moreover have "same_except (L \<union> {Cell a, Sub s'}) w' w''"
    by (rule same_except_from [OF calculation(2)]) simp
  moreover have "heap w'' a = None" "refs w'' a = 0" "impl w'' s' = None"
    using same_exceptD [OF calculation(2)] own at' by (auto simp: chain_at_def)
  ultimately show "\<exists>w''. exec (Destroy a) w' = ret w'' \<and> same_except (L \<union> {Cell a, Sub s'}) w' w''
      \<and> Q w'' \<and> heap w'' a = None \<and> refs w'' a = 0 \<and> impl w'' s' = None"
    by auto
qed

section \<open>Map and StaticCast\<close>

text \<open>Closures that replace each value \<open>v\<close> by \<open>g v\<close> and pass the terminal event on.\<close>

definition forwarding :: "('v, 'u) chain_fn \<Rightarrow> ('v val \<Rightarrow> 'v val) \<Rightarrow> bool" where
  "forwarding f g \<longleftrightarrow> (\<forall>n. request_mapping f n = n)
     \<and> (\<forall>a s d v w. chain_next exec a f s d (ValueRepr v) w = exec (OnNext d s (ValueRepr (g v))) w)
     \<and> (\<forall>a s d t w. code t \<noteq> OK \<longrightarrow>
          chain_next exec a f s d (StatusRepr t) w = exec (OnNext d s (StatusRepr t)) w)"

lemma forwarding_Map: "(\<And>v u. f v u = (ValueRepr (g v), u)) \<Longrightarrow> forwarding (MapFn f) g"
  by (simp add: forwarding_def chain_next_def map_next_def)

lemma forwarding_Cast: "forwarding (CastFn g) g"
  by (simp add: forwarding_def chain_next_def cast_next_def)

lemma forwarding_delivering:
  assumes f: "forwarding f g" and at: "chain_at a s' d f (Some s) w" and own: "Cell a \<notin> L" "Sub s' \<notin> L"
    and del: "delivering s (L \<union> {Cell a, Sub s'}) U Up K j w w1"
  shows "delivering s' L (U \<union> {Cell a, Sub s'}) (chain_up a s' d f s 1 0 Up) K j w w1"
proof (rule chain_delivering [where c = 0 and m = 1])
  show "delivering s (L \<union> {Cell a, Sub s'}) U Up K (1 * j + 0) w w1" using del by simp
  show "request_mapping f (of_nat n) = of_nat (1 * n)" for n using f by (simp add: forwarding_def)
  have "chain_at a s' d f (Some s) w1"
    using chain_at_delivering [OF at del] .
  then show "w1 = put a (ChainingStream \<lparr>cs_func = f, cs_subscriber = d, cs_sid = s',
      cs_base_subscription = Some s\<rparr>) w1"
    by (simp add: chain_at_def put_same)
qed (use at own in auto)

lemma forwarding_ready:
  assumes "ready d s' L K Q t (map g vs) j w" and f: "forwarding f g" and at: "chain_at a s' d f (Some s) w"
    and own: "Cell a \<notin> L" "Sub s' \<notin> L" and t: "code t \<noteq> OK"
  shows "ready a s (L \<union> {Cell a, Sub s'}) K
    (\<lambda>w. Q w \<and> heap w a = None \<and> refs w a = 0 \<and> impl w s' = None) t vs j w"
  using assms(1,3)
proof (induction vs arbitrary: j w)
  case Nil
  show ?case unfolding ready.simps
  proof (intro conjI allI impI)
    show "j < K" using ready_less [OF Nil(1)] .
    fix w1 U Up assume del: "delivering s (L \<union> {Cell a, Sub s'}) U Up K j w w1"
    have at1: "chain_at a s' d f (Some s) w1"
      using chain_at_delivering [OF Nil(2) del] .
    obtain w2 j' where 2: "exec (OnNext d s' (StatusRepr t)) w1 = ret w2"
      "same_except (L \<union> (U \<union> {Cell a, Sub s'})) w1 w2" "chain_up a s' d f s 1 0 Up j' w2" "closing d L Q w2"
      using Nil(1) forwarding_delivering [OF f Nil(2) own del] unfolding list.map by (rule ready_NilD)
    have "exec (OnNext a s (StatusRepr t)) w1 = ret w2"
      using at1 2(1) f t by (simp add: chain_at_def exec_OnNext ChainingStream_OnNext_def get_simps forwarding_def)
    moreover have "same_except (L \<union> {Cell a, Sub s'} \<union> U) w1 w2"
      by (rule same_except_mono [OF 2(2)]) auto
    moreover have "Up j' w2" and "closing a (L \<union> {Cell a, Sub s'})
        (\<lambda>w. Q w \<and> heap w a = None \<and> refs w a = 0 \<and> impl w s' = None) w2"
      using 2(3) chain_closing [OF 2(4) _ own] by (auto simp: chain_up_def)
    ultimately show "\<exists>w'' j'. exec (OnNext a s (StatusRepr t)) w1 = ret w''
        \<and> same_except (L \<union> {Cell a, Sub s'} \<union> U) w1 w'' \<and> Up j' w'' \<and> closing a (L \<union> {Cell a, Sub s'})
          (\<lambda>w. Q w \<and> heap w a = None \<and> refs w a = 0 \<and> impl w s' = None) w''"
      by blast
  qed
next
  case (Cons v vs)
  show ?case unfolding ready.simps
  proof (intro conjI allI impI)
    show "j < K" using ready_less [OF Cons.prems(1)] .
    fix w1 U Up assume del: "delivering s (L \<union> {Cell a, Sub s'}) U Up K j w w1"
    have at1: "chain_at a s' d f (Some s) w1"
      using chain_at_delivering [OF Cons.prems(2) del] .
    obtain w2 j' where 2: "exec (OnNext d s' (ValueRepr (g v))) w1 = ret w2"
      "same_except (L \<union> (U \<union> {Cell a, Sub s'})) w1 w2" "chain_up a s' d f s 1 0 Up (Suc j') w2"
      "ready d s' L K Q t (map g vs) j' w2"
      using Cons.prems(1) forwarding_delivering [OF f Cons.prems(2) own del]
      unfolding list.map by (rule ready_ConsD)
    have "exec (OnNext a s (ValueRepr v)) w1 = ret w2"
      using at1 2(1) f by (simp add: chain_at_def exec_OnNext ChainingStream_OnNext_def get_simps forwarding_def)
    moreover have "same_except (L \<union> {Cell a, Sub s'} \<union> U) w1 w2"
      by (rule same_except_mono [OF 2(2)]) auto
    moreover have "Up (Suc j') w2" and "chain_at a s' d f (Some s) w2"
      using 2(3) by (simp_all add: chain_up_def)
    ultimately show "\<exists>w'' j'. exec (OnNext a s (ValueRepr v)) w1 = ret w''
        \<and> same_except (L \<union> {Cell a, Sub s'} \<union> U) w1 w'' \<and> Up (Suc j') w''
        \<and> ready a s (L \<union> {Cell a, Sub s'}) K
            (\<lambda>w. Q w \<and> heap w a = None \<and> refs w a = 0 \<and> impl w s' = None) t vs j' w''"
      using Cons.IH [OF 2(4)] by blast
  qed
qed

section \<open>The publisher\<close>

text \<open>
  A chaining publisher is correct when its base is and its stream is a ready subscriber whenever
  its own subscriber is.
\<close>

lemma chaining_pub_ok:
  assumes base: "pub_ok B p t vs" and m: "0 < m" "\<And>n. request_mapping f (of_nat n) = of_nat (m * n)"
    and step: "\<And>d L Q a s s' j w. ready d s' L K Q t ws j w \<Longrightarrow> chain_at a s' d f (Some s) w \<Longrightarrow>
      Cell a \<notin> L \<Longrightarrow> Sub s' \<notin> L \<Longrightarrow> ready a s (L \<union> {Cell a, Sub s'}) B
        (\<lambda>w. Q w \<and> heap w a = None \<and> refs w a = 0 \<and> impl w s' = None) t vs (m * j + (m - 1)) w"
  shows "pub_ok K (ChainingPublisher p f) t ws"
  unfolding pub_ok_def
proof (intro allI impI, elim conjE)
  fix d L Q and w :: "('a, 'b) world"
  assume wf: "wf_world w" and L: "L \<subseteq> old w" and Q: "stable_on L Q"
    and st: "start d L K Q t ws w"
  let ?a = "next_addr w" and ?s = "next_sid w"
  let ?L = "L \<union> {Cell ?a, Sub ?s}"
  let ?Q = "\<lambda>w'. Q w' \<and> heap w' ?a = None \<and> refs w' ?a = 0 \<and> impl w' ?s = None"
  let ?c = "\<lambda>b. ChainingStream \<lparr>cs_func = f, cs_subscriber = d, cs_sid = ?s, cs_base_subscription = b\<rparr>"
  define w1 where "w1 = new_subscription_state ?a (alloc (?c None) w)"
  have fresh: "Cell ?a \<notin> L" "Sub ?s \<notin> L" using L by (auto dest: fresh_not_in)
  have at1: "chain_at ?a ?s d f None w1" using wf by (simp add: chain_at_def w1_def wf_worldD)
  have w1: "same_on L w w1" "wf_world w1" "?L \<subseteq> old w1" "same_except ?L w w1"
    using wf L fresh by (auto simp: w1_def)
  have "start ?a ?L B ?Q t vs w1"
    unfolding start_def
  proof (intro allI impI, elim conjE)
    fix w2 s assume same: "same_on ?L w1 w2" and wf2: "wf_world w2" and old2: "insert (Sub s) ?L \<subseteq> old w2"
      and s: "Sub s \<notin> ?L"
    define w3 where "w3 = put ?a (?c (Some s)) w2"
    have at2: "chain_at ?a ?s d f None w2" using chain_at_same_on [OF at1 same] by simp
    have "same_on L w w3" using w1(1) same fresh by (simp add: w3_def) (meson same_on_trans)
    moreover have "wf_world w3" "insert (Sub ?s) L \<subseteq> old w3" using wf2 old2 by (simp_all add: w3_def)
    moreover have "impl w3 ?s \<noteq> None" using at2 by (simp add: chain_at_def w3_def)
    ultimately obtain j w4 where 4: "same_except L w3 w4" "ready d ?s L K Q t ws j w4"
      "exec (OnSubscribe d ?s) w3 = Subscription_Request exec ?s (of_nat (Suc j)) w4"
      using startD [OF st _ _ _ fresh(2)] by metis
    have at4: "chain_at ?a ?s d f (Some s) w4"
      using same_exceptD [OF 4(1)] at2 fresh by (simp add: chain_at_def w3_def)
    have "exec (OnSubscribe ?a s) w2 = exec (OnSubscribe d ?s) w3"
      using at2 by (simp add: chain_at_def exec_OnSubscribe ChainingStream_OnSubscribe_def get_simps w3_def)
    also have "\<dots> = Subscription_Request exec s (of_nat (m * Suc j)) w4"
      unfolding 4(3) using at4 m(2) [of "Suc j"]
      by (simp add: chain_at_def Subscription_live exec_Request ChainingStream_Request_def get_simps
          del: of_nat_Suc)
    also have "m * Suc j = Suc (m * j + (m - 1))" using m(1) by simp
    finally show "\<exists>j w''. same_except ?L w2 w'' \<and> ready ?a s ?L B ?Q t vs j w''
        \<and> exec (OnSubscribe ?a s) w2 = Subscription_Request exec s (of_nat (Suc j)) w''"
      using step [OF 4(2) at4 fresh] same_except_from [OF 4(1), of "{Cell ?a, Sub ?s}" w2]
      by (intro exI [of _ "m * j + (m - 1)"] exI [of _ w4] conjI) (simp_all add: w3_def)
  qed
  from new_stream_pub_ok [OF base wf L Q w1_def this]
  show "\<exists>w'. exec (DoSubscribe (ChainingPublisher p f) d) w = ret w' \<and> same_except L w w' \<and> Q w'"
    by (simp add: exec_DoSubscribe ChainingPublisher_Subscribe_def Let_def w1_def)
qed

lemma forwarding_pub_ok:
  assumes "pub_ok K p t vs" and "forwarding f g" and "code t \<noteq> OK"
  shows "pub_ok K (ChainingPublisher p f) t (map g vs)"
proof (rule chaining_pub_ok [OF assms(1), where m = 1])
  show "request_mapping f (of_nat n) = of_nat (1 * n)" for n using assms(2) by (simp add: forwarding_def)
qed (use forwarding_ready [OF _ assms(2) _ _ _ assms(3)] in auto)

end
