(* ===== verification/Buffer_Contract.thy ===== *)
theory Buffer_Contract
  imports Chaining_Contract
begin

text \<open>
  The operator \<open>Buffer\<close>: its closure cuts the values into chunks of the given size, and on the end
  of the stream delivers the rest as one more chunk before the terminal event; an error drops it.
\<close>

section \<open>Chunks\<close>

function chunks :: "nat \<Rightarrow> 'a list \<Rightarrow> 'a list list" where
  "chunks n xs = (if xs = [] then [] else if n = 0 then [xs] else take n xs # chunks n (drop n xs))"
  by pat_completeness auto
termination by (relation "measure (length \<circ> snd)") auto

declare chunks.simps [simp del]

lemma concat_chunks: "concat (chunks n xs) = xs"
proof (induction n xs rule: chunks.induct)
  case (1 n xs)
  then show ?case by (subst chunks.simps) auto
qed

lemma length_chunks:
  assumes "0 < n"
  shows "length (chunks n xs) = (length xs + n - 1) div n"
  using assms
proof (induction n xs rule: chunks.induct)
  case (1 n xs)
  show ?case
  proof (cases "xs = []")
    case True
    with 1(2) show ?thesis by (simp add: chunks.simps)
  next
    case False
    have "length (chunks n xs) = Suc ((length xs - n + n - 1) div n)"
      using 1 False by (subst chunks.simps) simp
    also have "\<dots> = (length xs + n - 1) div n"
    proof (cases "n \<le> length xs")
      case True
      then have "length xs + n - 1 = (length xs - n + n - 1) + n" using False by simp
      then show ?thesis using 1(2) by (metis add_2_eq_Suc' div_add_self2 less_numeral_extra(3) plus_1_eq_Suc add.commute)
    next
      case l: False
      then have "(length xs + n - 1) div n = Suc ((length xs - 1) div n)"
        using False 1(2) by (metis Nat.add_diff_assoc2 div_add_self2 length_greater_0_conv less_Suc_eq_le less_nat_zero_code neq0_conv One_nat_def Suc_leI plus_1_eq_Suc add.commute)
      then show ?thesis using l False by simp
    qed
    finally show ?thesis .
  qed
qed

text \<open>What the closure delivers before the terminal event, from the buffer \<open>buf\<close> on.\<close>

primrec buffer_out :: "nat \<Rightarrow> Status \<Rightarrow> 'v val list \<Rightarrow> 'v val list \<Rightarrow> 'v val list" where
  "buffer_out n t buf [] = (if code t = OUT_OF_RANGE \<and> buf \<noteq> [] then [Vec buf] else [])"
| "buffer_out n t buf (v # vs) =
     (if Suc (length buf) = n then Vec (buf @ [v]) # buffer_out n t [] vs
      else buffer_out n t (buf @ [v]) vs)"

lemma buffer_out_Done:
  assumes "0 < n" and "length buf < n" and "code t = OUT_OF_RANGE"
  shows "buffer_out n t buf vs = map Vec (chunks n (buf @ vs))"
  using assms(2)
proof (induction vs arbitrary: buf)
  case Nil
  then show ?case using assms(1,3) by (auto simp: chunks.simps [of n buf] chunks.simps [of n "[]"])
next
  case (Cons v vs)
  show ?case
  proof (cases "Suc (length buf) = n")
    case True
    then have "n - length buf = 1" by simp
    then have "chunks n (buf @ v # vs) = (buf @ [v]) # chunks n vs"
      using assms(1) by (subst chunks.simps) simp
    with True show ?thesis using Cons.IH [of "[]"] assms(1) by simp
  next
    case False
    then show ?thesis using Cons.IH [of "buf @ [v]"] Cons.prems by simp
  qed
qed

lemma buffer_out_error:
  assumes "0 < n" and "length buf < n" and "code t \<noteq> OUT_OF_RANGE"
  shows "buffer_out n t buf vs = map Vec (filter (\<lambda>c. length c = n) (chunks n (buf @ vs)))"
  using assms(2)
proof (induction vs arbitrary: buf)
  case Nil
  then show ?case using assms(1,3) by (auto simp: chunks.simps [of n buf] chunks.simps [of n "[]"])
next
  case (Cons v vs)
  show ?case
  proof (cases "Suc (length buf) = n")
    case True
    then have "n - length buf = 1" by simp
    then have "chunks n (buf @ v # vs) = (buf @ [v]) # chunks n vs"
      using assms(1) by (subst chunks.simps) simp
    with True show ?thesis using Cons.IH [of "[]"] assms(1) by simp
  next
    case False
    then show ?thesis using Cons.IH [of "buf @ [v]"] Cons.prems by simp
  qed
qed

section \<open>The stream\<close>

abbreviation buffer_at ::
  "addr \<Rightarrow> sid \<Rightarrow> addr \<Rightarrow> nat \<Rightarrow> 'v val list \<Rightarrow> sid \<Rightarrow> ('v, 'u) world \<Rightarrow> bool" where
  "buffer_at a s' d m buf s \<equiv> chain_at a s' d (BufferFn (of_nat m) buf) (Some s)"

abbreviation buffer_obj :: "sid \<Rightarrow> addr \<Rightarrow> nat \<Rightarrow> 'v val list \<Rightarrow> sid \<Rightarrow> ('v, 'u) obj" where
  "buffer_obj s' d m buf s \<equiv> ChainingStream \<lparr>cs_func = BufferFn (of_nat m) buf, cs_subscriber = d,
     cs_sid = s', cs_base_subscription = Some s\<rparr>"

lemma set_buffer_at:
  "buffer_at a s' d m b s w \<Longrightarrow> set_buffer a (of_nat m) b' w = ret (put a (buffer_obj s' d m b' s) w)"
  "buffer_at a s' d m b s w \<Longrightarrow> buffer_at a s' d m b' s (put a (buffer_obj s' d m b' s) w)"
  "buffer_at a s' d m b s w \<Longrightarrow> put a (buffer_obj s' d m b s) w = w"
  by (simp_all add: chain_at_def set_buffer_def get_simps put_same)

lemma buffer_size_word:
  assumes "m < 2 ^ 64" and "n \<le> m"
  shows "(of_nat n :: size_t) = of_nat m \<longleftrightarrow> n = m"
proof -
  have "unat (of_nat n :: size_t) = n" "unat (of_nat m :: size_t) = m"
    using assms by (simp_all add: unat_of_nat_64)
  then show ?thesis by metis
qed

text \<open>The three ways in which the closure handles an event.\<close>

lemma buffer_fill:
  assumes "buffer_at a s' d m buf s w" and "Suc (length buf) < m" and "m < 2 ^ 64"
  shows "exec (OnNext a s (ValueRepr v)) w = ret (put a (buffer_obj s' d m (buf @ [v]) s) w)"
proof -
  have "(of_nat (Suc (length buf)) :: size_t) \<noteq> of_nat m"
    using buffer_size_word [of m "Suc (length buf)"] assms(2,3) by simp
  then show ?thesis using assms(1) set_buffer_at(1) [OF assms(1)]
    by (simp add: chain_at_def exec_OnNext ChainingStream_OnNext_def get_simps chain_next_def buffer_next_def)
qed

lemma buffer_full:
  assumes "buffer_at a s' d m buf s w" and "Suc (length buf) = m"
    and "exec (OnNext d s' (ValueRepr (Vec (buf @ [v])))) (put a (buffer_obj s' d m [] s) w) = ret w'"
    and "buffer_at a s' d m [] s w'"
  shows "exec (OnNext a s (ValueRepr v)) w = ret w'"
proof -
  have "(of_nat (Suc (length buf)) :: size_t) = of_nat m" using assms(2) by simp
  then show ?thesis
    using assms(1,3) set_buffer_at [OF assms(1)] set_buffer_at(1) [OF set_buffer_at(2) [OF assms(1)]]
      set_buffer_at [OF assms(4)]
    by (simp add: chain_at_def exec_OnNext ChainingStream_OnNext_def get_simps chain_next_def buffer_next_def
        del: of_nat_Suc)
qed

lemma buffer_end:
  assumes "buffer_at a s' d m buf s w" and "code t \<noteq> OK"
  shows "exec (OnNext a s (StatusRepr t)) w =
    (if code t = OUT_OF_RANGE \<and> buf \<noteq> [] then
       bnd (exec (OnNext d s' (ValueRepr (Vec buf))) (put a (buffer_obj s' d m [] s) w))
         (exec (OnNext d s' (StatusRepr t)))
     else exec (OnNext d s' (StatusRepr t)) w)"
  using assms set_buffer_at(1) [OF assms(1)]
  by (simp add: chain_at_def exec_OnNext ChainingStream_OnNext_def get_simps chain_next_def buffer_next_def)

text \<open>Every event the closure passes on finds the downstream side in order.\<close>

lemma buffer_down:
  assumes del: "delivering s (L \<union> {Cell a, Sub s'}) U Up (m * (K + 2)) (m * j + c) w w1"
    and at: "buffer_at a s' d m b s w" and own: "Cell a \<notin> L" "Sub s' \<notin> L"
    and m: "0 < m" "c < 2 * m"
  shows "delivering s' L (U \<union> {Cell a, Sub s'}) (chain_up a s' d (BufferFn (of_nat m) b') s m c Up) K j w
    (put a (buffer_obj s' d m b' s) w1)"
proof (rule chain_delivering [OF del at own m(1)])
  show "m * K + c \<le> m * (K + 2)" using m(2) by (simp add: algebra_simps)
qed simp_all

lemma buffer_ready:
  assumes "ready d s' L K Q t (buffer_out m t buf vs) j w" and "buffer_at a s' d m buf s w"
    and "length buf < m" and own: "Cell a \<notin> L" "Sub s' \<notin> L" and t: "code t \<noteq> OK"
    and m: "0 < m" "m < 2 ^ 64"
  shows "ready a s (L \<union> {Cell a, Sub s'}) (m * (K + 2))
    (\<lambda>w. Q w \<and> heap w a = None \<and> refs w a = 0 \<and> impl w s' = None) t vs (m * j + (m - 1 - length buf)) w"
  using assms(1-3)
proof (induction vs arbitrary: buf j w)
  case Nil
  let ?L = "L \<union> {Cell a, Sub s'}" and ?c = "m - 1 - length buf" and ?B = "m * (K + 2)"
  have j: "j < K" using ready_less [OF Nil(1)] .
  show ?case unfolding ready.simps
  proof (intro conjI allI impI)
    have "m * Suc j \<le> m * K" using j by (intro mult_le_mono2) simp
    then show "m * j + ?c < ?B" using m(1) by (simp add: algebra_simps)
    fix w1 U Up assume del: "delivering s ?L U Up ?B (m * j + ?c) w w1"
    have at1: "buffer_at a s' d m buf s w1" using chain_at_delivering [OF Nil(2) del] .
    have "\<exists>w4 j' b. exec (OnNext a s (StatusRepr t)) w1 = ret w4 \<and> same_except (L \<union> (U \<union> {Cell a, Sub s'})) w1 w4
        \<and> Up j' w4 \<and> closing d L Q w4 \<and> buffer_at a s' d m b s w4"
    proof (cases "code t = OUT_OF_RANGE \<and> buf \<noteq> []")
      case True
      let ?w2 = "put a (buffer_obj s' d m [] s) w1"
      have d2: "delivering s' L (U \<union> {Cell a, Sub s'}) (chain_up a s' d (BufferFn (of_nat m) []) s m ?c Up) K j w ?w2"
        using buffer_down [OF del Nil(2) own m(1)] m(1) by simp
      have r: "ready d s' L K Q t (Vec buf # []) j w" using Nil(1) True by simp
      obtain w3 j' where 3: "exec (OnNext d s' (ValueRepr (Vec buf))) ?w2 = ret w3"
        "same_except (L \<union> (U \<union> {Cell a, Sub s'})) ?w2 w3"
        "chain_up a s' d (BufferFn (of_nat m) []) s m ?c Up (Suc j') w3" "ready d s' L K Q t [] j' w3"
        by (rule ready_ConsD [OF r d2])
      have at3: "buffer_at a s' d m [] s w3" and up3: "Up (m * j' + (?c + m)) w3"
        using 3(3) by (simp_all add: chain_up_def algebra_simps)
      have s13: "same_except (L \<union> (U \<union> {Cell a, Sub s'})) w1 w3"
        using same_except_trans [OF _ 3(2), of w1] by simp
      then have "delivering s ?L U Up ?B (m * j' + (?c + m)) w3 w3"
        using delivering_again [OF del _ up3] same_except_mono [OF s13, of "?L \<union> U"] by auto
      from buffer_down [OF this at3 own m(1), of "[]"]
      have "delivering s' L (U \<union> {Cell a, Sub s'}) (chain_up a s' d (BufferFn (of_nat m) []) s m (?c + m) Up)
          K j' w3 w3"
        using m(1) set_buffer_at(3) [OF at3] by simp
      with 3(4) obtain w4 j'' where 4: "exec (OnNext d s' (StatusRepr t)) w3 = ret w4"
        "same_except (L \<union> (U \<union> {Cell a, Sub s'})) w3 w4"
        "chain_up a s' d (BufferFn (of_nat m) []) s m (?c + m) Up j'' w4" "closing d L Q w4"
        by (rule ready_NilD)
      have "exec (OnNext a s (StatusRepr t)) w1 = ret w4"
        using buffer_end [OF at1 t] True 3(1) 4(1) by simp
      with same_except_trans [OF s13 4(2)] 4(3,4) show ?thesis unfolding chain_up_def by blast
    next
      case False
      have d2: "delivering s' L (U \<union> {Cell a, Sub s'}) (chain_up a s' d (BufferFn (of_nat m) buf) s m ?c Up) K j w w1"
        using buffer_down [OF del Nil(2) own m(1), of buf] m(1) set_buffer_at(3) [OF at1] by simp
      have r: "ready d s' L K Q t [] j w" using Nil(1) False by (simp del: ready.simps split: if_splits)
      obtain w4 j' where 4: "exec (OnNext d s' (StatusRepr t)) w1 = ret w4"
        "same_except (L \<union> (U \<union> {Cell a, Sub s'})) w1 w4"
        "chain_up a s' d (BufferFn (of_nat m) buf) s m ?c Up j' w4" "closing d L Q w4"
        by (rule ready_NilD [OF r d2])
      moreover have "exec (OnNext a s (StatusRepr t)) w1 = ret w4"
        using buffer_end [OF at1 t] False 4(1) by simp
      ultimately show ?thesis unfolding chain_up_def by blast
    qed
    then obtain w4 j' b where 4: "exec (OnNext a s (StatusRepr t)) w1 = ret w4"
      "same_except (L \<union> (U \<union> {Cell a, Sub s'})) w1 w4" "Up j' w4" "closing d L Q w4"
      "buffer_at a s' d m b s w4" by blast
    moreover have "same_except (?L \<union> U) w1 w4" by (rule same_except_mono [OF 4(2)]) auto
    ultimately show "\<exists>w'' j'. exec (OnNext a s (StatusRepr t)) w1 = ret w'' \<and> same_except (?L \<union> U) w1 w''
        \<and> Up j' w'' \<and> closing a ?L (\<lambda>w. Q w \<and> heap w a = None \<and> refs w a = 0 \<and> impl w s' = None) w''"
      using chain_closing [OF 4(4,5) own] by blast
  qed
next
  case (Cons v vs)
  let ?L = "L \<union> {Cell a, Sub s'}" and ?c = "m - 1 - length buf" and ?B = "m * (K + 2)"
  have j: "j < K" using ready_less [OF Cons.prems(1)] .
  show ?case unfolding ready.simps
  proof (intro conjI allI impI)
    have "m * Suc j \<le> m * K" using j by (intro mult_le_mono2) simp
    then show "m * j + ?c < ?B" using m(1) by (simp add: algebra_simps)
    fix w1 U Up assume del: "delivering s ?L U Up ?B (m * j + ?c) w w1"
    have at1: "buffer_at a s' d m buf s w1" using chain_at_delivering [OF Cons.prems(2) del] .
    show "\<exists>w'' j'. exec (OnNext a s (ValueRepr v)) w1 = ret w'' \<and> same_except (?L \<union> U) w1 w''
        \<and> Up (Suc j') w'' \<and> ready a s ?L ?B
            (\<lambda>w. Q w \<and> heap w a = None \<and> refs w a = 0 \<and> impl w s' = None) t vs j' w''"
    proof (cases "Suc (length buf) = m")
      case True
      let ?w2 = "put a (buffer_obj s' d m [] s) w1"
      have d2: "delivering s' L (U \<union> {Cell a, Sub s'}) (chain_up a s' d (BufferFn (of_nat m) []) s m 0 Up) K j w ?w2"
        using buffer_down [OF _ Cons.prems(2) own m(1), of U Up K j 0] del True m(1) by simp
      have r: "ready d s' L K Q t (Vec (buf @ [v]) # buffer_out m t [] vs) j w"
        using Cons.prems(1) True by simp
      obtain w3 j' where 3: "exec (OnNext d s' (ValueRepr (Vec (buf @ [v])))) ?w2 = ret w3"
        "same_except (L \<union> (U \<union> {Cell a, Sub s'})) ?w2 w3"
        "chain_up a s' d (BufferFn (of_nat m) []) s m 0 Up (Suc j') w3"
        "ready d s' L K Q t (buffer_out m t [] vs) j' w3"
        by (rule ready_ConsD [OF r d2])
      have at3: "buffer_at a s' d m [] s w3" and up: "Up (m * Suc j' + 0) w3"
        using 3(3) by (simp_all only: chain_up_def)
      have "m * Suc j' + 0 = Suc (m * j' + (m - 1))" using m(1) by simp
      with up have "Up (Suc (m * j' + (m - 1))) w3" by (simp only:)
      moreover have "ready a s ?L ?B (\<lambda>w. Q w \<and> heap w a = None \<and> refs w a = 0 \<and> impl w s' = None) t vs
          (m * j' + (m - 1)) w3"
        using Cons.IH [OF 3(4) at3] m(1) by simp
      moreover have "same_except (L \<union> (U \<union> {Cell a, Sub s'})) w1 w3"
        using same_except_trans [OF _ 3(2), of w1] by simp
      then have "same_except (?L \<union> U) w1 w3" by (rule same_except_mono) auto
      moreover have "exec (OnNext a s (ValueRepr v)) w1 = ret w3"
        by (rule buffer_full [OF at1 True 3(1) at3])
      ultimately show ?thesis by blast
    next
      case False
      let ?w2 = "put a (buffer_obj s' d m (buf @ [v]) s) w1"
      have l: "Suc (length buf) < m" using False Cons.prems(3) by simp
      have "?c = Suc (m - 1 - length (buf @ [v]))" using l by simp
      then have "Up (Suc (m * j + (m - 1 - length (buf @ [v])))) w1"
        using del by (simp add: delivering_def)
      moreover have "same_on U w1 ?w2" using del by (auto simp: delivering_def)
      ultimately have "Up (Suc (m * j + (m - 1 - length (buf @ [v])))) ?w2"
        by (rule passive_stream.stable [of s U Up ?B, rotated]) (use del in \<open>simp add: delivering_def\<close>)
      moreover have "ready d s' L K Q t (buffer_out m t (buf @ [v]) vs) j ?w2"
        using ready_stable [of d s' L K Q t "buffer_out m t (buf @ [v]) vs" j w] Cons.prems(1) False del own
        by (auto simp: delivering_def)
      then have "ready a s ?L ?B (\<lambda>w. Q w \<and> heap w a = None \<and> refs w a = 0 \<and> impl w s' = None) t vs
          (m * j + (m - 1 - length (buf @ [v]))) ?w2"
        by (rule Cons.IH [OF _ set_buffer_at(2) [OF at1]]) (use l in simp)
      moreover have "exec (OnNext a s (ValueRepr v)) w1 = ret ?w2"
        by (rule buffer_fill [OF at1 l m(2)])
      moreover have "same_except (?L \<union> U) w1 ?w2" by simp
      ultimately show ?thesis by blast
    qed
  qed
qed

lemma buffer_pub_ok:
  assumes "pub_ok (m * (K + 2)) p t vs" and "code t \<noteq> OK" and "0 < m" and "m < 2 ^ 64"
  shows "pub_ok K (ChainingPublisher p (BufferFn (of_nat m) [])) t (buffer_out m t [] vs)"
proof (rule chaining_pub_ok [OF assms(1,3)])
  show "request_mapping (BufferFn (of_nat m) []) (of_nat n) = of_nat (m * n)" for n by simp
next
  fix d L Q a s s' j and w :: "('a, 'b) world"
  assume "ready d s' L K Q t (buffer_out m t [] vs) j w"
    and "chain_at a s' d (BufferFn (of_nat m) []) (Some s) w" and "Cell a \<notin> L" and "Sub s' \<notin> L"
  from buffer_ready [OF this(1,2) _ this(3,4) assms(2-4)] assms(3)
  show "ready a s (L \<union> {Cell a, Sub s'}) (m * (K + 2))
      (\<lambda>w. Q w \<and> heap w a = None \<and> refs w a = 0 \<and> impl w s' = None) t vs (m * j + (m - 1)) w"
    by simp
qed

end
