(* ===== verification/FlatMap_Contract.thy ===== *)
theory FlatMap_Contract
  imports Contracts
begin

text \<open>
  \<open>FlatMapStream\<close> meets the contract: it asks its base for one element at a time, subscribes to the
  publisher of each element, hands the pending requests of its downstream on to it, and comes back
  to the base when it is done. Its downstream sees the concatenation.
\<close>

definition flat_at ::
  "addr \<Rightarrow> sid \<Rightarrow> addr \<Rightarrow> ('v val \<Rightarrow> 'u \<Rightarrow> ('v, 'u) publisher \<times> 'u) \<Rightarrow> nat \<Rightarrow> nat \<Rightarrow> sid option
    \<Rightarrow> sid option \<Rightarrow> ('v, 'u) world \<Rightarrow> bool" where
  "flat_at x sx d kf rb cr b c w \<longleftrightarrow>
     heap w x = Some (FlatMapStream \<lparr>fm_cont = kf, fm_subscriber = d, fm_sid = sx,
       fm_request_balance = counter rb, fm_cont_requested = counter cr,
       fm_base_subscription = b, fm_cont_subscription = c\<rparr>)
     \<and> refs w x = 0 \<and> impl w sx = Some x"

abbreviation flat_obj ::
  "sid \<Rightarrow> addr \<Rightarrow> ('v val \<Rightarrow> 'u \<Rightarrow> ('v, 'u) publisher \<times> 'u) \<Rightarrow> nat \<Rightarrow> nat \<Rightarrow> sid option
    \<Rightarrow> sid option \<Rightarrow> ('v, 'u) obj" where
  "flat_obj sx d kf rb cr b c \<equiv> FlatMapStream \<lparr>fm_cont = kf, fm_subscriber = d, fm_sid = sx,
     fm_request_balance = counter rb, fm_cont_requested = counter cr,
     fm_base_subscription = b, fm_cont_subscription = c\<rparr>"

lemma flat_at_put [simp]:
  "flat_at x sx d kf rb cr b c w \<Longrightarrow> flat_at x sx d kf rb' cr' b' c' (put x (flat_obj sx d kf rb' cr' b' c') w)"
  by (simp add: flat_at_def)

lemma flat_at_same_on:
  "flat_at x sx d kf rb cr b c w \<Longrightarrow> same_on L w w' \<Longrightarrow> Cell x \<in> L \<Longrightarrow> Sub sx \<in> L \<Longrightarrow>
    flat_at x sx d kf rb cr b c w'"
  by (auto simp: flat_at_def same_on_alt)

lemma flat_at_same_except:
  "flat_at x sx d kf rb cr b c w \<Longrightarrow> same_except L w w' \<Longrightarrow> Cell x \<notin> L \<Longrightarrow> Sub sx \<notin> L \<Longrightarrow>
    flat_at x sx d kf rb cr b c w'"
  by (auto simp: flat_at_def same_except_alt)

section \<open>Requests\<close>

text \<open>\<open>Request\<close> with no continuation running, and with one.\<close>

lemma flat_request_idle:
  assumes "flat_at x sx d kf rb cr (Some s) None w" and "rb + n < pending_limit"
  shows "FlatMapStream_Request exec x (of_nat n) w =
    Subscription_Request exec s 1 (put x (flat_obj sx d kf (rb + n) cr (Some s) None) w)"
  using assms by (simp add: flat_at_def FlatMapStream_Request_def get_simps counter_Add base_subscription_def)

lemma flat_request_cont:
  assumes "flat_at x sx d kf rb cr b (Some c) w" and "rb + n < pending_limit" and "cr < rb + n"
  shows "FlatMapStream_Request exec x (of_nat n) w =
    Subscription_Request exec c (of_nat (rb + n - cr)) (put x (flat_obj sx d kf (rb + n) (rb + n) b (Some c)) w)"
proof -
  have "(of_nat (rb + n) :: size_t) - of_nat cr = of_nat (rb + n - cr)"
    using assms(3) by (simp add: of_nat_diff)
  moreover have "(of_nat (rb + n - cr) :: size_t) \<noteq> 0"
    using assms(2,3) by (intro of_nat_neq_0_64) simp_all
  moreover have "Add (counter cr) (of_nat (rb + n - cr)) = counter (rb + n)"
    using counter_Add [of cr "rb + n - cr"] assms(2,3) by simp
  ultimately show ?thesis
    using assms counter_Add [OF assms(2)]
    by (simp add: flat_at_def FlatMapStream_Request_def get_simps counter_balance word_greater_zero_iff
        del: of_nat_add)
qed

section \<open>The stream as its downstream sees it\<close>

text \<open>While a continuation delivers, with \<open>Upc\<close> what the continuation's stream guarantees.\<close>

definition flat_cont_up ::
  "addr \<Rightarrow> sid \<Rightarrow> addr \<Rightarrow> ('v val \<Rightarrow> 'u \<Rightarrow> ('v, 'u) publisher \<times> 'u) \<Rightarrow> sid \<Rightarrow> sid
    \<Rightarrow> (nat \<Rightarrow> ('v, 'u) world \<Rightarrow> bool) \<Rightarrow> nat \<Rightarrow> ('v, 'u) world \<Rightarrow> bool" where
  "flat_cont_up x sx d kf s c Upc k w \<longleftrightarrow> flat_at x sx d kf k k (Some s) (Some c) w \<and> Upc k w"

text \<open>While the base delivers its terminal event.\<close>

definition flat_idle_up ::
  "addr \<Rightarrow> sid \<Rightarrow> addr \<Rightarrow> ('v val \<Rightarrow> 'u \<Rightarrow> ('v, 'u) publisher \<times> 'u) \<Rightarrow> sid
    \<Rightarrow> (nat \<Rightarrow> ('v, 'u) world \<Rightarrow> bool) \<Rightarrow> nat \<Rightarrow> ('v, 'u) world \<Rightarrow> bool" where
  "flat_idle_up x sx d kf s Up k w \<longleftrightarrow>
     (\<exists>cr. flat_at x sx d kf (Suc k) cr (Some s) None w) \<and> (\<exists>j\<le>k. Up j w)"

lemma flat_cont_passive:
  assumes up: "passive_stream c U Upc K" and own: "Cell x \<notin> U" "Sub sx \<notin> U" and K: "K < pending_limit"
  shows "passive_stream sx (U \<union> {Cell x, Sub sx}) (flat_cont_up x sx d kf s c Upc) K"
proof (unfold_locales, goal_cases)
  case (1 k w w')
  then show ?case
    using passive_stream.stable [OF up] flat_at_same_on [of x sx d kf k k "Some s" "Some c" w]
    by (auto simp: flat_cont_up_def flat_at_def)
next
  case (2 k w)
  then show ?case by (simp add: flat_cont_up_def flat_at_def)
next
  case (3 k w n)
  let ?w1 = "put x (flat_obj sx d kf (k + n) (k + n) (Some s) (Some c)) w"
  have at: "flat_at x sx d kf k k (Some s) (Some c) w" and "Upc k w" using 3 by (auto simp: flat_cont_up_def)
  then have "Upc k ?w1" using passive_stream.stable [OF up, of k w ?w1] own by simp
  then obtain w' where w': "Subscription_Request exec c (of_nat n) ?w1 = ret w'" "Upc (k + n) w'"
    "same_except U ?w1 w'"
    using passive_stream.request [OF up] 3(2,3) by blast
  have "Subscription_Request exec sx (of_nat n) w = ret w'"
    using flat_request_cont [OF at, of n] 3 K w'(1) at
    by (simp add: flat_at_def Subscription_live exec_Request)
  moreover have "flat_at x sx d kf (k + n) (k + n) (Some s) (Some c) w'"
    by (rule flat_at_same_except [OF flat_at_put [OF at] w'(3) own])
  moreover have "same_except (U \<union> {Cell x, Sub sx}) w w'"
    by (rule same_except_from [OF w'(3)]) simp
  ultimately show ?case using w'(2) by (auto simp: flat_cont_up_def)
qed

lemma flat_idle_passive:
  assumes up: "passive_stream s U Up K" and own: "Cell x \<notin> U" "Sub sx \<notin> U" and K: "Suc K < pending_limit"
  shows "passive_stream sx (U \<union> {Cell x, Sub sx}) (flat_idle_up x sx d kf s Up) K"
proof (unfold_locales, goal_cases)
  case (1 k w w')
  then show ?case
    using passive_stream.stable [OF up] by (auto simp: flat_idle_up_def flat_at_def)
next
  case (2 k w)
  then show ?case by (auto simp: flat_idle_up_def flat_at_def)
next
  case (3 k w n)
  obtain cr j where at: "flat_at x sx d kf (Suc k) cr (Some s) None w" and j: "j \<le> k" "Up j w"
    using 3(1) by (auto simp: flat_idle_up_def)
  let ?w1 = "put x (flat_obj sx d kf (Suc k + n) cr (Some s) None) w"
  have "Up j ?w1" using passive_stream.stable [OF up j(2), of ?w1] own by simp
  moreover have "j + 1 \<le> K" using j(1) 3(2,3) by simp
  ultimately obtain w' where w': "Subscription_Request exec s (of_nat 1) ?w1 = ret w'" "Up (j + 1) w'"
    "same_except U ?w1 w'"
    using passive_stream.request [OF up, of j ?w1 1] by auto
  have "Subscription_Request exec sx (of_nat n) w = ret w'"
    using flat_request_idle [OF at, of n] 3 K w'(1) at
    by (simp add: flat_at_def Subscription_live exec_Request)
  moreover have "flat_at x sx d kf (Suc (k + n)) cr (Some s) None w'"
    using flat_at_same_except [OF flat_at_put [OF at] w'(3) own] by simp
  moreover have "same_except (U \<union> {Cell x, Sub sx}) w w'"
    by (rule same_except_from [OF w'(3)]) simp
  moreover have "j + 1 \<le> k + n" using j(1) 3(2) by simp
  ultimately show ?case using w'(2) unfolding flat_idle_up_def by blast
qed

section \<open>A continuation's subscriber\<close>

abbreviation cont_subscriber :: "addr \<Rightarrow> ('v, 'u) obj" where
  "cont_subscriber x \<equiv> FunctionalSubscriber (SubscribeFlatMapCont x) (NextFlatMapCont x)"

text \<open>What holds once a continuation is done: the base has one more event pending.\<close>

definition cont_done ::
  "addr \<Rightarrow> sid \<Rightarrow> addr \<Rightarrow> ('v val \<Rightarrow> 'u \<Rightarrow> ('v, 'u) publisher \<times> 'u) \<Rightarrow> sid \<Rightarrow> addr
    \<Rightarrow> (nat \<Rightarrow> ('v, 'u) world \<Rightarrow> bool) \<Rightarrow> (nat \<Rightarrow> ('v, 'u) world \<Rightarrow> bool) \<Rightarrow> ('v, 'u) world \<Rightarrow> bool" where
  "cont_done x sx d kf s e Up R w \<longleftrightarrow> heap w e = None \<and> refs w e = 0 \<and> Up 1 w
     \<and> (\<exists>j cr. R j w \<and> flat_at x sx d kf (Suc j) cr (Some s) None w)"

text \<open>
  A downstream that takes the values \<open>ws\<close> of one continuation, after which \<open>R\<close> holds for the number
  of events it has pending.
\<close>

primrec ready_then ::
  "addr \<Rightarrow> sid \<Rightarrow> loc set \<Rightarrow> nat \<Rightarrow> (nat \<Rightarrow> ('v, 'u) world \<Rightarrow> bool) \<Rightarrow> 'v val list
    \<Rightarrow> nat \<Rightarrow> ('v, 'u) world \<Rightarrow> bool" where
  "ready_then d s L K R [] j w \<longleftrightarrow> j < K \<and> R j w"
| "ready_then d s L K R (v # vs) j w \<longleftrightarrow> j < K \<and>
     (\<forall>w' U Up. delivering s L U Up K j w w' \<longrightarrow>
       (\<exists>w'' j'. exec (OnNext d s (ValueRepr v)) w' = ret w'' \<and> same_except (L \<union> U) w' w''
         \<and> Up (Suc j') w'' \<and> ready_then d s L K R vs j' w''))"

lemma ready_then_less: "ready_then d s L K R vs j w \<Longrightarrow> j < K"
  by (cases vs) auto

lemma ready_append: "ready d s L K Q t (vs @ rest) j w \<Longrightarrow> ready_then d s L K (ready d s L K Q t rest) vs j w"
proof (induction vs arbitrary: j w)
  case Nil
  then show ?case by (simp add: ready_less)
next
  case (Cons v vs)
  then show ?case by simp blast
qed

lemma ready_then_stable:
  assumes "\<And>j. stable_on L (R j)" and "ready_then d s L K R vs j w" and "same_on L w w'"
  shows "ready_then d s L K R vs j w'"
  using assms(2,3) stable_onD [OF assms(1)] by (cases vs) (auto dest: delivering_stable)

lemma ready_then_ConsD:
  assumes "ready_then d s L K R (v # vs) j w" and "delivering s L U Up K j w w'"
  obtains w'' j' where "exec (OnNext d s (ValueRepr v)) w' = ret w''" and "same_except (L \<union> U) w' w''"
    and "Up (Suc j') w''" and "ready_then d s L K R vs j' w''"
  using assms unfolding ready_then.simps by blast

lemma cont_ready:
  fixes U L :: "loc set" and x e :: addr and sx :: sid and R :: "nat \<Rightarrow> ('v, 'u) world \<Rightarrow> bool"
  defines "Lf \<equiv> L \<union> {Cell x, Sub sx} \<union> U \<union> {Cell e}"
  assumes stable: "\<And>j. stable_on L (R j)"
    and "ready_then d sx L K R ws j w" and "flat_at x sx d kf (Suc j) (Suc j) (Some s) (Some c) w"
    and "heap w e = Some (cont_subscriber x)" and "refs w e = 0" and "Up 0 w"
    and up: "passive_stream s U Up K" and tc: "code tc = OUT_OF_RANGE" and K: "Suc K < pending_limit"
    and own: "Cell x \<notin> L" "Sub sx \<notin> L" "Cell x \<notin> U" "Sub sx \<notin> U" "Cell e \<notin> U" "Cell e \<notin> L" "x \<noteq> e"
      "L \<inter> U = {}"
  shows "ready e c Lf K (cont_done x sx d kf s e Up R) tc ws j w"
  using assms(3-7)
proof (induction ws arbitrary: j w)
  case Nil
  let ?Q = "cont_done x sx d kf s e Up R"
  have j: "j < K" using ready_then_less [OF Nil(1)] .
  show ?case unfolding ready.simps
  proof (intro conjI allI impI)
    show "j < K" by (rule j)
    fix w1 V Vp assume del: "delivering c Lf V Vp K j w w1"
    have s1: "same_on Lf w w1" using del by (simp add: delivering_def)
    have at1: "flat_at x sx d kf (Suc j) (Suc j) (Some s) (Some c) w1"
      using flat_at_same_on [OF Nil(2) s1] by (simp add: Lf_def)
    define w2 where "w2 = put x (flat_obj sx d kf (Suc j) (Suc j) (Some s) None) w1"
    have at2: "flat_at x sx d kf (Suc j) (Suc j) (Some s) None w2" using at1 by (simp add: w2_def)
    have "Up 0 w2"
      using passive_stream.stable [OF up Nil(5), of w2] s1 own by (simp add: Lf_def w2_def)
    then obtain w3 where 3: "Subscription_Request exec s (of_nat 1) w2 = ret w3" "Up (0 + 1) w3"
      "same_except U w2 w3"
      using passive_stream.request [OF up, of 0 w2 1] j by auto
    have "FlatMapStream_Request exec x 0 w2 = ret w3"
      using flat_request_idle [OF at2, of 0] 3(1) j K at2 by (simp add: flat_at_def put_same)
    moreover have e1: "heap w1 e = Some (cont_subscriber x)" "refs w1 e = 0"
      using Nil(3,4) s1 own by (simp_all add: Lf_def)
    ultimately have "exec (OnNext e c (StatusRepr tc)) w1 = ret w3"
      using at1 j K tc
      by (simp add: exec_OnNext FunctionalSubscriber_OnNext_def exec_internal FlatMapStream_OnNextCont_def
          flat_at_def get_simps counter_Has w2_def)
    moreover have "same_except (Lf \<union> V) w1 w3"
      by (rule same_except_mono [OF same_except_from [OF 3(3), of "{Cell x}"]]) (auto simp: w2_def Lf_def)
    moreover have "Vp j w3"
    proof -
      have "same_on V w1 w3"
        using del by (intro same_except_same_on [OF same_except_from [OF 3(3), of "{Cell x}"]])
          (auto simp: w2_def Lf_def delivering_def)
      then show ?thesis using del passive_stream.stable [of c V Vp K j w1 w3] by (simp add: delivering_def)
    qed
    moreover have "closing e Lf ?Q w3"
      unfolding closing_def
    proof (intro allI impI, elim conjE)
      fix w' assume s': "same_on Lf w3 w'"
      have "heap w3 e = Some (cont_subscriber x)" "refs w3 e = 0"
        using same_exceptD [OF 3(3)] own e1 by (simp_all add: w2_def)
      then have "exec (Destroy e) w' = ret (free e w')" "refs w' e = 0"
        using s' by (simp_all add: Lf_def exec_Destroy)
      moreover have "Up 1 (free e w')"
        using passive_stream.stable [OF up 3(2), of "free e w'"] s' own by (simp add: Lf_def)
      moreover have "R j (free e w')"
      proof (rule stable_onD [OF stable])
        show "R j w" using Nil(1) by simp
        have "same_on L w w3"
        proof (rule same_on_trans)
          show "same_on L w w2" using s1 own by (simp add: Lf_def w2_def)
          show "same_on L w2 w3" using own by (intro same_except_same_on [OF 3(3)]) auto
        qed
        then show "same_on L w (free e w')" using s' own by (auto simp: Lf_def intro: same_on_trans)
      qed
      moreover have "flat_at x sx d kf (Suc j) (Suc j) (Some s) None (free e w')"
        using flat_at_same_on [OF flat_at_same_except [OF at2 3(3)] s'] own by (simp add: Lf_def flat_at_def)
      ultimately show "\<exists>w''. exec (Destroy e) w' = ret w'' \<and> same_except Lf w' w'' \<and> ?Q w''"
        by (auto simp: cont_done_def Lf_def)
    qed
    ultimately show "\<exists>w'' j'. exec (OnNext e c (StatusRepr tc)) w1 = ret w'' \<and> same_except (Lf \<union> V) w1 w''
        \<and> Vp j' w'' \<and> closing e Lf ?Q w''"
      by blast
  qed
next
  case (Cons v ws)
  let ?Q = "cont_done x sx d kf s e Up R"
  have j: "j < K" using ready_then_less [OF Cons.prems(1)] .
  show ?case unfolding ready.simps
  proof (intro conjI allI impI)
    show "j < K" by (rule j)
    fix w1 V Vp assume del: "delivering c Lf V Vp K j w w1"
    have s1: "same_on Lf w w1" and V: "Lf \<inter> V = {}" and vp: "passive_stream c V Vp K" and v1: "Vp j w1"
      using del by (simp_all add: delivering_def)
    have at1: "flat_at x sx d kf (Suc j) (Suc j) (Some s) (Some c) w1"
      using flat_at_same_on [OF Cons.prems(2) s1] by (simp add: Lf_def)
    have e1: "heap w1 e = Some (cont_subscriber x)" "refs w1 e = 0"
      using Cons.prems(3,4) s1 own by (simp_all add: Lf_def)
    define w2 where "w2 = put x (flat_obj sx d kf j j (Some s) (Some c)) w1"
    have xV: "Cell x \<notin> V" "Sub sx \<notin> V" using V by (auto simp: Lf_def)
    have "Vp j w2" using passive_stream.stable [OF vp v1, of w2] xV by (simp add: w2_def)
    then have del2: "delivering sx L (V \<union> {Cell x, Sub sx}) (flat_cont_up x sx d kf s c Vp) K j w w2"
      using del own s1 flat_cont_passive [OF vp xV] K at1 V
      by (auto simp: delivering_def w2_def Lf_def flat_cont_up_def)
    obtain w3 j' where 3: "exec (OnNext d sx (ValueRepr v)) w2 = ret w3"
      "same_except (L \<union> (V \<union> {Cell x, Sub sx})) w2 w3" "flat_cont_up x sx d kf s c Vp (Suc j') w3"
      "ready_then d sx L K R ws j' w3"
      using Cons.prems(1) del2 by (rule ready_then_ConsD)
    have s13: "same_except (L \<union> (V \<union> {Cell x, Sub sx})) w1 w3"
      using same_except_trans [OF _ 3(2), of w1] by (simp add: w2_def)
    have "exec (OnNext e c (ValueRepr v)) w1 = ret w3"
      using at1 e1 j K 3(1)
      by (simp add: exec_OnNext FunctionalSubscriber_OnNext_def exec_internal FlatMapStream_OnNextCont_def
          flat_at_def get_simps counter_Remove w2_def FlatMapStream_Send_def)
    moreover have "same_except (Lf \<union> V) w1 w3" by (rule same_except_mono [OF s13]) (auto simp: Lf_def)
    moreover have "Vp (Suc j') w3" using 3(3) by (simp add: flat_cont_up_def)
    moreover have "ready e c Lf K ?Q tc ws j' w3"
    proof (rule Cons.IH [OF 3(4)])
      show "flat_at x sx d kf (Suc j') (Suc j') (Some s) (Some c) w3" using 3(3) by (simp add: flat_cont_up_def)
      have "Cell e \<notin> V" using V by (auto simp: Lf_def)
      then show "heap w3 e = Some (cont_subscriber x)" "refs w3 e = 0"
        using same_exceptD [OF s13] own e1 by simp_all
      have "same_on U w w3"
      proof (rule same_on_trans)
        show "same_on U w w1" using s1 by (simp add: Lf_def)
        show "same_on U w1 w3" using own V by (intro same_except_same_on [OF s13]) (auto simp: Lf_def)
      qed
      then show "Up 0 w3" by (rule passive_stream.stable [OF up Cons.prems(5)])
    qed
    ultimately show "\<exists>w'' j'. exec (OnNext e c (ValueRepr v)) w1 = ret w'' \<and> same_except (Lf \<union> V) w1 w''
        \<and> Vp (Suc j') w'' \<and> ready e c Lf K ?Q tc ws j' w''"
      by blast
  qed
qed

lemma stable_on_cont_done:
  assumes stable: "\<And>j. stable_on L (R j)" and up: "passive_stream s U Up K"
  shows "stable_on (L \<union> {Cell x, Sub sx} \<union> U \<union> {Cell e}) (cont_done x sx d kf s e Up R)"
  unfolding stable_on_def
proof (intro allI impI)
  fix w w' assume Q: "cont_done x sx d kf s e Up R w"
    and s: "same_on (L \<union> {Cell x, Sub sx} \<union> U \<union> {Cell e}) w w'"
  obtain j cr where j: "R j w" "flat_at x sx d kf (Suc j) cr (Some s) None w"
    using Q by (auto simp: cont_done_def)
  have "R j w'" using stable_onD [OF stable j(1)] s by simp
  moreover have "flat_at x sx d kf (Suc j) cr (Some s) None w'" using flat_at_same_on [OF j(2) s] by simp
  moreover have "Up 1 w'" using passive_stream.stable [OF up, of 1 w w'] Q s by (simp add: cont_done_def)
  ultimately show "cont_done x sx d kf s e Up R w'"
    using Q s unfolding cont_done_def by auto
qed

lemma cont_start:
  fixes U L :: "loc set" and x e :: addr and sx :: sid and R :: "nat \<Rightarrow> ('v, 'u) world \<Rightarrow> bool"
  defines "Lf \<equiv> L \<union> {Cell x, Sub sx} \<union> U \<union> {Cell e}"
  assumes stable: "\<And>j. stable_on L (R j)"
    and r: "ready_then d sx L K R ws j w" and at: "flat_at x sx d kf (Suc j) cr (Some s) None w"
    and e: "heap w e = Some (cont_subscriber x)" "refs w e = 0" and "Up 0 w"
    and up: "passive_stream s U Up K" and tc: "code tc = OUT_OF_RANGE" and K: "Suc K < pending_limit"
    and own: "Cell x \<notin> L" "Sub sx \<notin> L" "Cell x \<notin> U" "Sub sx \<notin> U" "Cell e \<notin> U" "Cell e \<notin> L" "x \<noteq> e"
      "L \<inter> U = {}"
  shows "start e Lf K (cont_done x sx d kf s e Up R) tc ws w"
  unfolding start_def
proof (intro allI impI, elim conjE)
  fix w3 c assume s3: "same_on Lf w w3"
  let ?w4 = "put x (flat_obj sx d kf (Suc j) (Suc j) (Some s) (Some c)) w3"
  let ?w5 = "put x (flat_obj sx d kf (Suc j) 0 (Some s) (Some c)) w3"
  have at3: "flat_at x sx d kf (Suc j) cr (Some s) None w3"
    using flat_at_same_on [OF at s3] by (simp add: Lf_def)
  have e3: "heap w3 e = Some (cont_subscriber x)" "refs w3 e = 0" using e s3 by (simp_all add: Lf_def)
  have j: "j < K" using ready_then_less [OF r] .
  have "exec (OnSubscribe e c) w3 = FlatMapStream_Request exec x 0 ?w5"
    using at3 e3 j K
    by (simp add: exec_OnSubscribe FunctionalSubscriber_OnSubscribe_def exec_internal
        FlatMapStream_OnSubscribeCont_def flat_at_def get_simps counter_Has)
  also have "\<dots> = Subscription_Request exec c (of_nat (Suc j)) ?w4"
    using flat_request_cont [OF flat_at_put [OF at3, of "Suc j" 0 "Some s" "Some c"], of 0] j K by simp
  finally have "exec (OnSubscribe e c) w3 = Subscription_Request exec c (of_nat (Suc j)) ?w4" .
  moreover have "ready e c Lf K (cont_done x sx d kf s e Up R) tc ws j ?w4"
    unfolding Lf_def
  proof (rule cont_ready [OF stable _ _ _ _ _ up tc K own])
    have "same_on L w ?w4" using s3 own by (simp add: Lf_def)
    with r show "ready_then d sx L K R ws j ?w4" by (rule ready_then_stable [OF stable])
    show "Up 0 ?w4"
      by (rule passive_stream.stable [OF up \<open>Up 0 w\<close>]) (use s3 own in \<open>simp add: Lf_def\<close>)
    show "flat_at x sx d kf (Suc j) (Suc j) (Some s) (Some c) ?w4" using at3 by simp
  qed (use e3 own in simp_all)
  moreover have "same_except Lf w3 ?w4" by (simp add: Lf_def)
  ultimately show "\<exists>j w''. same_except Lf w3 w'' \<and> ready e c Lf K
      (cont_done x sx d kf s e Up R) tc ws j w''
      \<and> exec (OnSubscribe e c) w3 = Subscription_Request exec c (of_nat (Suc j)) w''"
    by blast
qed

section \<open>The stream as a subscriber of its base\<close>

lemma flat_closing:
  assumes "closing d L Q w" and at: "flat_at x sx d kf rb cr b None w" and own: "Cell x \<notin> L" "Sub sx \<notin> L"
  shows "closing x (L \<union> {Cell x, Sub sx})
    (\<lambda>w. Q w \<and> heap w x = None \<and> refs w x = 0 \<and> impl w sx = None) w"
  unfolding closing_def
proof (intro allI impI, elim conjE)
  fix w' assume same: "same_on (L \<union> {Cell x, Sub sx}) w w'" and wf: "wf_world w'"
    and L: "L \<union> {Cell x, Sub sx} \<subseteq> old w'"
  let ?w = "free x (clear_subscription sx w')"
  have at': "flat_at x sx d kf rb cr b None w'" using flat_at_same_on [OF at same] by simp
  have "closing d L Q ?w" using closing_stable [OF assms(1)] same own by simp
  then obtain w'' where 1: "exec (Destroy d) ?w = ret w''" "same_except L ?w w''" "Q w''"
    by (rule closingD) (use wf L in auto)
  have "exec (Destroy x) w' = exec (Destroy d) ?w"
    using at' by (simp add: flat_at_def exec_Destroy FlatMapStream_destroy_def)
  moreover have "same_except (L \<union> {Cell x, Sub sx}) w' w''" by (rule same_except_from [OF 1(2)]) simp
  moreover have "heap w'' x = None" "refs w'' x = 0" "impl w'' sx = None"
    using same_exceptD [OF 1(2)] own at' by (auto simp: flat_at_def)
  ultimately show "\<exists>w''. exec (Destroy x) w' = ret w'' \<and> same_except (L \<union> {Cell x, Sub sx}) w' w''
      \<and> Q w'' \<and> heap w'' x = None \<and> refs w'' x = 0 \<and> impl w'' sx = None"
    using 1 by auto
qed

text \<open>Each value \<open>v\<close> of the base has a correct publisher, whose events are \<open>ws\<close> and the end.\<close>

definition cont_ok ::
  "nat \<Rightarrow> ('v val \<Rightarrow> 'u \<Rightarrow> ('v, 'u) publisher \<times> 'u) \<Rightarrow> 'v val \<Rightarrow> 'v val list \<Rightarrow> bool" where
  "cont_ok K kf v ws \<longleftrightarrow>
     (\<exists>p tc. (\<forall>u. kf v u = (Some p, u)) \<and> code tc = OUT_OF_RANGE \<and> pub_ok K p tc ws)"

text \<open>
  What the downstream must be ready for when the base has the values \<open>vs\<close> to come: for each, the
  continuation may change the user's state if the downstream owns it, and its publisher delivers
  some values that the downstream takes.
\<close>

primrec flat_ready_to ::
  "('v val \<Rightarrow> 'u \<Rightarrow> ('v, 'u) publisher \<times> 'u) \<Rightarrow> addr \<Rightarrow> sid \<Rightarrow> loc set \<Rightarrow> nat \<Rightarrow> (('v, 'u) world \<Rightarrow> bool)
    \<Rightarrow> Status \<Rightarrow> 'v val list \<Rightarrow> nat \<Rightarrow> ('v, 'u) world \<Rightarrow> bool" where
  "flat_ready_to kf d s L K Q t [] j w \<longleftrightarrow> ready d s L K Q t [] j w"
| "flat_ready_to kf d s L K Q t (v # vs) j w \<longleftrightarrow> j < K \<and>
     (\<forall>w'. same_on L w w' \<longrightarrow>
       (\<exists>p u ws tc. kf v (user w') = (Some p, u) \<and> (UserState \<in> L \<or> u = user w') \<and> code tc = OUT_OF_RANGE
         \<and> pub_ok K p tc ws \<and> ready_then d s L K (flat_ready_to kf d s L K Q t vs) ws j (w'\<lparr>user := u\<rparr>)))"

lemma flat_ready_to_less: "flat_ready_to kf d s L K Q t vs j w \<Longrightarrow> j < K"
  by (cases vs) (auto simp: ready_less)

lemma flat_ready_to_stable:
  assumes "flat_ready_to kf d s L K Q t vs j w" and "same_on L w w'"
  shows "flat_ready_to kf d s L K Q t vs j w'"
proof (cases vs)
  case Nil
  with assms(1) have "ready d s L K Q t [] j w" by (simp only: flat_ready_to.simps)
  then have "ready d s L K Q t [] j w'" using assms(2) by (rule ready_stable)
  then show ?thesis by (simp only: Nil flat_ready_to.simps)
next
  case (Cons v vs')
  then show ?thesis using assms same_on_trans by simp blast
qed

lemma stable_on_flat_ready_to: "stable_on L (flat_ready_to kf d s L K Q t vs j)"
  unfolding stable_on_def using flat_ready_to_stable by blast

lemma ready_then_mono:
  assumes "\<And>j w. R j w \<Longrightarrow> S j w" and "ready_then d s L K R vs j w"
  shows "ready_then d s L K S vs j w"
  using assms(2)
proof (induction vs arbitrary: j w)
  case Nil
  then show ?case using assms(1) by simp
next
  case (Cons v vs)
  then show ?case by simp blast
qed

text \<open>A continuation that does not touch the user's state: any downstream of the concatenation is ready.\<close>

lemma flat_ready_to_concat:
  assumes "list_all2 (cont_ok K kf) vs wss" and "ready d s L K Q t (concat wss) j w"
  shows "flat_ready_to kf d s L K Q t vs j w"
  using assms
proof (induction arbitrary: j w rule: list_all2_induct)
  case (Cons v vs ws wss)
  obtain p tc where p: "\<And>u. kf v u = (Some p, u)" "code tc = OUT_OF_RANGE" "pub_ok K p tc ws"
    using Cons(1) by (auto simp: cont_ok_def)
  have j: "j < K" using ready_less [OF Cons.prems] .
  have "ready_then d s L K (flat_ready_to kf d s L K Q t vs) ws j (w'\<lparr>user := user w'\<rparr>)" if "same_on L w w'" for w'
  proof (rule ready_then_mono)
    show "ready d s L K Q t (concat wss) j' w'' \<Longrightarrow> flat_ready_to kf d s L K Q t vs j' w''" for j' w''
      by (rule Cons.IH)
    have "ready d s L K Q t (ws @ concat wss) j w'" using ready_stable [OF Cons.prems that] by simp
    then show "ready_then d s L K (ready d s L K Q t (concat wss)) ws j (w'\<lparr>user := user w'\<rparr>)"
      using ready_append by simp
  qed
  then show ?case using p j unfolding flat_ready_to.simps by blast
qed simp

lemma flat_ready:
  assumes "flat_ready_to kf d sx L K Q t vs j w"
    and "flat_at x sx d kf (Suc j) cr (Some s) None w"
    and own: "Cell x \<notin> L" "Sub sx \<notin> L" and t: "code t \<noteq> OK" and K: "Suc K < pending_limit"
  shows "ready x s (L \<union> {Cell x, Sub sx}) K
    (\<lambda>w. Q w \<and> heap w x = None \<and> refs w x = 0 \<and> impl w sx = None) t vs 0 w"
  using assms(1,2)
proof (induction vs arbitrary: j cr w)
  case Nil
  let ?L = "L \<union> {Cell x, Sub sx}" and ?Q = "\<lambda>w. Q w \<and> heap w x = None \<and> refs w x = 0 \<and> impl w sx = None"
  have j: "j < K" using flat_ready_to_less [OF Nil(1)] .
  show ?case unfolding ready.simps
  proof (intro conjI allI impI)
    show "0 < K" using j by simp
    fix w1 U Up assume del: "delivering s ?L U Up K 0 w w1"
    have at1: "flat_at x sx d kf (Suc j) cr (Some s) None w1"
      using flat_at_same_on [OF Nil(2), of ?L] del by (simp add: delivering_def)
    have xU: "Cell x \<notin> U" "Sub sx \<notin> U" and up: "passive_stream s U Up K"
      using del by (auto simp: delivering_def)
    have "flat_idle_up x sx d kf s Up j w1"
      using at1 del by (auto simp: flat_idle_up_def delivering_def)
    then have d2: "delivering sx L (U \<union> {Cell x, Sub sx}) (flat_idle_up x sx d kf s Up) K j w w1"
      using del own flat_idle_passive [OF up xU K] by (auto simp: delivering_def)
    have r: "ready d sx L K Q t [] j w" using Nil(1) by simp
    obtain w2 j' where 2: "exec (OnNext d sx (StatusRepr t)) w1 = ret w2"
      "same_except (L \<union> (U \<union> {Cell x, Sub sx})) w1 w2" "flat_idle_up x sx d kf s Up j' w2" "closing d L Q w2"
      by (rule ready_NilD [OF r d2])
    have "exec (OnNext x s (StatusRepr t)) w1 = ret w2"
      using at1 t 2(1) by (simp add: flat_at_def exec_OnNext FlatMapStream_OnNext_def FlatMapStream_Send_def get_simps)
    moreover have "same_except (?L \<union> U) w1 w2" by (rule same_except_mono [OF 2(2)]) auto
    moreover obtain i cr' where "Up i w2" "flat_at x sx d kf (Suc j') cr' (Some s) None w2"
      using 2(3) by (auto simp: flat_idle_up_def)
    ultimately show "\<exists>w'' j'. exec (OnNext x s (StatusRepr t)) w1 = ret w'' \<and> same_except (?L \<union> U) w1 w''
        \<and> Up j' w'' \<and> closing x ?L ?Q w''"
      using flat_closing [OF 2(4) _ own] by blast
  qed
next
  case (Cons v vs)
  let ?L = "L \<union> {Cell x, Sub sx}" and ?Q = "\<lambda>w. Q w \<and> heap w x = None \<and> refs w x = 0 \<and> impl w sx = None"
  let ?R = "flat_ready_to kf d sx L K Q t vs"
  have j: "j < K" using flat_ready_to_less [OF Cons.prems(1)] .
  show ?case unfolding ready.simps
  proof (intro conjI allI impI)
    show "0 < K" using j by simp
    fix w1 U Up assume del: "delivering s ?L U Up K 0 w w1"
    let ?e = "next_addr w1"
    have "same_on L w w1" using del by (simp add: delivering_def)
    then obtain p u ws tc where p: "kf v (user w1) = (Some p, u)" "code tc = OUT_OF_RANGE" "pub_ok K p tc ws"
      and u: "UserState \<in> L \<or> u = user w1" and r: "ready_then d sx L K ?R ws j (w1\<lparr>user := u\<rparr>)"
      using Cons.prems(1) by auto
    let ?w2 = "alloc (cont_subscriber x) (w1\<lparr>user := u\<rparr>)" and ?Lf = "?L \<union> U \<union> {Cell ?e}"
    let ?Q2 = "cont_done x sx d kf s ?e Up ?R"
    have at1: "flat_at x sx d kf (Suc j) cr (Some s) None w1"
      using flat_at_same_on [OF Cons.prems(2), of ?L] del by (simp add: delivering_def)
    have o: "Cell x \<notin> U" "Sub sx \<notin> U" "L \<inter> U = {}" and up: "passive_stream s U Up K" and u0: "Up 0 w1"
      using del by (auto simp: delivering_def)
    have e: "Cell ?e \<notin> U" "Cell ?e \<notin> L" "x \<noteq> ?e" using del by (auto simp: delivering_def)
    have wf2: "wf_world ?w2" "?Lf \<subseteq> old ?w2" using del by (auto simp: delivering_def)
    have "start ?e ?Lf K ?Q2 tc ws ?w2"
    proof (rule cont_start [OF stable_on_flat_ready_to _ _ _ _ _ up p(2) K])
      show "ready_then d sx L K ?R ws j ?w2"
        by (rule ready_then_stable [OF stable_on_flat_ready_to r]) (use e in simp_all)
      show "flat_at x sx d kf (Suc j) cr (Some s) None ?w2" using at1 e by (simp add: flat_at_def)
      show "Up 0 ?w2"
      proof (rule passive_stream.stable [OF up u0])
        have "same_on U w1 (w1\<lparr>user := u\<rparr>)"
          using u o(3) by (cases "UserState \<in> U") auto
        then show "same_on U w1 ?w2" using e by simp
      qed
      show "refs ?w2 ?e = 0" using del by (simp add: delivering_def wf_worldD)
    qed (use own o e in simp_all)
    then obtain w3 where 3: "exec (DoSubscribe p ?e) ?w2 = ret w3" "same_except ?Lf ?w2 w3" "?Q2 w3"
      by (rule pub_okD [OF p(3) wf2 stable_on_cont_done [OF stable_on_flat_ready_to up]])
    have "exec (OnNext x s (ValueRepr v)) w1 = ret w3"
      using at1 p(1) 3(1)
      by (simp add: flat_at_def exec_OnNext FlatMapStream_OnNext_def get_simps Publisher_Subscribe_functions_def
          Subscriber_Make_def)
    moreover have "same_except (?L \<union> U) w1 w3"
    proof (rule same_except_shrink [of "?L \<union> U" "{Cell ?e}"])
      show "same_except (?L \<union> U \<union> {Cell ?e}) w1 w3"
        using same_except_trans [OF _ 3(2), of w1] u by (cases "UserState \<in> L") auto
      show "same_on {Cell ?e} w1 w3" using 3(3) del by (simp add: cont_done_def delivering_def wf_worldD)
    qed
    moreover obtain j' cr' where "?R j' w3"
      "flat_at x sx d kf (Suc j') cr' (Some s) None w3" "Up (Suc 0) w3"
      using 3(3) by (auto simp: cont_done_def)
    ultimately show "\<exists>w'' j'. exec (OnNext x s (ValueRepr v)) w1 = ret w'' \<and> same_except (?L \<union> U) w1 w''
        \<and> Up (Suc j') w'' \<and> ready x s ?L K ?Q t vs j' w''"
      using Cons.IH by blast
  qed
qed

text \<open>Subscribing to a \<open>FlatMap\<close>, for a downstream that is ready for what the continuations do.\<close>

definition flat_start ::
  "('v val \<Rightarrow> 'u \<Rightarrow> ('v, 'u) publisher \<times> 'u) \<Rightarrow> addr \<Rightarrow> loc set \<Rightarrow> nat \<Rightarrow> (('v, 'u) world \<Rightarrow> bool)
    \<Rightarrow> Status \<Rightarrow> 'v val list \<Rightarrow> ('v, 'u) world \<Rightarrow> bool" where
  "flat_start kf d L K Q t vs w \<longleftrightarrow>
     (\<forall>w' s. same_on L w w' \<and> wf_world w' \<and> insert (Sub s) L \<subseteq> old w' \<and> Sub s \<notin> L
         \<and> impl w' s \<noteq> None \<longrightarrow>
       (\<exists>j w''. same_except L w' w'' \<and> flat_ready_to kf d s L K Q t vs j w''
         \<and> exec (OnSubscribe d s) w' = Subscription_Request exec s (of_nat (Suc j)) w''))"

lemma flat_startD:
  assumes "flat_start kf d L K Q t vs w" and "same_on L w w'" and "wf_world w'" and "insert (Sub s) L \<subseteq> old w'"
    and "Sub s \<notin> L" and "impl w' s \<noteq> None"
  obtains j w'' where "same_except L w' w''" and "flat_ready_to kf d s L K Q t vs j w''"
    and "exec (OnSubscribe d s) w' = Subscription_Request exec s (of_nat (Suc j)) w''"
  using assms unfolding flat_start_def by blast

lemma flat_subscribe:
  fixes w :: "('v, 'u) world"
  assumes base: "pub_ok K p t vs" and wf: "wf_world w" and L: "L \<subseteq> old w" and Q: "stable_on L Q"
    and st: "flat_start kf d L K Q t vs w" and t: "code t \<noteq> OK" and K: "Suc K < pending_limit"
  shows "\<exists>w'. exec (DoSubscribe (FlatMapPublisher p kf) d) w = ret w' \<and> same_except L w w' \<and> Q w'"
proof -
  let ?a = "next_addr w" and ?s = "next_sid w"
  let ?L = "L \<union> {Cell ?a, Sub ?s}"
  let ?Q = "\<lambda>w'. Q w' \<and> heap w' ?a = None \<and> refs w' ?a = 0 \<and> impl w' ?s = None"
  define w1 where "w1 = new_subscription_state ?a (alloc (flat_obj ?s d kf 0 0 None None) w)"
  have fresh: "Cell ?a \<notin> L" "Sub ?s \<notin> L" using L by (auto dest: fresh_not_in)
  have at1: "flat_at ?a ?s d kf 0 0 None None w1" using wf by (simp add: flat_at_def w1_def wf_worldD)
  have w1: "same_on L w w1" using fresh by (simp add: w1_def)
  have "start ?a ?L K ?Q t vs w1"
    unfolding start_def
  proof (intro allI impI, elim conjE)
    fix w2 s assume same: "same_on ?L w1 w2" and wf2: "wf_world w2" and old2: "insert (Sub s) ?L \<subseteq> old w2"
      and s: "Sub s \<notin> ?L"
    define w3 where "w3 = put ?a (flat_obj ?s d kf 0 0 (Some s) None) w2"
    have at2: "flat_at ?a ?s d kf 0 0 None None w2" using flat_at_same_on [OF at1 same] by simp
    have "same_on L w w3" using w1 same fresh by (simp add: w3_def) (meson same_on_trans)
    moreover have "wf_world w3" "insert (Sub ?s) L \<subseteq> old w3" using wf2 old2 by (simp_all add: w3_def)
    moreover have "impl w3 ?s \<noteq> None" using at2 by (simp add: flat_at_def w3_def)
    ultimately obtain j w4 where 4: "same_except L w3 w4" "flat_ready_to kf d ?s L K Q t vs j w4"
      "exec (OnSubscribe d ?s) w3 = Subscription_Request exec ?s (of_nat (Suc j)) w4"
      using flat_startD [OF st _ _ _ fresh(2)] by metis
    have j: "j < K" using flat_ready_to_less [OF 4(2)] .
    have at3: "flat_at ?a ?s d kf 0 0 (Some s) None w3" using at2 by (simp add: w3_def)
    have at4: "flat_at ?a ?s d kf 0 0 (Some s) None w4" by (rule flat_at_same_except [OF at3 4(1) fresh])
    define w5 where "w5 = put ?a (flat_obj ?s d kf (Suc j) 0 (Some s) None) w4"
    have at5: "flat_at ?a ?s d kf (Suc j) 0 (Some s) None w5" using at4 by (simp add: w5_def)
    have "exec (OnSubscribe ?a s) w2 = exec (OnSubscribe d ?s) w3"
      using at2 by (simp add: flat_at_def exec_OnSubscribe FlatMapStream_OnSubscribe_def get_simps w3_def)
    also have "\<dots> = FlatMapStream_Request exec ?a (of_nat (Suc j)) w4"
      unfolding 4(3) using at4 by (simp add: flat_at_def Subscription_live exec_Request del: of_nat_Suc)
    also have "\<dots> = Subscription_Request exec s (of_nat (Suc 0)) w5"
      using flat_request_idle [OF at4, of "Suc j"] j K by (simp add: w5_def)
    finally have "exec (OnSubscribe ?a s) w2 = Subscription_Request exec s (of_nat (Suc 0)) w5" .
    moreover have "ready ?a s ?L K ?Q t vs 0 w5"
    proof (rule flat_ready [OF _ at5 fresh t K])
      show "flat_ready_to kf d ?s L K Q t vs j w5"
        by (rule flat_ready_to_stable [OF 4(2)]) (use fresh in \<open>simp add: w5_def\<close>)
    qed
    moreover have "same_except ?L w2 w5"
      using same_except_from [OF 4(1), of "{Cell ?a, Sub ?s}" w2] by (simp add: w3_def w5_def)
    ultimately show "\<exists>j w''. same_except ?L w2 w'' \<and> ready ?a s ?L K ?Q t vs j w''
        \<and> exec (OnSubscribe ?a s) w2 = Subscription_Request exec s (of_nat (Suc j)) w''"
      by blast
  qed
  from new_stream_pub_ok [OF base wf L Q w1_def this]
  show ?thesis
    by (simp add: exec_DoSubscribe FlatMapPublisher_Subscribe_def Let_def w1_def)
qed

lemma flat_pub_ok:
  assumes base: "pub_ok K p t vs" and conts: "list_all2 (cont_ok K kf) vs wss"
    and t: "code t \<noteq> OK" and K: "Suc K < pending_limit"
  shows "pub_ok K (FlatMapPublisher p kf) t (concat wss)"
  unfolding pub_ok_def
proof (intro allI impI, elim conjE)
  fix d L Q and w :: "('a, 'b) world"
  assume wf: "wf_world w" and L: "L \<subseteq> old w" and Q: "stable_on L Q"
    and st: "start d L K Q t (concat wss) w"
  have "flat_start kf d L K Q t vs w"
    unfolding flat_start_def
  proof (intro allI impI, elim conjE)
    fix w' s
    assume "same_on L w w'" "wf_world w'" "insert (Sub s) L \<subseteq> old w'" "Sub s \<notin> L" "impl w' s \<noteq> None"
    then obtain j w'' where "same_except L w' w''" "ready d s L K Q t (concat wss) j w''"
      "exec (OnSubscribe d s) w' = Subscription_Request exec s (of_nat (Suc j)) w''"
      by (rule startD [OF st])
    then show "\<exists>j w''. same_except L w' w'' \<and> flat_ready_to kf d s L K Q t vs j w''
        \<and> exec (OnSubscribe d s) w' = Subscription_Request exec s (of_nat (Suc j)) w''"
      using flat_ready_to_concat [OF conts] by blast
  qed
  then show "\<exists>w'. exec (DoSubscribe (FlatMapPublisher p kf) d) w = ret w' \<and> same_except L w w' \<and> Q w'"
    using base wf L Q t K by (intro flat_subscribe)
qed

end
