(* ===== verification/Concat_Contract.thy ===== *)
theory Concat_Contract
  imports Contracts
begin

text \<open>
  \<open>ConcatStream\<close> meets the contract: its downstream sees the values of the first publisher, then
  those of the second; requests not served by the first upstream are made to the second one. The
  lemmas follow the reference count of the stream, which the local of \<open>ConcatPublisher::Subscribe\<close>,
  the self lock, a temporary of each \<open>SubscribeNext\<close> and each wrapper hold.
\<close>

definition concat_at ::
  "addr \<Rightarrow> sid \<Rightarrow> addr \<Rightarrow> nat \<Rightarrow> ('v, 'u) publisher \<Rightarrow> sid option \<Rightarrow> nat \<Rightarrow> addr option
    \<Rightarrow> ('v, 'u) world \<Rightarrow> bool" where
  "concat_at c sc d n kont b rb lock w \<longleftrightarrow>
     heap w c = Some (ConcatStream \<lparr>co_sid = sc, co_subscriber = d, co_continue_with = kont,
       co_upstream_subscription = b, co_request_balance = counter rb, co_self_lock = lock\<rparr>)
     \<and> refs w c = n \<and> impl w sc = Some c"

abbreviation concat_obj ::
  "sid \<Rightarrow> addr \<Rightarrow> ('v, 'u) publisher \<Rightarrow> sid option \<Rightarrow> nat \<Rightarrow> addr option \<Rightarrow> ('v, 'u) obj" where
  "concat_obj sc d kont b rb lock \<equiv> ConcatStream \<lparr>co_sid = sc, co_subscriber = d, co_continue_with = kont,
     co_upstream_subscription = b, co_request_balance = counter rb, co_self_lock = lock\<rparr>"

lemma concat_at_put [simp]:
  "concat_at c sc d n kont b rb lock w \<Longrightarrow>
    concat_at c sc d n kont' b' rb' lock' (put c (concat_obj sc d kont' b' rb' lock') w)"
  by (simp add: concat_at_def)

lemma concat_at_set_refs [simp]:
  "concat_at c sc d n kont b rb lock w \<Longrightarrow> concat_at c sc d m kont b rb lock (set_refs c m w)"
  by (simp add: concat_at_def)

lemma concat_at_same_on:
  "concat_at c sc d n kont b rb lock w \<Longrightarrow> same_on L w w' \<Longrightarrow> Cell c \<in> L \<Longrightarrow> Sub sc \<in> L \<Longrightarrow>
    concat_at c sc d n kont b rb lock w'"
  by (auto simp: concat_at_def same_on_alt)

lemma concat_at_same_except:
  "concat_at c sc d n kont b rb lock w \<Longrightarrow> same_except L w w' \<Longrightarrow> Cell c \<notin> L \<Longrightarrow> Sub sc \<notin> L \<Longrightarrow>
    concat_at c sc d n kont b rb lock w'"
  by (auto simp: concat_at_def same_except_alt)

lemma wrapper_calls:
  assumes "wrapper_at e c w" and "concat_at c sc d n kont b rb lock w"
  shows "exec (OnSubscribe e s) w = ConcatStream_OnSubscribe exec c s w"
    and "exec (OnNext e s ev) w = ConcatStream_OnNext exec c ev w"
    and "exec (Destroy e) w = release exec c (free e w)"
  using assms by (simp_all add: wrapper_at_def concat_at_def exec_OnSubscribe exec_OnNext exec_Destroy
      SharedSubscriberWrapper_OnSubscribe_def SharedSubscriberWrapper_OnNext_def)

section \<open>The stream as its downstream sees it\<close>

text \<open>The stored balance exceeds the pending count by \<open>off\<close>: 1 during the terminal event.\<close>

definition concat_up ::
  "addr \<Rightarrow> sid \<Rightarrow> addr \<Rightarrow> nat \<Rightarrow> ('v, 'u) publisher \<Rightarrow> sid \<Rightarrow> nat \<Rightarrow> addr option
    \<Rightarrow> (nat \<Rightarrow> ('v, 'u) world \<Rightarrow> bool) \<Rightarrow> nat \<Rightarrow> ('v, 'u) world \<Rightarrow> bool" where
  "concat_up c sc d n kont s off lock Up k w \<longleftrightarrow> concat_at c sc d n kont (Some s) (k + off) lock w \<and> Up k w"

lemma concat_passive:
  assumes up: "passive_stream s U Up K" and own: "Cell c \<notin> U" "Sub sc \<notin> U" and K: "K + off < pending_limit"
  shows "passive_stream sc (U \<union> {Cell c, Sub sc}) (concat_up c sc d n kont s off lock Up) K"
proof (unfold_locales, goal_cases)
  case (1 k w w')
  then show ?case
    using passive_stream.stable [OF up] by (auto simp: concat_up_def concat_at_def)
next
  case (2 k w)
  then show ?case by (simp add: concat_up_def concat_at_def)
next
  case (3 k w m)
  have at: "concat_at c sc d n kont (Some s) (k + off) lock w" and u: "Up k w"
    using 3(1) by (simp_all add: concat_up_def)
  let ?w1 = "put c (concat_obj sc d kont (Some s) (k + off + m) lock) w"
  have u1: "Up k ?w1" using passive_stream.stable [OF up u, of ?w1] own by simp
  then obtain w' where w': "Subscription_Request exec s (of_nat m) ?w1 = ret w'" "Up (k + m) w'"
    "same_except U ?w1 w'"
    using passive_stream.request [OF up] 3(2,3) by blast
  have "Add (counter (k + off)) (of_nat m) = counter (k + off + m)" using counter_Add 3(3) K by simp
  then have "Subscription_Request exec sc (of_nat m) w = ret w'"
    using at w'(1) passive_stream.live [OF up u1]
    by (simp add: concat_at_def Subscription_live exec_Request ConcatStream_Request_def get_simps)
  moreover have "concat_at c sc d n kont (Some s) (k + m + off) lock w'"
    using concat_at_same_except [OF concat_at_put [OF at] w'(3) own] by (simp add: ac_simps)
  moreover have "same_except (U \<union> {Cell c, Sub sc}) w w'"
    by (rule same_except_from [OF w'(3)]) simp
  ultimately show ?case using w'(2) by (auto simp: concat_up_def)
qed

lemma concat_delivering:
  assumes del: "delivering s (L \<union> {Cell c, Sub sc, Cell e}) U Up K j w w1"
    and own: "Cell c \<notin> L" "Sub sc \<notin> L" and K: "K + off < pending_limit"
    and at: "concat_at c sc d n kont (Some s) rb lock w1"
    and w2: "w2 = put c (concat_obj sc d kont (Some s) (j + off) lock) w1"
  shows "delivering sc L (U \<union> {Cell c, Sub sc}) (concat_up c sc d n kont s off lock Up) K j w w2"
proof -
  have up: "passive_stream s U Up K" and u: "Cell c \<notin> U" "Sub sc \<notin> U" "Up j w1"
    using del by (auto simp: delivering_def)
  have "Up j w2" using passive_stream.stable [OF up u(3), of w2] u by (simp add: w2)
  then show ?thesis
    using del own concat_passive [OF up u(1,2) K] at
    unfolding delivering_def w2 by (auto simp: concat_up_def)
qed

section \<open>Values\<close>

text \<open>
  The wrapper \<open>e\<close> is ready for the values \<open>vs\<close> when the downstream is ready for them and for the
  events \<open>rest\<close>, and the wrapper is ready for the terminal event \<open>t'\<close> once they have passed.
\<close>

lemma concat_values_ready:
  assumes "ready d sc L K Q t (vs @ rest) j w" and "concat_at c sc d n kont (Some s) (Suc j) lock w"
    and "wrapper_at e c w" and own: "Cell c \<notin> L" "Sub sc \<notin> L" "Cell e \<notin> L" "c \<noteq> e" and K: "Suc K < pending_limit"
    and fin: "\<And>j w. ready d sc L K Q t rest j w \<Longrightarrow> concat_at c sc d n kont (Some s) (Suc j) lock w \<Longrightarrow>
      wrapper_at e c w \<Longrightarrow> ready e s (L \<union> {Cell c, Sub sc, Cell e}) K Q' t' [] j w"
  shows "ready e s (L \<union> {Cell c, Sub sc, Cell e}) K Q' t' vs j w"
  using assms(1-3)
proof (induction vs arbitrary: j w)
  case Nil
  then show ?case using fin by simp
next
  case (Cons v vs)
  let ?L = "L \<union> {Cell c, Sub sc, Cell e}"
  have j: "j < K" using ready_less [OF Cons.prems(1)] .
  show ?case unfolding ready.simps
  proof (intro conjI allI impI)
    show "j < K" by (rule j)
    fix w1 U Up assume del: "delivering s ?L U Up K j w w1"
    have at1: "concat_at c sc d n kont (Some s) (Suc j) lock w1" and e1: "wrapper_at e c w1"
      using concat_at_same_on [OF Cons.prems(2)] wrapper_at_same_on [OF Cons.prems(3)] del
      by (auto simp: delivering_def simp del: same_on_insert)
    let ?w2 = "put c (concat_obj sc d kont (Some s) (j + 0) lock) w1"
    have d2: "delivering sc L (U \<union> {Cell c, Sub sc}) (concat_up c sc d n kont s 0 lock Up) K j w ?w2"
      by (rule concat_delivering [OF del own(1,2) _ at1]) (use K in simp_all)
    obtain w3 j' where 3: "exec (OnNext d sc (ValueRepr v)) ?w2 = ret w3"
      "same_except (L \<union> (U \<union> {Cell c, Sub sc})) ?w2 w3" "concat_up c sc d n kont s 0 lock Up (Suc j') w3"
      "ready d sc L K Q t (vs @ rest) j' w3"
      using Cons.prems(1) d2 unfolding append_Cons by (rule ready_ConsD)
    have s13: "same_except (L \<union> (U \<union> {Cell c, Sub sc})) w1 w3"
      using same_except_trans [OF _ 3(2), of w1] by simp
    have "exec (OnNext e s (ValueRepr v)) w1 = ret w3"
      using at1 3(1) j K by (simp add: wrapper_calls [OF e1 at1] concat_at_def ConcatStream_OnNext_def get_simps
          counter_Remove)
    moreover have "same_except (?L \<union> U) w1 w3" by (rule same_except_mono [OF s13]) auto
    moreover have "Up (Suc j') w3" and "concat_at c sc d n kont (Some s) (Suc j') lock w3"
      using 3(3) by (simp_all add: concat_up_def)
    moreover have "wrapper_at e c w3"
      using wrapper_at_same_except [OF e1 s13] own del by (auto simp: delivering_def)
    ultimately show "\<exists>w'' j'. exec (OnNext e s (ValueRepr v)) w1 = ret w'' \<and> same_except (?L \<union> U) w1 w''
        \<and> Up (Suc j') w'' \<and> ready e s ?L K Q' t' vs j' w''"
      using Cons.IH [OF 3(4)] by blast
  qed
qed

section \<open>Terminal events\<close>

text \<open>
  The stream has sent its last event and dropped its self lock; \<open>m\<close> references are left.
\<close>

definition concat_fin ::
  "addr \<Rightarrow> sid \<Rightarrow> addr \<Rightarrow> nat \<Rightarrow> loc set \<Rightarrow> (('v, 'u) world \<Rightarrow> bool) \<Rightarrow> ('v, 'u) world \<Rightarrow> bool" where
  "concat_fin c sc d m L Q w \<longleftrightarrow>
     (\<exists>kont b rb. concat_at c sc d m kont b rb None w) \<and> closing d L Q w"

lemma concat_fin_same_on:
  "concat_fin c sc d m L Q w \<Longrightarrow> same_on (L \<union> {Cell c, Sub sc}) w w' \<Longrightarrow> concat_fin c sc d m L Q w'"
  unfolding concat_fin_def
  by (meson concat_at_same_on closing_stable same_on_subset insertCI Un_upper1 UnI2)

lemma concat_fin_release:
  assumes "concat_fin c sc d (Suc (Suc m)) L Q w" and "Cell c \<notin> L"
  shows "release exec c w = ret (set_refs c (Suc m) w)" and "concat_fin c sc d (Suc m) L Q (set_refs c (Suc m) w)"
proof -
  obtain kont b rb where at: "concat_at c sc d (Suc (Suc m)) kont b rb None w" and cl: "closing d L Q w"
    using assms(1) by (auto simp: concat_fin_def)
  show "release exec c w = ret (set_refs c (Suc m) w)" using at by (simp add: concat_at_def release_dec)
  have "closing d L Q (set_refs c (Suc m) w)" using closing_stable [OF cl] assms(2) by simp
  with at show "concat_fin c sc d (Suc m) L Q (set_refs c (Suc m) w)"
    using concat_at_set_refs unfolding concat_fin_def by blast
qed

lemma wrapper_closing:
  assumes cl: "closing d L Q w" and at: "concat_at c sc d (Suc (Suc m)) kont b rb None w" and e: "wrapper_at e c w"
    and own: "Cell c \<notin> L" "Sub sc \<notin> L" "Cell e \<notin> L" "c \<noteq> e"
  shows "closing e (L \<union> {Cell c, Sub sc, Cell e})
    (\<lambda>w. (heap w e = None \<and> refs w e = 0) \<and> concat_fin c sc d (Suc m) L Q w) w"
  unfolding closing_def
proof (intro allI impI, elim conjE)
  let ?L = "L \<union> {Cell c, Sub sc, Cell e}"
  fix w' assume same: "same_on ?L w w'"
  let ?w = "set_refs c (Suc m) (free e w')"
  have at': "concat_at c sc d (Suc (Suc m)) kont b rb None w'" using concat_at_same_on [OF at same] by simp
  have e': "wrapper_at e c w'" using wrapper_at_same_on [OF e same] by simp
  have atf: "concat_at c sc d (Suc (Suc m)) kont b rb None (free e w')"
    using at' own by (simp add: concat_at_def)
  have "closing d L Q (free e w')" using closing_stable [OF cl] same own by simp
  with atf have fin: "concat_fin c sc d (Suc (Suc m)) L Q (free e w')" by (auto simp: concat_fin_def)
  have "exec (Destroy e) w' = ret ?w"
    using concat_fin_release(1) [OF fin own(1)] by (simp add: wrapper_calls [OF e' at'])
  moreover have "same_except ?L w' ?w" by simp
  moreover have "(heap ?w e = None \<and> refs ?w e = 0) \<and> concat_fin c sc d (Suc m) L Q ?w"
    using concat_fin_release(2) [OF fin own(1)] e' own by (simp add: wrapper_at_def)
  ultimately show "\<exists>w''. exec (Destroy e) w' = ret w'' \<and> same_except ?L w' w''
      \<and> (heap w'' e = None \<and> refs w'' e = 0) \<and> concat_fin c sc d (Suc m) L Q w''"
    by blast
qed

text \<open>The terminal event of the second upstream, or an error of the first one.\<close>

lemma concat_last:
  assumes r: "ready d sc L K Q t [] j w" and at: "concat_at c sc d (Suc (Suc (Suc m))) kont (Some s) (Suc j) (Some c) w"
    and e: "wrapper_at e c w" and own: "Cell c \<notin> L" "Sub sc \<notin> L" "Cell e \<notin> L" "c \<noteq> e"
    and K: "Suc K < pending_limit" and t: "code t \<noteq> OK" "code t \<noteq> OUT_OF_RANGE \<or> kont = None"
  shows "ready e s (L \<union> {Cell c, Sub sc, Cell e}) K
    (\<lambda>w. (heap w e = None \<and> refs w e = 0) \<and> concat_fin c sc d (Suc m) L Q w) t [] j w"
  unfolding ready.simps
proof (intro conjI allI impI)
  let ?L = "L \<union> {Cell c, Sub sc, Cell e}"
  let ?Q = "\<lambda>w. (heap w e = None \<and> refs w e = 0) \<and> concat_fin c sc d (Suc m) L Q w"
  show "j < K" by (rule ready_less [OF r])
  fix w1 U Up assume del: "delivering s ?L U Up K j w w1"
  have at1: "concat_at c sc d (Suc (Suc (Suc m))) kont (Some s) (Suc j) (Some c) w1" and e1: "wrapper_at e c w1"
    using concat_at_same_on [OF at] wrapper_at_same_on [OF e] del
    by (auto simp: delivering_def simp del: same_on_insert)
  have d2: "delivering sc L (U \<union> {Cell c, Sub sc})
      (concat_up c sc d (Suc (Suc (Suc m))) kont s 1 (Some c) Up) K j w w1"
    by (rule concat_delivering [OF del own(1,2) _ at1]) (use K at1 in \<open>simp_all add: concat_at_def put_same\<close>)
  obtain w2 j' where 2: "exec (OnNext d sc (StatusRepr t)) w1 = ret w2"
    "same_except (L \<union> (U \<union> {Cell c, Sub sc})) w1 w2"
    "concat_up c sc d (Suc (Suc (Suc m))) kont s 1 (Some c) Up j' w2" "closing d L Q w2"
    by (rule ready_NilD [OF r d2])
  define w3 where "w3 = set_refs c (Suc (Suc m)) (put c (concat_obj sc d kont (Some s) (j' + 1) None) w2)"
  have at2: "concat_at c sc d (Suc (Suc (Suc m))) kont (Some s) (j' + 1) (Some c) w2"
    using 2(3) by (simp add: concat_up_def)
  have at3: "concat_at c sc d (Suc (Suc m)) kont (Some s) (j' + 1) None w3"
    unfolding w3_def by (rule concat_at_set_refs [OF concat_at_put [OF at2]])
  have rel: "release exec c (put c (concat_obj sc d kont (Some s) (j' + 1) None) w2) = ret w3"
    using at2 by (simp add: w3_def concat_at_def release_dec)
  have "exec (OnNext e s (StatusRepr t)) w1 = ret w3"
    unfolding wrapper_calls(2) [OF e1 at1] using at1 at2 2(1) rel t
    by (auto simp: concat_at_def ConcatStream_OnNext_def get_simps is_running_first_def)
  moreover have "same_except (?L \<union> U) w1 w3"
  proof -
    have "same_except (?L \<union> U) w1 w2" by (rule same_except_mono [OF 2(2)]) auto
    then show ?thesis by (simp add: w3_def)
  qed
  moreover have "Up j' w3"
  proof -
    have "Up j' w2" "passive_stream s U Up K" "Cell c \<notin> U" using 2(3) del by (auto simp: concat_up_def delivering_def)
    then show ?thesis using passive_stream.stable [of s U Up K j' w2 w3] by (simp add: w3_def)
  qed
  moreover have "closing e ?L ?Q w3"
  proof (rule wrapper_closing [OF _ at3 _ own])
    show "closing d L Q w3" by (rule closing_stable [OF 2(4)]) (use own in \<open>simp add: w3_def\<close>)
    have "wrapper_at e c w2"
      using wrapper_at_same_except [OF e1 2(2)] own del by (auto simp: delivering_def)
    then show "wrapper_at e c w3" using own by (simp add: w3_def wrapper_at_def)
  qed
  ultimately show "\<exists>w'' j'. exec (OnNext e s (StatusRepr t)) w1 = ret w'' \<and> same_except (?L \<union> U) w1 w''
      \<and> Up j' w'' \<and> closing e ?L ?Q w''"
    by blast
qed

section \<open>Subscribing to an upstream\<close>

lemma SubscribeNext_eq:
  assumes at: "concat_at c sc d (Suc n) kont b rb lock w" and lock: "lock = None \<or> lock = Some c \<and> 0 < n"
    and wf: "wf_world w" "c < next_addr w"
  defines "n' \<equiv> (if lock = None then Suc (Suc n) else Suc n)"
  obtains w2 where "ConcatStream_SubscribeNext exec c p w =
      bnd (exec (DoSubscribe p (next_addr w)) w2) (release exec c)"
    and "concat_at c sc d (Suc (Suc n')) kont b rb (Some c) w2" and "wrapper_at (next_addr w) c w2"
    and "same_except {Cell c, Cell (next_addr w)} w w2" and "wf_world w2" and "next_addr w2 = Suc (next_addr w)"
    and "next_sid w2 = next_sid w"
proof -
  let ?w1 = "set_refs c n' (put c (concat_obj sc d kont b rb (Some c)) (share c w))"
  let ?w2 = "SharedSubscriberWrapper_Create c (share c ?w1)"
  have 1: "release_opt exec lock (put c (concat_obj sc d kont b rb (Some c)) (share c w)) = ret ?w1"
  proof (cases "lock = None")
    case True
    then have "set_refs c n' (put c (concat_obj sc d kont b rb (Some c)) (share c w))
        = put c (concat_obj sc d kont b rb (Some c)) (share c w)"
      using at by (simp add: n'_def set_refs_def put_def share_def concat_at_def)
    with True show ?thesis by simp
  next
    case False
    with lock at show ?thesis by (simp add: n'_def release_dec concat_at_def)
  qed
  have "ConcatStream_SubscribeNext exec c p w = bnd (exec (DoSubscribe p (next_addr w)) ?w2) (release exec c)"
    using at 1
    by (simp add: ConcatStream_SubscribeNext_def concat_at_def self_live get_simps n'_def SharedSubscriberWrapper_Create_def
        cong: bnd_weak_cong)
  moreover have "concat_at c sc d (Suc (Suc n')) kont b rb (Some c) ?w2"
    using at wf by (simp add: concat_at_def SharedSubscriberWrapper_Create_def)
  moreover have "wrapper_at (next_addr w) c ?w2"
    using wf by (simp add: wrapper_at_def SharedSubscriberWrapper_Create_def wf_worldD)
  moreover have "same_except {Cell c, Cell (next_addr w)} w ?w2" by (simp add: SharedSubscriberWrapper_Create_def)
  moreover have "wf_world ?w2" "next_addr ?w2 = Suc (next_addr w)" "next_sid ?w2 = next_sid w"
    using wf by (simp_all add: SharedSubscriberWrapper_Create_def)
  ultimately show ?thesis by (rule that)
qed

lemma concat_start:
  assumes st: "\<And>w' s. same_on (L \<union> {Cell c, Sub sc, Cell e}) w w' \<Longrightarrow> wf_world w' \<Longrightarrow>
      insert (Sub s) (L \<union> {Cell c, Sub sc, Cell e}) \<subseteq> old w' \<Longrightarrow> Sub s \<notin> L \<union> {Cell c, Sub sc, Cell e} \<Longrightarrow>
      impl w' s \<noteq> None \<Longrightarrow> concat_at c sc d n kont b rb lock w' \<Longrightarrow>
      \<exists>j w''. same_except (L \<union> {Cell c, Sub sc, Cell e}) w' w''
        \<and> ready e s (L \<union> {Cell c, Sub sc, Cell e}) K Q t vs j w''
        \<and> ConcatStream_OnSubscribe exec c s w' = Subscription_Request exec s (of_nat (Suc j)) w''"
    and at: "concat_at c sc d n kont b rb lock w" and e: "wrapper_at e c w"
  shows "start e (L \<union> {Cell c, Sub sc, Cell e}) K Q t vs w"
  unfolding start_def
proof (intro allI impI, elim conjE)
  fix w' s assume same: "same_on (L \<union> {Cell c, Sub sc, Cell e}) w w'" and w': "wf_world w'"
    "insert (Sub s) (L \<union> {Cell c, Sub sc, Cell e}) \<subseteq> old w'" "Sub s \<notin> L \<union> {Cell c, Sub sc, Cell e}" "impl w' s \<noteq> None"
  have at': "concat_at c sc d n kont b rb lock w'" using concat_at_same_on [OF at same] by simp
  have e': "wrapper_at e c w'" using wrapper_at_same_on [OF e same] by simp
  show "\<exists>j w''. same_except (L \<union> {Cell c, Sub sc, Cell e}) w' w''
      \<and> ready e s (L \<union> {Cell c, Sub sc, Cell e}) K Q t vs j w''
      \<and> exec (OnSubscribe e s) w' = Subscription_Request exec s (of_nat (Suc j)) w''"
    unfolding wrapper_calls(1) [OF e' at'] by (rule st [OF same w' at'])
qed

lemma stable_on_fin:
  "stable_on (L \<union> {Cell c, Sub sc, Cell e})
    (\<lambda>w. (heap w e = None \<and> refs w e = 0) \<and> concat_fin c sc d m L Q w)"
  unfolding stable_on_def
proof (intro allI impI)
  fix w w' assume 1: "(heap w e = None \<and> refs w e = 0) \<and> concat_fin c sc d m L Q w"
    and 2: "same_on (L \<union> {Cell c, Sub sc, Cell e}) w w'"
  have "concat_fin c sc d m L Q w'"
    by (rule concat_fin_same_on [OF conjunct2 [OF 1] same_on_subset [OF 2]]) auto
  with 1 2 show "(heap w' e = None \<and> refs w' e = 0) \<and> concat_fin c sc d m L Q w'" by simp
qed

text \<open>The second upstream runs while the first one delivers its end.\<close>

lemma concat_second:
  assumes q: "pub_ok K q t ws" and r: "ready d sc L K Q t ws j w"
    and at: "concat_at c sc d 4 None None (Suc j) (Some c) w" and wf: "wf_world w" and L: "L \<union> {Cell c, Sub sc} \<subseteq> old w"
    and own: "Cell c \<notin> L" "Sub sc \<notin> L" and K: "Suc K < pending_limit" and t: "code t \<noteq> OK"
  obtains w' where "ConcatStream_SubscribeNext exec c q w = ret w'" and "same_except (L \<union> {Cell c, Sub sc}) w w'"
    and "concat_fin c sc d 3 L Q w'"
proof -
  let ?e = "next_addr w"
  let ?L = "L \<union> {Cell c, Sub sc, Cell ?e}"
  let ?Q = "\<lambda>w. (heap w ?e = None \<and> refs w ?e = 0) \<and> concat_fin c sc d (Suc 3) L Q w"
  have j: "j < K" using ready_less [OF r] .
  have e: "Cell ?e \<notin> L" "c \<noteq> ?e" using L by auto
  have "concat_at c sc d (Suc 3) None None (Suc j) (Some c) w" using at by (simp add: eval_nat_numeral)
  then obtain w2 where 2: "ConcatStream_SubscribeNext exec c q w = bnd (exec (DoSubscribe q ?e) w2) (release exec c)"
    "concat_at c sc d 6 None None (Suc j) (Some c) w2" "wrapper_at ?e c w2" "same_except {Cell c, Cell ?e} w w2"
    "wf_world w2" "next_addr w2 = Suc ?e" "next_sid w2 = next_sid w"
    by (rule SubscribeNext_eq [where p = q]) (use wf L in auto)
  have r2: "ready d sc L K Q t ws j w2"
    by (rule ready_stable [OF r same_except_same_on [OF 2(4)]]) (use own e in auto)
  have st2: "start ?e ?L K ?Q t ws w2"
  proof (rule concat_start [OF _ 2(2,3)])
    fix w3 s assume same: "same_on ?L w2 w3" and at3: "concat_at c sc d 6 None None (Suc j) (Some c) w3"
    let ?w4 = "put c (concat_obj sc d None (Some s) (Suc j) (Some c)) w3"
    have at4: "concat_at c sc d (Suc (Suc (Suc 3))) None (Some s) (Suc j) (Some c) ?w4"
      using at3 by (simp add: concat_at_def)
    have "(of_nat (Suc j) :: size_t) \<noteq> 0" using j K by (intro of_nat_neq_0_64) simp_all
    then have "ConcatStream_OnSubscribe exec c s w3 = Subscription_Request exec s (of_nat (Suc j)) ?w4"
      using at3 by (simp add: concat_at_def ConcatStream_OnSubscribe_def get_simps is_running_first_def
          counter_balance word_greater_zero_iff del: of_nat_Suc)
    moreover have "ready ?e s ?L K ?Q t ws j ?w4"
    proof (rule concat_values_ready [OF _ at4 _ own e K concat_last [OF _ _ _ own e K t disjI2 [OF refl]]])
      show "ready d sc L K Q t (ws @ []) j ?w4"
        using ready_stable [OF r2, of ?w4] same own by simp
      show "wrapper_at ?e c ?w4" using wrapper_at_same_on [OF 2(3) same] e by (simp add: wrapper_at_def)
    qed simp_all
    moreover have "same_except ?L w3 ?w4" by simp
    ultimately show "\<exists>j w''. same_except ?L w3 w'' \<and> ready ?e s ?L K ?Q t ws j w''
        \<and> ConcatStream_OnSubscribe exec c s w3 = Subscription_Request exec s (of_nat (Suc j)) w''"
      by blast
  qed
  have old2: "?L \<subseteq> old w2" using old_mono [of _ w w2] L 2(6,7) by simp
  obtain w3 where 3: "exec (DoSubscribe q ?e) w2 = ret w3" "same_except ?L w2 w3" "?Q w3"
    by (rule pub_okD [OF q 2(5) old2 stable_on_fin st2])
  have fin: "concat_fin c sc d (Suc (Suc 2)) L Q w3" using 3(3) by (simp add: eval_nat_numeral)
  have "same_except (L \<union> {Cell c, Sub sc}) w (set_refs c (Suc 2) w3)"
  proof (rule same_except_shrink [of _ "{Cell ?e}"])
    have "same_except (L \<union> {Cell c, Sub sc} \<union> {Cell ?e}) w w3"
      by (rule same_except_mono [OF same_except_from [OF 3(2) 2(4)]]) auto
    then show "same_except (L \<union> {Cell c, Sub sc} \<union> {Cell ?e}) w (set_refs c (Suc 2) w3)" by simp
    show "same_on {Cell ?e} w (set_refs c (Suc 2) w3)" using 3(3) wf e by (simp add: wf_worldD)
  qed
  with 2(1) 3(1) concat_fin_release [OF fin own(1)] show ?thesis
    by (intro that [of "set_refs c (Suc 2) w3"]) (simp_all add: eval_nat_numeral)
qed

text \<open>The end of the first upstream.\<close>

lemma concat_done:
  assumes r: "ready d sc L K Q t ws j w" and at: "concat_at c sc d 4 (Some q) (Some s) (Suc j) (Some c) w"
    and e: "wrapper_at e c w" and q: "pub_ok K q t ws" and own: "Cell c \<notin> L" "Sub sc \<notin> L" "Cell e \<notin> L" "c \<noteq> e"
    and K: "Suc K < pending_limit" and t: "code t \<noteq> OK" and t1: "code t1 = OUT_OF_RANGE"
  shows "ready e s (L \<union> {Cell c, Sub sc, Cell e}) K
    (\<lambda>w. (heap w e = None \<and> refs w e = 0) \<and> concat_fin c sc d 2 L Q w) t1 [] j w"
  unfolding ready.simps
proof (intro conjI allI impI)
  let ?L = "L \<union> {Cell c, Sub sc, Cell e}"
  let ?Q = "\<lambda>w. (heap w e = None \<and> refs w e = 0) \<and> concat_fin c sc d 2 L Q w"
  show "j < K" by (rule ready_less [OF r])
  fix w1 U Up assume del: "delivering s ?L U Up K j w w1"
  have at1: "concat_at c sc d 4 (Some q) (Some s) (Suc j) (Some c) w1" and e1: "wrapper_at e c w1"
    using concat_at_same_on [OF at] wrapper_at_same_on [OF e] del
    by (auto simp: delivering_def simp del: same_on_insert)
  define w2 where "w2 = put c (concat_obj sc d None None (Suc j) (Some c)) w1"
  have at2: "concat_at c sc d 4 None None (Suc j) (Some c) w2" using at1 by (simp add: w2_def concat_at_def)
  have wf2: "wf_world w2" "L \<union> {Cell c, Sub sc} \<subseteq> old w2" using del by (auto simp: delivering_def w2_def)
  have "ready d sc L K Q t ws j w2"
    by (rule ready_stable [OF r]) (use del own in \<open>auto simp: delivering_def w2_def\<close>)
  then obtain w3 where 3: "ConcatStream_SubscribeNext exec c q w2 = ret w3"
    "same_except (L \<union> {Cell c, Sub sc}) w2 w3" "concat_fin c sc d 3 L Q w3"
    by (rule concat_second [OF q _ at2 wf2 own(1,2) K t])
  have s13: "same_except (L \<union> {Cell c, Sub sc}) w1 w3"
    using same_except_trans [OF _ 3(2), of w1] by (simp add: w2_def)
  have "exec (OnNext e s (StatusRepr t1)) w1 = ret w3"
    unfolding wrapper_calls(2) [OF e1 at1] using at1 3(1) t1
    by (simp add: concat_at_def ConcatStream_OnNext_def get_simps is_running_first_def w2_def)
  moreover have "same_except (?L \<union> U) w1 w3" by (rule same_except_mono [OF s13]) auto
  moreover have "Up j w3"
  proof -
    have "same_on U w1 w3" by (rule same_except_same_on [OF s13]) (use del in \<open>auto simp: delivering_def\<close>)
    then show ?thesis using passive_stream.stable [of s U Up K j w1 w3] del by (simp add: delivering_def)
  qed
  moreover have "closing e ?L ?Q w3"
  proof -
    obtain kont b rb where "concat_at c sc d (Suc (Suc 1)) kont b rb None w3" and "closing d L Q w3"
      using 3(3) by (auto simp: concat_fin_def eval_nat_numeral)
    moreover have "wrapper_at e c w3" using wrapper_at_same_except [OF e1 s13] own by simp
    ultimately show ?thesis using wrapper_closing [of d L Q w3 c sc 1 kont b rb e] own by (simp add: eval_nat_numeral)
  qed
  ultimately show "\<exists>w'' j'. exec (OnNext e s (StatusRepr t1)) w1 = ret w'' \<and> same_except (?L \<union> U) w1 w''
      \<and> Up j' w'' \<and> closing e ?L ?Q w''"
    by blast
qed

section \<open>The publisher\<close>

text \<open>The first publisher ends with \<open>t1\<close> after \<open>vs\<close>; the downstream sees the events \<open>vs @ ws\<close> and \<open>t\<close>.\<close>

lemma concat_first_start:
  assumes st: "start d L K Q t (vs @ ws) w" and at: "concat_at c sc d 4 (Some q) None 0 (Some c) w"
    and e: "wrapper_at e c w" and own: "Cell c \<notin> L" "Sub sc \<notin> L" "Cell e \<notin> L" "c \<noteq> e" and K: "Suc K < pending_limit"
    and t: "code t \<noteq> OK"
    and ends: "code t1 = OUT_OF_RANGE \<and> pub_ok K q t ws \<or> code t1 \<noteq> OUT_OF_RANGE \<and> t1 = t \<and> ws = []"
  shows "start e (L \<union> {Cell c, Sub sc, Cell e}) K
    (\<lambda>w. (heap w e = None \<and> refs w e = 0) \<and> concat_fin c sc d 2 L Q w) t1 vs w"
proof (rule concat_start [OF _ at e])
  let ?L = "L \<union> {Cell c, Sub sc, Cell e}"
  let ?Q = "\<lambda>w. (heap w e = None \<and> refs w e = 0) \<and> concat_fin c sc d 2 L Q w"
  fix w1 s assume same: "same_on ?L w w1" and wf: "wf_world w1" and old: "insert (Sub s) ?L \<subseteq> old w1"
    and s: "Sub s \<notin> ?L" and live: "impl w1 s \<noteq> None" and at1: "concat_at c sc d 4 (Some q) None 0 (Some c) w1"
  define w2 where "w2 = put c (concat_obj sc d (Some q) (Some s) 0 (Some c)) w1"
  have "same_on L w w2" "wf_world w2" "insert (Sub sc) L \<subseteq> old w2"
    using same wf old own by (auto simp: w2_def)
  moreover have "impl w2 sc \<noteq> None" using at1 by (simp add: concat_at_def w2_def)
  ultimately obtain j w3 where 3: "same_except L w2 w3" "ready d sc L K Q t (vs @ ws) j w3"
    "exec (OnSubscribe d sc) w2 = Subscription_Request exec sc (of_nat (Suc j)) w3"
    using startD [OF st _ _ _ own(2)] by metis
  have j: "j < K" using ready_less [OF 3(2)] .
  have at2: "concat_at c sc d 4 (Some q) (Some s) 0 (Some c) w2" using at1 by (simp add: w2_def concat_at_def)
  have at3: "concat_at c sc d 4 (Some q) (Some s) 0 (Some c) w3" by (rule concat_at_same_except [OF at2 3(1) own(1,2)])
  define w4 where "w4 = put c (concat_obj sc d (Some q) (Some s) (Suc j) (Some c)) w3"
  have at4: "concat_at c sc d 4 (Some q) (Some s) (Suc j) (Some c) w4" using at3 by (simp add: w4_def concat_at_def)
  have add: "Add (counter 0) (of_nat (Suc j)) = counter (Suc j)" using counter_Add [of 0 "Suc j"] j K by simp
  have "ConcatStream_OnSubscribe exec c s w1 = exec (OnSubscribe d sc) w2"
    using at1 by (simp add: concat_at_def ConcatStream_OnSubscribe_def get_simps is_running_first_def w2_def)
  also have "\<dots> = Subscription_Request exec s (of_nat (Suc j)) w4"
  proof -
    have "impl w3 s \<noteq> None" using same_exceptD [OF 3(1)] live s by (simp add: w2_def)
    then show ?thesis
      unfolding 3(3) using at3 add
      by (simp add: concat_at_def Subscription_live exec_Request ConcatStream_Request_def get_simps w4_def
          del: of_nat_Suc)
  qed
  finally have eq: "ConcatStream_OnSubscribe exec c s w1 = Subscription_Request exec s (of_nat (Suc j)) w4" .
  have r4: "ready d sc L K Q t (vs @ ws) j w4" by (rule ready_stable [OF 3(2)]) (use own in \<open>simp add: w4_def\<close>)
  have e4: "wrapper_at e c w4"
    using wrapper_at_same_on [OF e same] same_exceptD [OF 3(1)] own by (simp add: wrapper_at_def w2_def w4_def)
  have "ready e s ?L K ?Q t1 vs j w4"
  proof (rule concat_values_ready [OF r4 at4 e4 own K])
    fix j w5 assume r: "ready d sc L K Q t ws j w5" and at: "concat_at c sc d 4 (Some q) (Some s) (Suc j) (Some c) w5"
      and e: "wrapper_at e c w5"
    show "ready e s ?L K ?Q t1 [] j w5"
      using ends
    proof (elim disjE conjE)
      assume "code t1 = OUT_OF_RANGE" and "pub_ok K q t ws"
      then show ?thesis by (intro concat_done [OF r at e _ own K t])
    next
      assume t1: "code t1 \<noteq> OUT_OF_RANGE" "t1 = t" "ws = []"
      have at': "concat_at c sc d (Suc (Suc (Suc 1))) (Some q) (Some s) (Suc j) (Some c) w5"
        using at by (simp add: eval_nat_numeral)
      have "ready d sc L K Q t [] j w5" using r t1 by simp
      from concat_last [OF this at' e own K t] t1 show ?thesis by (simp add: numeral_2_eq_2)
    qed
  qed
  moreover have "same_except ?L w1 w4"
    using same_except_from [OF 3(1), of "{Cell c, Sub sc, Cell e}" w1] by (simp add: w2_def w4_def)
  ultimately show "\<exists>j w''. same_except ?L w1 w'' \<and> ready e s ?L K ?Q t1 vs j w''
      \<and> ConcatStream_OnSubscribe exec c s w1 = Subscription_Request exec s (of_nat (Suc j)) w''"
    using eq by blast
qed

lemma concat_pub_ok:
  assumes p: "pub_ok K p t1 vs" and K: "Suc K < pending_limit" and t: "code t \<noteq> OK"
    and ends: "code t1 = OUT_OF_RANGE \<and> pub_ok K q t ws \<or> code t1 \<noteq> OUT_OF_RANGE \<and> t1 = t \<and> ws = []"
  shows "pub_ok K (ConcatPublisher p q) t (vs @ ws)"
  unfolding pub_ok_def
proof (intro allI impI, elim conjE)
  fix d L Q and w :: "('a, 'b) world"
  assume wf: "wf_world w" and L: "L \<subseteq> old w" and Q: "stable_on L Q" and st: "start d L K Q t (vs @ ws) w"
  let ?c = "next_addr w" and ?s = "next_sid w" and ?e = "Suc (next_addr w)"
  let ?L = "L \<union> {Cell ?c, Sub ?s, Cell ?e}"
  let ?Q = "\<lambda>w. (heap w ?e = None \<and> refs w ?e = 0) \<and> concat_fin ?c ?s d 2 L Q w"
  define w1 where "w1 = share ?c (new_subscription_state ?c (alloc (concat_obj ?s d (Some q) None 0 None) w))"
  have own: "Cell ?c \<notin> L" "Sub ?s \<notin> L" "Cell ?e \<notin> L" "?c \<noteq> ?e" using L by auto
  have at1: "concat_at ?c ?s d (Suc 0) (Some q) None 0 None w1" using wf by (simp add: concat_at_def w1_def wf_worldD)
  have w1: "wf_world w1" "next_addr w1 = ?e" "next_sid w1 = Suc ?s" "same_on L w w1" "same_except ?L w w1"
    using wf own by (simp_all add: w1_def)
  obtain w2 where 2: "ConcatStream_SubscribeNext exec ?c p w1 = bnd (exec (DoSubscribe p ?e) w2) (release exec ?c)"
    "concat_at ?c ?s d 4 (Some q) None 0 (Some ?c) w2" "wrapper_at ?e ?c w2"
    "same_except {Cell ?c, Cell ?e} w1 w2" "wf_world w2" "next_addr w2 = Suc ?e" "next_sid w2 = next_sid w1"
    using SubscribeNext_eq [OF at1, of p] w1 by (auto simp: eval_nat_numeral)
  have "same_on L w1 w2" by (rule same_except_same_on [OF 2(4)]) (use own in auto)
  then have st2: "start d L K Q t (vs @ ws) w2" using start_stable [OF st] w1(4) same_on_trans by blast
  have old2: "?L \<subseteq> old w2" using old_mono [OF L, of w2] w1(2,3) 2(6,7) by simp
  obtain w3 where 3: "exec (DoSubscribe p ?e) w2 = ret w3" "same_except ?L w2 w3" "?Q w3"
    by (rule pub_okD [OF p 2(5) old2 stable_on_fin concat_first_start [OF st2 2(2,3) own K t ends]])
  let ?w4 = "set_refs ?c (Suc 0) w3"
  have fin: "concat_fin ?c ?s d (Suc (Suc 0)) L Q w3" using 3(3) by (simp add: numeral_2_eq_2)
  obtain kont b rb where at4: "concat_at ?c ?s d (Suc 0) kont b rb None ?w4" and cl: "closing d L Q ?w4"
    using concat_fin_release(2) [OF fin own(1)] by (auto simp: concat_fin_def)
  let ?w5 = "free ?c (clear_subscription ?s (set_refs ?c 0 ?w4))"
  have s5: "same_except ?L w ?w5"
    using same_except_trans [OF w1(5) same_except_trans [OF same_except_mono [OF 2(4), of ?L] 3(2)]] by simp
  have wf5: "wf_world ?w5" "L \<subseteq> old ?w5"
    using wf_world_same_except [OF 2(5) 3(2)] old2 same_except_old [OF s5 L]
      same_exceptD(5) [OF 3(2)] 2(6) by simp_all
  have "closing d L Q ?w5" by (rule closing_stable [OF cl]) (use own in simp)
  then obtain w6 where 6: "exec (Destroy d) ?w5 = ret w6" "same_except L ?w5 w6" "Q w6"
    by (rule closingD [OF _ wf5])
  have "release exec ?c ?w4 = ret w6"
    using at4 6(1) by (simp add: concat_at_def release_last exec_Destroy ConcatStream_destroy_def)
  moreover have "ConcatStream_SubscribeNext exec ?c p w1 = ret ?w4"
    using 2(1) 3(1) concat_fin_release(1) [OF fin own(1)] by simp
  ultimately have "exec (DoSubscribe (ConcatPublisher p q) d) w = ret w6"
    by (simp add: exec_DoSubscribe ConcatPublisher_Subscribe_def Let_def w1_def)
  moreover have "same_except L w w6"
  proof (rule same_except_shrink [of L "{Cell ?c, Sub ?s, Cell ?e}"])
    show "same_except ?L w w6" using s5 same_except_widen [OF 6(2)] by (rule same_except_trans)
    have "heap ?w5 ?c = None" "refs ?w5 ?c = 0" "impl ?w5 ?s = None" "heap ?w5 ?e = None" "refs ?w5 ?e = 0"
      using 3(3) by simp_all
    then show "same_on {Cell ?c, Sub ?s, Cell ?e} w w6"
      using same_exceptD [OF 6(2)] own wf by (simp add: wf_worldD)
  qed
  ultimately show "\<exists>w'. exec (DoSubscribe (ConcatPublisher p q) d) w = ret w' \<and> same_except L w w' \<and> Q w'"
    using 6(3) by blast
qed

end
