(* ===== verification/Prefetch_Contract.thy ===== *)
theory Prefetch_Contract
  imports Contracts
begin

text \<open>
  \<open>PrefetchingStream\<close> meets the contract: it keeps as many events pending at its upstream as its
  buffer holds, and passes each event on at once to a downstream that always has one pending.
\<close>

abbreviation prefetch_obj ::
  "sid \<Rightarrow> addr \<Rightarrow> nat \<Rightarrow> rat \<Rightarrow> sid option \<Rightarrow> 'v event list \<Rightarrow> nat \<Rightarrow> nat \<Rightarrow> bool \<Rightarrow> addr option
    \<Rightarrow> ('v, 'u) obj" where
  "prefetch_obj sp d N m b buf rb ub deliv lock \<equiv> PrefetchingStream
     \<lparr>ps_buffer_size = of_nat N, ps_refill_mark = m, ps_sid = sp, ps_self_lock = lock, ps_subscriber = d,
      ps_upstream_subscription = b, ps_buffer = buf, ps_request_balance = counter rb,
      ps_upstream_request_balance = counter ub, ps_delivering = deliv\<rparr>"

definition prefetch_at ::
  "addr \<Rightarrow> sid \<Rightarrow> addr \<Rightarrow> nat \<Rightarrow> rat \<Rightarrow> nat \<Rightarrow> sid option \<Rightarrow> 'v event list \<Rightarrow> nat \<Rightarrow> nat \<Rightarrow> bool
    \<Rightarrow> addr option \<Rightarrow> ('v, 'u) world \<Rightarrow> bool" where
  "prefetch_at p sp d N m n b buf rb ub deliv lock w \<longleftrightarrow>
     heap w p = Some (prefetch_obj sp d N m b buf rb ub deliv lock) \<and> refs w p = n \<and> impl w sp = Some p"

lemma prefetch_at_put [simp]:
  "prefetch_at p sp d N m n b buf rb ub deliv lock w \<Longrightarrow>
    prefetch_at p sp d N m n b' buf' rb' ub' deliv' lock' (put p (prefetch_obj sp d N m b' buf' rb' ub' deliv' lock') w)"
  by (simp add: prefetch_at_def)

lemma prefetch_at_set_refs:
  "prefetch_at p sp d N m n b buf rb ub deliv lock w \<Longrightarrow>
    prefetch_at p sp d N m n' b buf rb ub deliv lock (set_refs p n' w)"
  by (simp add: prefetch_at_def)

lemma prefetch_at_same_on:
  "prefetch_at p sp d N m n b buf rb ub deliv lock w \<Longrightarrow> same_on L w w' \<Longrightarrow> Cell p \<in> L \<Longrightarrow> Sub sp \<in> L \<Longrightarrow>
    prefetch_at p sp d N m n b buf rb ub deliv lock w'"
  by (auto simp: prefetch_at_def same_on_alt)

lemma prefetch_at_same_except:
  "prefetch_at p sp d N m n b buf rb ub deliv lock w \<Longrightarrow> same_except L w w' \<Longrightarrow> Cell p \<notin> L \<Longrightarrow> Sub sp \<notin> L \<Longrightarrow>
    prefetch_at p sp d N m n b buf rb ub deliv lock w'"
  by (auto simp: prefetch_at_def same_except_alt)

lemma prefetch_wrapper_calls:
  assumes "wrapper_at e p w" and "prefetch_at p sp d N m n b buf rb ub deliv lock w"
  shows "exec (OnSubscribe e s) w = PrefetchingStream_OnSubscribe exec p s w"
    and "exec (OnNext e s ev) w = PrefetchingStream_OnNext exec p ev w"
    and "exec (Destroy e) w = release exec p (free e w)"
  using assms by (simp_all add: wrapper_at_def prefetch_at_def exec_OnSubscribe exec_OnNext exec_Destroy
      SharedSubscriberWrapper_OnSubscribe_def SharedSubscriberWrapper_OnNext_def)

section \<open>The stream as its downstream sees it\<close>

definition prefetch_up ::
  "addr \<Rightarrow> sid \<Rightarrow> addr \<Rightarrow> nat \<Rightarrow> rat \<Rightarrow> nat \<Rightarrow> sid \<Rightarrow> nat \<Rightarrow> addr option \<Rightarrow> nat \<Rightarrow> ('v, 'u) world \<Rightarrow> bool" where
  "prefetch_up p sp d N m n s ub lock k w \<longleftrightarrow> prefetch_at p sp d N m n (Some s) [] k ub True lock w"

interpretation prefetch: passive_stream sp "{Cell p, Sub sp}" "prefetch_up p sp d N m n s ub lock" "pending_limit - 1"
  for p sp d N m n s ub lock
proof (unfold_locales, goal_cases)
  case (1 k w w')
  then show ?case by (simp add: prefetch_up_def prefetch_at_def)
next
  case (2 k w)
  then show ?case by (simp add: prefetch_up_def prefetch_at_def)
next
  case (3 k w i)
  let ?w' = "put p (prefetch_obj sp d N m (Some s) [] (k + i) ub True lock) w"
  have "Subscription_Request exec sp (of_nat i) w = ret ?w'"
    using 3 by (simp add: prefetch_up_def prefetch_at_def Subscription_live exec_Request
        PrefetchingStream_Request_def get_simps counter_Add PrefetchingStream_MaybeDeliver_def)
  moreover have "prefetch_up p sp d N m n s ub lock (k + i) ?w'" using 3(1) by (simp add: prefetch_up_def prefetch_at_def)
  ultimately show ?case by auto
qed

section \<open>Filling\<close>

text \<open>With an empty buffer, the requests to the upstream are topped up to the buffer size.\<close>

lemma prefetch_fill:
  assumes at: "prefetch_at p sp d N m n (Some s) [] rb ub deliv lock w" and "impl w s \<noteq> None"
    and ub: "ub < N" and N: "N < pending_limit"
  shows "PrefetchingStream_MaybeFill exec p w =
    Subscription_Request exec s (of_nat (N - ub)) (put p (prefetch_obj sp d N m (Some s) [] rb N deliv lock) w)"
proof -
  have u: "unat (of_nat N :: size_t) = N" "unat (of_nat ub :: size_t) = ub"
    using ub N by (simp_all add: unat_of_nat_64)
  have "\<not> (of_nat N :: size_t) \<le> of_nat ub" using u ub by (simp add: word_le_nat_alt)
  moreover have "(of_nat N :: size_t) - of_nat ub = of_nat (N - ub)" using ub by (simp add: of_nat_diff)
  moreover have "Add (counter ub) (of_nat (N - ub)) = counter N" using counter_Add [of ub "N - ub"] ub N by simp
  ultimately show ?thesis
    using at assms(2) by (auto simp: prefetch_at_def PrefetchingStream_MaybeFill_def get_simps counter_balance)
qed

section \<open>The last event\<close>

definition prefetch_fin ::
  "addr \<Rightarrow> sid \<Rightarrow> addr \<Rightarrow> nat \<Rightarrow> loc set \<Rightarrow> (('v, 'u) world \<Rightarrow> bool) \<Rightarrow> ('v, 'u) world \<Rightarrow> bool" where
  "prefetch_fin p sp d n L Q w \<longleftrightarrow>
     (\<exists>N m b buf rb ub deliv. prefetch_at p sp d N m n b buf rb ub deliv None w) \<and> closing d L Q w"

lemma prefetch_fin_same_on:
  assumes "prefetch_fin p sp d n L Q w" and "same_on (L \<union> {Cell p, Sub sp}) w w'"
  shows "prefetch_fin p sp d n L Q w'"
proof -
  obtain N m b buf rb ub deliv where at: "prefetch_at p sp d N m n b buf rb ub deliv None w" and cl: "closing d L Q w"
    using assms(1) by (auto simp: prefetch_fin_def)
  have "prefetch_at p sp d N m n b buf rb ub deliv None w'" using prefetch_at_same_on [OF at assms(2)] by simp
  moreover have "closing d L Q w'" using closing_stable [OF cl] assms(2) by simp
  ultimately show ?thesis unfolding prefetch_fin_def by blast
qed

lemma prefetch_fin_release:
  assumes "prefetch_fin p sp d (Suc (Suc n)) L Q w" and "Cell p \<notin> L"
  shows "release exec p w = ret (set_refs p (Suc n) w)" and "prefetch_fin p sp d (Suc n) L Q (set_refs p (Suc n) w)"
proof -
  obtain N m b buf rb ub deliv where at: "prefetch_at p sp d N m (Suc (Suc n)) b buf rb ub deliv None w"
    and cl: "closing d L Q w"
    using assms(1) by (auto simp: prefetch_fin_def)
  show "release exec p w = ret (set_refs p (Suc n) w)" using at by (simp add: prefetch_at_def release_dec)
  have "closing d L Q (set_refs p (Suc n) w)" using closing_stable [OF cl] assms(2) by simp
  with prefetch_at_set_refs [OF at] show "prefetch_fin p sp d (Suc n) L Q (set_refs p (Suc n) w)"
    unfolding prefetch_fin_def by blast
qed

lemma stable_on_prefetch_fin:
  "stable_on (L \<union> {Cell p, Sub sp, Cell e})
    (\<lambda>w. (heap w e = None \<and> refs w e = 0) \<and> prefetch_fin p sp d n L Q w)"
  unfolding stable_on_def
proof (intro allI impI)
  fix w w' assume 1: "(heap w e = None \<and> refs w e = 0) \<and> prefetch_fin p sp d n L Q w"
    and 2: "same_on (L \<union> {Cell p, Sub sp, Cell e}) w w'"
  have "prefetch_fin p sp d n L Q w'"
    by (rule prefetch_fin_same_on [OF conjunct2 [OF 1] same_on_subset [OF 2]]) auto
  with 1 2 show "(heap w' e = None \<and> refs w' e = 0) \<and> prefetch_fin p sp d n L Q w'" by simp
qed

lemma prefetch_wrapper_closing:
  assumes cl: "closing d L Q w" and at: "prefetch_at p sp d N m (Suc (Suc n)) b buf rb ub deliv None w"
    and e: "wrapper_at e p w" and own: "Cell p \<notin> L" "Sub sp \<notin> L" "Cell e \<notin> L" "p \<noteq> e"
  shows "closing e (L \<union> {Cell p, Sub sp, Cell e})
    (\<lambda>w. (heap w e = None \<and> refs w e = 0) \<and> prefetch_fin p sp d (Suc n) L Q w) w"
  unfolding closing_def
proof (intro allI impI, elim conjE)
  let ?L = "L \<union> {Cell p, Sub sp, Cell e}"
  fix w' assume same: "same_on ?L w w'"
  let ?w = "set_refs p (Suc n) (free e w')"
  have at': "prefetch_at p sp d N m (Suc (Suc n)) b buf rb ub deliv None w'" using prefetch_at_same_on [OF at same] by simp
  have e': "wrapper_at e p w'" using wrapper_at_same_on [OF e same] by simp
  have atf: "prefetch_at p sp d N m (Suc (Suc n)) b buf rb ub deliv None (free e w')"
    using at' own by (simp add: prefetch_at_def)
  have "closing d L Q (free e w')" using closing_stable [OF cl] same own by simp
  with atf have fin: "prefetch_fin p sp d (Suc (Suc n)) L Q (free e w')" unfolding prefetch_fin_def by blast
  have "exec (Destroy e) w' = ret ?w"
    using prefetch_fin_release(1) [OF fin own(1)] by (simp add: prefetch_wrapper_calls [OF e' at'])
  moreover have "same_except ?L w' ?w" by simp
  moreover have "(heap ?w e = None \<and> refs ?w e = 0) \<and> prefetch_fin p sp d (Suc n) L Q ?w"
    using prefetch_fin_release(2) [OF fin own(1)] e' own by (simp add: wrapper_at_def)
  ultimately show "\<exists>w''. exec (Destroy e) w' = ret w'' \<and> same_except ?L w' w''
      \<and> (heap w'' e = None \<and> refs w'' e = 0) \<and> prefetch_fin p sp d (Suc n) L Q w''"
    by blast
qed

section \<open>One event\<close>

text \<open>The event is buffered, taken out again, and handed to the downstream in the world \<open>w2\<close>.\<close>

lemma prefetch_next:
  assumes at: "prefetch_at p sp d N m n (Some s) [] (Suc j) N False lock w" and e: "wrapper_at e p w"
    and N: "0 < N" "N < pending_limit" and j: "Suc j < pending_limit"
  shows "exec (OnNext e s ev) w =
    bnd (exec (OnNext d sp ev) (put p (prefetch_obj sp d N m (Some s) [] j (N - 1) True lock) w)) (\<lambda>w.
      if IsEnd ev then
        bnd (get_prefetching p w) (\<lambda>x. release_opt exec (ps_self_lock x)
          (put p (PrefetchingStream (x\<lparr>ps_delivering := False, ps_self_lock := None\<rparr>)) w))
      else
        bnd (PrefetchingStream_MaybeFill exec p w) (\<lambda>w.
        bnd (get_prefetching p w) (\<lambda>x.
        if ps_buffer x = [] then ret (put p (PrefetchingStream (x\<lparr>ps_delivering := False\<rparr>)) w)
        else exec (PrefetchDeliverLoop p) w)))"
proof -
  have "(of_nat N :: size_t) \<noteq> 0" using N by (intro of_nat_neq_0_64) simp_all
  moreover have "Remove (counter N) 1 = ret (counter (N - 1))" using counter_Remove [of "N - 1"] N by simp
  ultimately show ?thesis
    unfolding prefetch_wrapper_calls(2) [OF e at]
    using at j counter_Remove [OF j]
    by (simp add: prefetch_at_def PrefetchingStream_OnNext_def PrefetchingStream_MaybeDeliver_def get_simps
        exec_internal(2) [of p] PrefetchingStream_deliver_loop_def counter_Has cong: bnd_weak_cong)
qed

lemma prefetch_delivering:
  assumes del: "delivering s (L \<union> {Cell p, Sub sp, Cell e}) U Up N k w w1"
    and at: "prefetch_at p sp d N m n b buf rb ub' deliv lock w1"
    and own: "Cell p \<notin> L" "Sub sp \<notin> L" and K: "K < pending_limit"
    and w2: "w2 = put p (prefetch_obj sp d N m (Some s) [] j ub True lock) w1"
  shows "delivering sp L {Cell p, Sub sp} (prefetch_up p sp d N m n s ub lock) K j w w2"
  using del own at passive_stream_mono [OF prefetch.passive_stream_axioms, of K] K
  unfolding delivering_def w2 by (auto simp: prefetch_up_def)

lemma prefetch_ready:
  assumes "ready d sp L K Q t vs j w"
    and "prefetch_at p sp d N m (Suc (Suc (Suc n))) (Some s) [] (Suc j) N False (Some p) w"
    and "wrapper_at e p w" and own: "Cell p \<notin> L" "Sub sp \<notin> L" "Cell e \<notin> L" "p \<noteq> e"
    and N: "0 < N" "N < pending_limit" and K: "Suc K < pending_limit" and t: "code t \<noteq> OK"
  shows "ready e s (L \<union> {Cell p, Sub sp, Cell e}) N
    (\<lambda>w. (heap w e = None \<and> refs w e = 0) \<and> prefetch_fin p sp d (Suc n) L Q w) t vs (N - 1) w"
  using assms(1-3)
proof (induction vs arbitrary: j w)
  case Nil
  let ?L = "L \<union> {Cell p, Sub sp, Cell e}"
  let ?Q = "\<lambda>w. (heap w e = None \<and> refs w e = 0) \<and> prefetch_fin p sp d (Suc n) L Q w"
  let ?n = "Suc (Suc (Suc n))"
  have j: "Suc j < pending_limit" using ready_less [OF Nil(1)] K by simp
  show ?case unfolding ready.simps
  proof (intro conjI allI impI)
    show "N - 1 < N" using N(1) by simp
    fix w1 U Up assume del: "delivering s ?L U Up N (N - 1) w w1"
    have at1: "prefetch_at p sp d N m ?n (Some s) [] (Suc j) N False (Some p) w1" and e1: "wrapper_at e p w1"
      using prefetch_at_same_on [OF Nil(2)] wrapper_at_same_on [OF Nil(3)] del
      by (auto simp: delivering_def simp del: same_on_insert)
    let ?w2 = "put p (prefetch_obj sp d N m (Some s) [] j (N - 1) True (Some p)) w1"
    have d2: "delivering sp L {Cell p, Sub sp} (prefetch_up p sp d N m ?n s (N - 1) (Some p)) K j w ?w2"
      by (rule prefetch_delivering [OF del at1 own(1,2)]) (use K in simp_all)
    obtain w3 j' where 3: "exec (OnNext d sp (StatusRepr t)) ?w2 = ret w3"
      "same_except (L \<union> {Cell p, Sub sp}) ?w2 w3" "prefetch_up p sp d N m ?n s (N - 1) (Some p) j' w3" "closing d L Q w3"
      by (rule ready_NilD [OF Nil(1) d2])
    have at3: "prefetch_at p sp d N m ?n (Some s) [] j' (N - 1) True (Some p) w3"
      using 3(3) by (simp add: prefetch_up_def)
    define w4 where "w4 = set_refs p (Suc (Suc n)) (put p (prefetch_obj sp d N m (Some s) [] j' (N - 1) False None) w3)"
    have at4: "prefetch_at p sp d N m (Suc (Suc n)) (Some s) [] j' (N - 1) False None w4"
      unfolding w4_def by (rule prefetch_at_set_refs [OF prefetch_at_put [OF at3]])
    have "exec (OnNext e s (StatusRepr t)) w1 = ret w4"
      unfolding prefetch_next [OF at1 e1 N j] using 3(1) at3 t
      by (simp add: prefetch_at_def get_simps release_dec w4_def)
    moreover have s14: "same_except (L \<union> {Cell p, Sub sp}) w1 w4"
      using same_except_trans [OF _ 3(2), of w1] by (simp add: w4_def)
    have "same_except (?L \<union> U) w1 w4" by (rule same_except_mono [OF s14]) auto
    moreover have "Up (N - 1) w4"
    proof -
      have "same_on U w1 w4" by (rule same_except_same_on [OF s14]) (use del in \<open>auto simp: delivering_def\<close>)
      then show ?thesis using passive_stream.stable [of s U Up N _ w1 w4] del by (simp add: delivering_def)
    qed
    moreover have "closing e ?L ?Q w4"
    proof (rule prefetch_wrapper_closing [OF _ at4 _ own])
      show "closing d L Q w4" by (rule closing_stable [OF 3(4)]) (use own in \<open>simp add: w4_def\<close>)
      show "wrapper_at e p w4" using wrapper_at_same_except [OF e1 s14] own by simp
    qed
    ultimately show "\<exists>w'' j'. exec (OnNext e s (StatusRepr t)) w1 = ret w'' \<and> same_except (?L \<union> U) w1 w''
        \<and> Up j' w'' \<and> closing e ?L ?Q w''"
      by blast
  qed
next
  case (Cons v vs)
  let ?L = "L \<union> {Cell p, Sub sp, Cell e}"
  let ?Q = "\<lambda>w. (heap w e = None \<and> refs w e = 0) \<and> prefetch_fin p sp d (Suc n) L Q w"
  let ?n = "Suc (Suc (Suc n))"
  have j: "Suc j < pending_limit" using ready_less [OF Cons.prems(1)] K by simp
  show ?case unfolding ready.simps
  proof (intro conjI allI impI)
    show "N - 1 < N" using N(1) by simp
    fix w1 U Up assume del: "delivering s ?L U Up N (N - 1) w w1"
    have up: "passive_stream s U Up N" and u1: "Up (N - 1) w1" and dis: "?L \<inter> U = {}"
      using del by (simp_all add: delivering_def)
    have at1: "prefetch_at p sp d N m ?n (Some s) [] (Suc j) N False (Some p) w1" and e1: "wrapper_at e p w1"
      using prefetch_at_same_on [OF Cons.prems(2)] wrapper_at_same_on [OF Cons.prems(3)] del
      by (auto simp: delivering_def simp del: same_on_insert)
    let ?w2 = "put p (prefetch_obj sp d N m (Some s) [] j (N - 1) True (Some p)) w1"
    have d2: "delivering sp L {Cell p, Sub sp} (prefetch_up p sp d N m ?n s (N - 1) (Some p)) K j w ?w2"
      by (rule prefetch_delivering [OF del at1 own(1,2)]) (use K in simp_all)
    obtain w3 j' where 3: "exec (OnNext d sp (ValueRepr v)) ?w2 = ret w3"
      "same_except (L \<union> {Cell p, Sub sp}) ?w2 w3" "prefetch_up p sp d N m ?n s (N - 1) (Some p) (Suc j') w3"
      "ready d sp L K Q t vs j' w3"
      by (rule ready_ConsD [OF Cons.prems(1) d2])
    have at3: "prefetch_at p sp d N m ?n (Some s) [] (Suc j') (N - 1) True (Some p) w3"
      using 3(3) by (simp add: prefetch_up_def)
    define w4 where "w4 = put p (prefetch_obj sp d N m (Some s) [] (Suc j') N True (Some p)) w3"
    have at4: "prefetch_at p sp d N m ?n (Some s) [] (Suc j') N True (Some p) w4"
      unfolding w4_def by (rule prefetch_at_put [OF at3])
    have s14: "same_except (L \<union> {Cell p, Sub sp}) w1 w4"
      using same_except_trans [OF _ 3(2), of w1] by (simp add: w4_def)
    have "same_on U w1 w4" by (rule same_except_same_on [OF s14]) (use dis in auto)
    then have u4: "Up (N - 1) w4" by (rule passive_stream.stable [OF up u1])
    then obtain w5 where 5: "Subscription_Request exec s (of_nat 1) w4 = ret w5" "Up (N - 1 + 1) w5"
      "same_except U w4 w5"
      using passive_stream.request [OF up u4, of 1] N by auto
    have "Up (N - 1) w3"
      by (rule passive_stream.stable [OF up u1], rule same_except_same_on [OF same_except_trans [OF _ 3(2), of w1]])
        (use dis in auto)
    then have "impl w3 s \<noteq> None" by (rule passive_stream.live [OF up])
    then have fill: "PrefetchingStream_MaybeFill exec p w3 = ret w5"
      using prefetch_fill [OF at3] N 5(1) by (simp add: w4_def)
    have pU: "Cell p \<notin> U" "Sub sp \<notin> U" "Cell e \<notin> U" using dis by auto
    have at5: "prefetch_at p sp d N m ?n (Some s) [] (Suc j') N True (Some p) w5"
      by (rule prefetch_at_same_except [OF at4 5(3) pU(1,2)])
    define w6 where "w6 = put p (prefetch_obj sp d N m (Some s) [] (Suc j') N False (Some p)) w5"
    have at6: "prefetch_at p sp d N m ?n (Some s) [] (Suc j') N False (Some p) w6"
      unfolding w6_def by (rule prefetch_at_put [OF at5])
    have "exec (OnNext e s (ValueRepr v)) w1 = ret w6"
      unfolding prefetch_next [OF at1 e1 N j] using 3(1) fill at5
      by (simp add: prefetch_at_def get_simps w6_def)
    moreover have s16: "same_except (?L \<union> U) w1 w6"
    proof -
      have "same_except (?L \<union> U) w1 w5"
        by (rule same_except_mono [OF same_except_from [OF 5(3) s14]]) auto
      then show ?thesis by (simp add: w6_def)
    qed
    moreover have "Up (Suc (N - 1)) w6"
      using passive_stream.stable [OF up 5(2), of w6] pU by (simp add: w6_def)
    moreover have "ready e s ?L N ?Q t vs (N - 1) w6"
    proof (rule Cons.IH [OF _ at6])
      have "same_on L w3 w5"
        by (rule same_on_trans [OF _ same_except_same_on [OF 5(3)]]) (use dis own in \<open>auto simp: w4_def\<close>)
      then show "ready d sp L K Q t vs j' w6"
        by (intro ready_stable [OF 3(4)]) (use own in \<open>simp add: w6_def\<close>)
      have "wrapper_at e p w5"
        by (rule wrapper_at_same_except [OF wrapper_at_same_except [OF e1 s14] 5(3)]) (use own pU in auto)
      then show "wrapper_at e p w6" using own by (simp add: wrapper_at_def w6_def)
    qed
    ultimately show "\<exists>w'' j'. exec (OnNext e s (ValueRepr v)) w1 = ret w'' \<and> same_except (?L \<union> U) w1 w''
        \<and> Up (Suc j') w'' \<and> ready e s ?L N ?Q t vs j' w''"
      by blast
  qed
qed

section \<open>The publisher\<close>

text \<open>The first request of the downstream finds the buffer empty.\<close>

lemma prefetch_first_request:
  assumes "prefetch_at p sp d N m n (Some s) [] 0 ub False lock w" and "i < pending_limit"
  shows "PrefetchingStream_Request exec p (of_nat i) w =
    ret (put p (prefetch_obj sp d N m (Some s) [] i ub False lock) w)"
  using assms counter_Add [of 0 i]
  by (cases "0 < i") (simp_all add: prefetch_at_def PrefetchingStream_Request_def PrefetchingStream_MaybeDeliver_def
      get_simps exec_internal(2) [of p] PrefetchingStream_deliver_loop_def counter_Has)

lemma prefetch_start:
  assumes st: "start d L K Q t vs w" and at: "prefetch_at p sp d N m (Suc (Suc (Suc n))) None [] 0 0 False (Some p) w"
    and e: "wrapper_at e p w" and own: "Cell p \<notin> L" "Sub sp \<notin> L" "Cell e \<notin> L" "p \<noteq> e"
    and N: "0 < N" "N < pending_limit" and K: "Suc K < pending_limit" and t: "code t \<noteq> OK"
  shows "start e (L \<union> {Cell p, Sub sp, Cell e}) N
    (\<lambda>w. (heap w e = None \<and> refs w e = 0) \<and> prefetch_fin p sp d (Suc n) L Q w) t vs w"
  unfolding start_def
proof (intro allI impI, elim conjE)
  let ?L = "L \<union> {Cell p, Sub sp, Cell e}"
  let ?Q = "\<lambda>w. (heap w e = None \<and> refs w e = 0) \<and> prefetch_fin p sp d (Suc n) L Q w"
  let ?n = "Suc (Suc (Suc n))"
  fix w1 s assume same: "same_on ?L w w1" and wf: "wf_world w1" and old: "insert (Sub s) ?L \<subseteq> old w1"
    and s: "Sub s \<notin> ?L" and live: "impl w1 s \<noteq> None"
  have at1: "prefetch_at p sp d N m ?n None [] 0 0 False (Some p) w1" and e1: "wrapper_at e p w1"
    using prefetch_at_same_on [OF at same] wrapper_at_same_on [OF e same] by simp_all
  define w2 where "w2 = put p (prefetch_obj sp d N m (Some s) [] 0 0 False (Some p)) w1"
  have at2: "prefetch_at p sp d N m ?n (Some s) [] 0 0 False (Some p) w2"
    unfolding w2_def by (rule prefetch_at_put [OF at1])
  have pre: "same_on L w w2" "wf_world w2" "insert (Sub sp) L \<subseteq> old w2" "impl w2 sp \<noteq> None"
    using same wf old own at2 by (auto simp: w2_def prefetch_at_def)
  obtain j w3 where 3: "same_except L w2 w3" "ready d sp L K Q t vs j w3"
    "exec (OnSubscribe d sp) w2 = Subscription_Request exec sp (of_nat (Suc j)) w3"
    by (rule startD [OF st pre(1-3) own(2) pre(4)])
  have j: "Suc j < pending_limit" using ready_less [OF 3(2)] K by simp
  have at3: "prefetch_at p sp d N m ?n (Some s) [] 0 0 False (Some p) w3"
    by (rule prefetch_at_same_except [OF at2 3(1) own(1,2)])
  define w4 where "w4 = put p (prefetch_obj sp d N m (Some s) [] (Suc j) 0 False (Some p)) w3"
  have at4: "prefetch_at p sp d N m ?n (Some s) [] (Suc j) 0 False (Some p) w4"
    unfolding w4_def by (rule prefetch_at_put [OF at3])
  define w5 where "w5 = put p (prefetch_obj sp d N m (Some s) [] (Suc j) N False (Some p)) w4"
  have at5: "prefetch_at p sp d N m ?n (Some s) [] (Suc j) N False (Some p) w5"
    unfolding w5_def by (rule prefetch_at_put [OF at4])
  have "Subscription_Request exec sp (of_nat (Suc j)) w3 = ret w4"
    using at3 prefetch_first_request [OF at3 j] unfolding w4_def
    by (simp add: prefetch_at_def Subscription_live exec_Request del: of_nat_Suc)
  moreover have "impl w4 s \<noteq> None" using same_exceptD [OF 3(1)] live s by (simp add: w2_def w4_def)
  ultimately have "exec (OnSubscribe e s) w1 = Subscription_Request exec s (of_nat N) w5"
    using at1 3(3) prefetch_fill [OF at4] N
    unfolding prefetch_wrapper_calls(1) [OF e1 at1]
    by (simp add: prefetch_at_def PrefetchingStream_OnSubscribe_def get_simps w2_def w5_def)
  moreover have "ready e s ?L N ?Q t vs (N - 1) w5"
  proof (rule prefetch_ready [OF _ at5 _ own N K t])
    show "ready d sp L K Q t vs j w5"
      by (rule ready_stable [OF 3(2)]) (use own in \<open>simp add: w4_def w5_def\<close>)
    show "wrapper_at e p w5"
      using e1 same_exceptD [OF 3(1)] own by (simp add: wrapper_at_def w2_def w4_def w5_def)
  qed
  moreover have "same_except ?L w1 w5"
    using same_except_from [OF 3(1), of "{Cell p, Sub sp, Cell e}" w1] by (simp add: w2_def w4_def w5_def)
  moreover have NN: "Suc (N - 1) = N" using N by simp
  ultimately show "\<exists>j w''. same_except ?L w1 w'' \<and> ready e s ?L N ?Q t vs j w''
      \<and> exec (OnSubscribe e s) w1 = Subscription_Request exec s (of_nat (Suc j)) w''"
    by (intro exI [of _ "N - 1"] exI [of _ w5] conjI) (simp_all only: NN)
qed

lemma prefetch_pub_ok:
  assumes p: "pub_ok N up t vs" and K: "Suc K < pending_limit" and N: "0 < N" "N < pending_limit"
    and t: "code t \<noteq> OK"
  shows "pub_ok K (PrefetchingPublisher up (of_nat N) m) t vs"
  unfolding pub_ok_def
proof (intro allI impI, elim conjE)
  fix d L Q and w :: "('a, 'b) world"
  assume wf: "wf_world w" and L: "L \<subseteq> old w" and Q: "stable_on L Q" and st: "start d L K Q t vs w"
  let ?p = "next_addr w" and ?s = "next_sid w" and ?e = "Suc (next_addr w)"
  let ?L = "L \<union> {Cell ?p, Sub ?s, Cell ?e}"
  let ?Q = "\<lambda>w. (heap w ?e = None \<and> refs w ?e = 0) \<and> prefetch_fin ?p ?s d (Suc 0) L Q w"
  define w1 where "w1 = share ?p (new_subscription_state ?p (alloc (prefetch_obj ?s d N m None [] 0 0 False None) w))"
  define w2 where "w2 = SharedSubscriberWrapper_Create ?p
    (put ?p (prefetch_obj ?s d N m None [] 0 0 False (Some ?p)) (share ?p w1))"
  have own: "Cell ?p \<notin> L" "Sub ?s \<notin> L" "Cell ?e \<notin> L" "?p \<noteq> ?e" using L by auto
  have at2: "prefetch_at ?p ?s d N m (Suc (Suc (Suc 0))) None [] 0 0 False (Some ?p) w2"
    using wf by (simp add: prefetch_at_def w1_def w2_def SharedSubscriberWrapper_Create_def wf_worldD)
  have e2: "wrapper_at ?e ?p w2"
    using wf by (simp add: wrapper_at_def w1_def w2_def SharedSubscriberWrapper_Create_def wf_worldD)
  have w2: "wf_world w2" "?L \<subseteq> old w2" "same_on L w w2" "same_except ?L w w2" "next_addr w2 = Suc ?e"
    using wf own L by (auto simp: w1_def w2_def SharedSubscriberWrapper_Create_def)
  obtain w3 where 3: "exec (DoSubscribe up ?e) w2 = ret w3" "same_except ?L w2 w3" "?Q w3"
    by (rule pub_okD [OF p w2(1,2) stable_on_prefetch_fin
          prefetch_start [OF start_stable [OF st w2(3)] at2 e2 own N K t]])
  obtain N' m' b buf rb ub deliv where at3: "prefetch_at ?p ?s d N' m' (Suc 0) b buf rb ub deliv None w3"
    and cl: "closing d L Q w3"
    using 3(3) by (auto simp: prefetch_fin_def)
  let ?w5 = "free ?p (clear_subscription ?s (set_refs ?p 0 w3))"
  have s5: "same_except ?L w ?w5" using same_except_trans [OF w2(4) 3(2)] by simp
  have wf5: "wf_world ?w5" "L \<subseteq> old ?w5"
    using wf_world_same_except [OF w2(1) 3(2) w2(2)] same_except_old [OF s5 L] same_exceptD(5) [OF 3(2)] w2(5)
    by simp_all
  have "closing d L Q ?w5" by (rule closing_stable [OF cl]) (use own in simp)
  then obtain w6 where 6: "exec (Destroy d) ?w5 = ret w6" "same_except L ?w5 w6" "Q w6"
    by (rule closingD [OF _ wf5])
  have "release exec ?p w3 = ret w6"
    using at3 6(1) by (simp add: prefetch_at_def release_last exec_Destroy PrefetchingStream_destroy_def)
  moreover have "(of_nat N :: size_t) \<noteq> 0" using N by (intro of_nat_neq_0_64) simp_all
  ultimately have "exec (DoSubscribe (PrefetchingPublisher up (of_nat N) m) d) w = ret w6"
    using 3(1) wf
    by (simp add: exec_DoSubscribe PrefetchingPublisher_Subscribe_def Let_def w1_def w2_def word_greater_zero_iff
        PrefetchingStream_LockSelf_def self_live get_simps SharedSubscriberWrapper_Create_def wf_worldD)
  moreover have "same_except L w w6"
  proof (rule same_except_shrink [of L "{Cell ?p, Sub ?s, Cell ?e}"])
    show "same_except ?L w w6" using s5 same_except_widen [OF 6(2)] by (rule same_except_trans)
    show "same_on {Cell ?p, Sub ?s, Cell ?e} w w6"
      using same_exceptD [OF 6(2)] own wf 3(3) by (simp add: wf_worldD)
  qed
  ultimately show "\<exists>w'. exec (DoSubscribe (PrefetchingPublisher up (of_nat N) m) d) w = ret w'
      \<and> same_except L w w' \<and> Q w'"
    using 6(3) by blast
qed

end
