(* ===== verification/Flow_Control_Contract.thy ===== *)
theory Flow_Control_Contract
  imports Contracts
begin

text \<open>
  The subscriber of \<open>Subscriber::MakeWithFlowControl\<close> meets the subscriber contract: it has exactly
  one event pending at any time, and folds its function over the events it receives.
\<close>

definition flow_control_at ::
  "addr \<Rightarrow> ('v event \<Rightarrow> 'u \<Rightarrow> 'u) \<Rightarrow> 'u \<Rightarrow> ('v, 'u) world \<Rightarrow> bool" where
  "flow_control_at d f u w \<longleftrightarrow> heap w d = Some (FunctionalSubscriber SubscribeRequest1 (NextFlowControl f))
     \<and> refs w d = 0 \<and> user w = u"

text \<open>The state of the user after the values \<open>vs\<close> and the terminal status \<open>t\<close>.\<close>

definition received :: "('v event \<Rightarrow> 'u \<Rightarrow> 'u) \<Rightarrow> 'v val list \<Rightarrow> Status \<Rightarrow> 'u \<Rightarrow> 'u" where
  "received f vs t u = f (StatusRepr t) (fold (\<lambda>v. f (ValueRepr v)) vs u)"

text \<open>One value: the function is applied and one more event is requested.\<close>

lemma flow_control_value:
  assumes "flow_control_at d f u w" and del: "delivering s {Cell d, UserState} U Up 1 0 w w1"
  shows "\<exists>w''. exec (OnNext d s (ValueRepr v)) w1 = ret w'' \<and> same_except ({Cell d, UserState} \<union> U) w1 w''
    \<and> Up (Suc 0) w'' \<and> flow_control_at d f (f (ValueRepr v) u) w''"
proof -
  let ?L = "{Cell d, UserState}"
  define w2 where "w2 = w1\<lparr>user := f (ValueRepr v) (user w1)\<rparr>"
  have at1: "flow_control_at d f u w1" using assms by (simp add: delivering_def flow_control_at_def)
  have "Up 0 w2"
    by (rule passive_stream.stable [of s U Up 1 _ w1]) (use del in \<open>auto simp: delivering_def w2_def\<close>)
  then obtain w3 where 3: "Subscription_Request exec s (of_nat 1) w2 = ret w3" "Up (0 + 1) w3"
    "same_except U w2 w3"
    using passive_stream.request [of s U Up 1 0 w2 1] del by (auto simp: delivering_def)
  have "exec (OnNext d s (ValueRepr v)) w1 = ret w3"
    using at1 3(1) by (simp add: flow_control_at_def exec_OnNext FunctionalSubscriber_OnNext_def
        flow_control_next_def w2_def)
  moreover have "same_except (?L \<union> U) w1 w3"
    using same_except_from [OF 3(3), of ?L w1] by (simp add: w2_def Un_commute)
  moreover have "flow_control_at d f (f (ValueRepr v) u) w3"
    using at1 same_exceptD [OF 3(3)] del by (auto simp: delivering_def flow_control_at_def w2_def)
  ultimately show ?thesis using 3(2) by auto
qed

lemma flow_control_ready:
  assumes "flow_control_at d f u w" and "code t \<noteq> OK"
  shows "ready d s {Cell d, UserState} 1
    (\<lambda>w. heap w d = None \<and> refs w d = 0 \<and> user w = received f vs t u) t vs 0 w"
  using assms(1)
proof (induction vs arbitrary: u w)
  case Nil
  let ?L = "{Cell d, UserState}" and ?Q = "\<lambda>w. heap w d = None \<and> refs w d = 0 \<and> user w = received f [] t u"
  show ?case unfolding ready.simps
  proof (intro conjI allI impI)
    fix w1 U and Up :: "nat \<Rightarrow> ('a, 'b) world \<Rightarrow> bool"
    assume del: "delivering s ?L U Up 1 0 w w1"
    define w2 where "w2 = w1\<lparr>user := f (StatusRepr t) (user w1)\<rparr>"
    have at1: "flow_control_at d f u w1" using Nil del by (simp add: delivering_def flow_control_at_def)
    have "exec (OnNext d s (StatusRepr t)) w1 = ret w2"
      using at1 assms(2) by (simp add: flow_control_at_def exec_OnNext FunctionalSubscriber_OnNext_def
          flow_control_next_def w2_def)
    moreover have "Up 0 w2"
      by (rule passive_stream.stable [of s U Up 1 _ w1]) (use del in \<open>auto simp: delivering_def w2_def\<close>)
    moreover have "closing d ?L ?Q w2"
      unfolding closing_def
    proof (intro allI impI, elim conjE)
      fix w' assume "same_on ?L w2 w'" and wf: "wf_world w'" "?L \<subseteq> old w'"
      then have "exec (Destroy d) w' = ret (free d w') \<and> same_except ?L w' (free d w') \<and> ?Q (free d w')"
        using at1 by (simp add: flow_control_at_def exec_Destroy w2_def received_def)
      then show "\<exists>w''. exec (Destroy d) w' = ret w'' \<and> same_except ?L w' w'' \<and> ?Q w''" by blast
    qed
    moreover have "same_except (?L \<union> U) w1 w2" by (simp add: w2_def)
    ultimately show "\<exists>w'' j'. exec (OnNext d s (StatusRepr t)) w1 = ret w'' \<and> same_except (?L \<union> U) w1 w''
        \<and> Up j' w'' \<and> closing d ?L ?Q w''"
      by blast
  qed simp
next
  case (Cons v vs)
  let ?L = "{Cell d, UserState}" and ?Q = "\<lambda>w. heap w d = None \<and> refs w d = 0 \<and> user w = received f (v # vs) t u"
  show ?case unfolding ready.simps
  proof (intro conjI allI impI)
    fix w1 U and Up :: "nat \<Rightarrow> ('a, 'b) world \<Rightarrow> bool"
    assume del: "delivering s ?L U Up 1 0 w w1"
    obtain w3 where 3: "exec (OnNext d s (ValueRepr v)) w1 = ret w3" "same_except (?L \<union> U) w1 w3"
      "Up (Suc 0) w3" "flow_control_at d f (f (ValueRepr v) u) w3"
      using flow_control_value [OF Cons.prems del] by blast
    from Cons.IH [OF 3(4)] have "ready d s ?L 1 ?Q t vs 0 w3" by (simp add: received_def)
    with 3 show "\<exists>w'' j'. exec (OnNext d s (ValueRepr v)) w1 = ret w'' \<and> same_except (?L \<union> U) w1 w''
        \<and> Up (Suc j') w'' \<and> ready d s ?L 1 ?Q t vs j' w''"
      by blast
  qed simp
qed

lemma flow_control_start:
  assumes "flow_control_at d f u w" and "code t \<noteq> OK"
  shows "start d {Cell d, UserState} 1
    (\<lambda>w. heap w d = None \<and> refs w d = 0 \<and> user w = received f vs t u) t vs w"
  unfolding start_def
proof (intro allI impI, elim conjE)
  fix w1 s assume "same_on {Cell d, UserState} w w1"
  then have at1: "flow_control_at d f u w1" using assms(1) by (simp add: flow_control_at_def)
  then have "exec (OnSubscribe d s) w1 = Subscription_Request exec s (of_nat (Suc 0)) w1"
    by (simp add: flow_control_at_def exec_OnSubscribe FunctionalSubscriber_OnSubscribe_def)
  then show "\<exists>j w''. same_except {Cell d, UserState} w1 w'' \<and> ready d s {Cell d, UserState} 1
      (\<lambda>w. heap w d = None \<and> refs w d = 0 \<and> user w = received f vs t u) t vs j w''
      \<and> exec (OnSubscribe d s) w1 = Subscription_Request exec s (of_nat (Suc j)) w''"
    using flow_control_ready [OF at1 assms(2)] same_except_refl by blast
qed

text \<open>
  Subscribing such a subscriber to a publisher that consumes it leaves nothing behind but the
  user's state.
\<close>

lemma flow_control_subscribe:
  assumes runs: "\<And>d w1. flow_control_at d f (user w) w1 \<Longrightarrow> wf_world w1 \<Longrightarrow> {Cell d, UserState} \<subseteq> old w1 \<Longrightarrow>
      \<exists>w'. exec (DoSubscribe p d) w1 = ret w' \<and> same_except {Cell d, UserState} w1 w'
        \<and> heap w' d = None \<and> refs w' d = 0 \<and> user w' = u'"
    and wf_w: "wf_world w"
  shows "\<exists>w'. Publisher_Subscribe_flow_control exec (Some p) f w = ret w'
    \<and> user w' = u' \<and> heap w' = heap w \<and> refs w' = refs w \<and> impl w' = impl w
    \<and> queues w' = queues w \<and> wf_world w'"
proof -
  let ?d = "next_addr w" and ?w1 = "Subscriber_MakeWithFlowControl f w"
  let ?L = "{Cell ?d, UserState}"
  have at1: "flow_control_at ?d f (user w) ?w1"
    using wf_w by (simp add: flow_control_at_def Subscriber_MakeWithFlowControl_def Subscriber_Make_def wf_worldD)
  have wf: "wf_world ?w1" "?L \<subseteq> old ?w1"
    using wf_w by (simp_all add: Subscriber_MakeWithFlowControl_def Subscriber_Make_def)
  obtain w' where w': "exec (DoSubscribe p ?d) ?w1 = ret w'" "same_except ?L ?w1 w'"
    "heap w' ?d = None" "refs w' ?d = 0" "user w' = u'"
    using runs [OF at1 wf] by blast
  have "same_except ?L w ?w1" by (simp add: Subscriber_MakeWithFlowControl_def Subscriber_Make_def)
  with w'(2) have s: "same_except ?L w w'" by (blast intro: same_except_trans)
  have "heap w' = heap w" "refs w' = refs w" "impl w' = impl w"
    using same_exceptD [OF s] w'(3,4) wf_worldD [OF wf_w]
    by (auto simp: fun_eq_iff) (metis loc.inject(1) le_refl)+
  moreover have "wf_world w'" by (rule wf_world_same_except [OF wf(1) w'(2) wf(2)])
  ultimately show ?thesis
    using w' same_exceptD [OF s] by (auto simp: Publisher_Subscribe_flow_control_def)
qed

lemma pub_ok_flow_control:
  assumes "pub_ok 1 p t vs" and "code t \<noteq> OK" and "wf_world w"
  shows "\<exists>w'. Publisher_Subscribe_flow_control exec (Some p) f w = ret w'
    \<and> user w' = received f vs t (user w) \<and> heap w' = heap w \<and> refs w' = refs w \<and> impl w' = impl w
    \<and> queues w' = queues w \<and> wf_world w'"
proof (rule flow_control_subscribe [OF _ assms(3)])
  fix d and w1 :: "('a, 'b) world"
  assume at1: "flow_control_at d f (user w) w1" and wf: "wf_world w1" "{Cell d, UserState} \<subseteq> old w1"
  have "stable_on {Cell d, UserState}
      (\<lambda>w'. heap w' d = None \<and> refs w' d = 0 \<and> user w' = received f vs t (user w))"
    by (simp add: stable_on_def)
  from pub_okD [OF assms(1) wf this flow_control_start [OF at1 assms(2)]]
  show "\<exists>w'. exec (DoSubscribe p d) w1 = ret w' \<and> same_except {Cell d, UserState} w1 w'
      \<and> heap w' d = None \<and> refs w' d = 0 \<and> user w' = received f vs t (user w)"
    by blast
qed

end
