(* ===== verification/Resumable_Contract.thy ===== *)
theory Resumable_Contract
  imports Generating_Contract Chaining_Contract
begin

text \<open>
  The contract of a stream whose subscriber asks for one event at a time, from outside: between two
  requests the stream rests, and a request makes it deliver one event and rest again, or deliver
  its terminal event and destroy itself; while it rests it may also be cancelled. This is how the upstream of an \<open>AsyncStream\<close> is used.
\<close>

section \<open>The contract\<close>

text \<open>The subscriber takes the event without touching what the stream owns.\<close>

definition quiet_next :: "addr \<Rightarrow> sid \<Rightarrow> loc set \<Rightarrow> 'v event \<Rightarrow> ('v, 'u) world \<Rightarrow> ('v, 'u) world \<Rightarrow> bool" where
  "quiet_next d s U e w w' \<longleftrightarrow> exec (OnNext d s e) w = ret w' \<and> same_on U w w' \<and> wf_world w'
     \<and> next_addr w \<le> next_addr w' \<and> next_sid w \<le> next_sid w'"

fun blank_at :: "('v, 'u) world \<Rightarrow> loc \<Rightarrow> bool" where
  "blank_at w (Cell a) \<longleftrightarrow> heap w a = None \<and> refs w a = 0"
| "blank_at w (Sub s) \<longleftrightarrow> impl w s = None"
| "blank_at w UserState \<longleftrightarrow> False"

lemma blank_at_same_on: "blank_at w l \<Longrightarrow> same_on L w w' \<Longrightarrow> l \<in> L \<Longrightarrow> blank_at w' l"
  by (cases l) (auto simp: same_on_alt)

text \<open>What was created and is blank again did not change.\<close>

lemma same_except_blank:
  assumes s: "same_except (L \<union> R) w w'" and R: "R \<inter> old w = {}" and b: "\<forall>l\<in>R. blank_at w' l" and wf: "wf_world w"
  shows "same_except L w w'"
proof (rule same_except_shrink [OF s])
  have "content w' l = content w l" if l: "l \<in> R" for l
  proof (cases l)
    case (Cell a)
    then have "next_addr w \<le> a" "heap w' a = None \<and> refs w' a = 0" using l R b by auto
    then show ?thesis using wf by (simp add: Cell wf_worldD)
  next
    case (Sub s)
    then have "next_sid w \<le> s" "impl w' s = None" using l R b by auto
    then show ?thesis using wf by (simp add: Sub wf_worldD)
  next
    case UserState
    then show ?thesis using l b by auto
  qed
  then show "same_on R w w'" by (simp add: same_on_def)
qed

text \<open>Cancelling destroys the stream, and then its subscriber.\<close>

definition cancels :: "addr \<Rightarrow> sid \<Rightarrow> loc set \<Rightarrow> ('v, 'u) world \<Rightarrow> bool" where
  "cancels d s U w \<longleftrightarrow> impl w s \<noteq> None \<and> (\<exists>w3. Subscription_Cancel exec s w = exec (Destroy d) w3
     \<and> same_except U w w3 \<and> (\<forall>l\<in>U. blank_at w3 l))"

text \<open>The stream with subscription \<open>s\<close>, subscriber \<open>d\<close> and locations \<open>U\<close> rests, with \<open>vs\<close> and \<open>t\<close> to come.\<close>

primrec resumable :: "addr \<Rightarrow> sid \<Rightarrow> loc set \<Rightarrow> Status \<Rightarrow> 'v val list \<Rightarrow> ('v, 'u) world \<Rightarrow> bool" where
  "resumable d s U t [] w \<longleftrightarrow>
     (\<forall>w1. same_on U w w1 \<and> wf_world w1 \<and> U \<subseteq> old w1 \<longrightarrow> cancels d s U w1 \<and>
       (\<exists>wm. same_except U w1 wm \<and> (\<forall>w2. quiet_next d s U (StatusRepr t) wm w2 \<longrightarrow>
         (\<exists>w3. Subscription_Request exec s 1 w1 = exec (Destroy d) w3 \<and> same_except U w2 w3
           \<and> (\<forall>l\<in>U. blank_at w3 l)))))"
| "resumable d s U t (v # vs) w \<longleftrightarrow>
     (\<forall>w1. same_on U w w1 \<and> wf_world w1 \<and> U \<subseteq> old w1 \<longrightarrow> cancels d s U w1 \<and>
       (\<exists>wm. same_except U w1 wm \<and> (\<forall>w2. quiet_next d s U (ValueRepr v) wm w2 \<longrightarrow>
         (\<exists>w3. Subscription_Request exec s 1 w1 = ret w3 \<and> same_except U w2 w3
           \<and> resumable d s U t vs w3))))"

lemma resumable_stable: "resumable d s U t vs w \<Longrightarrow> same_on U w w' \<Longrightarrow> resumable d s U t vs w'"
  by (cases vs) (simp; meson same_on_trans)+

lemma resumable_cancels: "resumable d s U t vs w \<Longrightarrow> wf_world w \<Longrightarrow> U \<subseteq> old w \<Longrightarrow> cancels d s U w"
  by (cases vs) auto

lemma resumable_live: "resumable d s U t vs w \<Longrightarrow> wf_world w \<Longrightarrow> U \<subseteq> old w \<Longrightarrow> impl w s \<noteq> None"
  using resumable_cancels [of d s U t vs w] by (simp add: cancels_def)

lemma resumable_NilD:
  assumes "resumable d s U t [] w" and "wf_world w" and "U \<subseteq> old w"
  obtains wm where "same_except U w wm"
    and "\<And>w2. quiet_next d s U (StatusRepr t) wm w2 \<Longrightarrow>
      \<exists>w3. Subscription_Request exec s 1 w = exec (Destroy d) w3 \<and> same_except U w2 w3 \<and> (\<forall>l\<in>U. blank_at w3 l)"
  using assms unfolding resumable.simps by (meson same_on_refl)

lemma resumable_ConsD:
  assumes "resumable d s U t (v # vs) w" and "wf_world w" and "U \<subseteq> old w"
  obtains wm where "same_except U w wm"
    and "\<And>w2. quiet_next d s U (ValueRepr v) wm w2 \<Longrightarrow>
      \<exists>w3. Subscription_Request exec s 1 w = ret w3 \<and> same_except U w2 w3 \<and> resumable d s U t vs w3"
  using assms unfolding resumable.simps by (meson same_on_refl)

definition pub_resumable :: "('v, 'u) pub \<Rightarrow> Status \<Rightarrow> 'v val list \<Rightarrow> bool" where
  "pub_resumable p t vs \<longleftrightarrow>
     (\<forall>d (w :: ('v, 'u) world). wf_world w \<and> d < next_addr w \<longrightarrow>
       (\<exists>s U wm. exec (DoSubscribe p d) w = exec (OnSubscribe d s) wm \<and> same_except U w wm \<and> U \<inter> old w = {}
         \<and> U \<subseteq> old wm \<and> wf_world wm \<and> resumable d s U t vs wm))"

section \<open>Generators\<close>

definition generating_idle ::
  "addr \<Rightarrow> sid \<Rightarrow> ('v, 'u) generator \<Rightarrow> 'v val \<Rightarrow> addr \<Rightarrow> ('v, 'u) world \<Rightarrow> bool" where
  "generating_idle a s g st d w \<longleftrightarrow>
     heap w a = Some (GeneratingStream \<lparr>gs_generator = g, gs_state = st, gs_subscriber = d,
       gs_requested = counter 0, gs_generating = False, gs_sid = s\<rparr>)
     \<and> refs w a = 0 \<and> impl w s = Some a"

lemma counter_one: "Add (counter 0) 1 = counter (Suc 0)" "Remove (counter (Suc 0)) 1 = ret (counter 0)"
  using counter_Add [of 0 1] counter_Remove [of 0] by simp_all

lemma generating_request:
  assumes "generating_idle a s g st d w" and "g st (user w) = (e, st', user w)"
  defines "wm \<equiv> put a (GeneratingStream \<lparr>gs_generator = g, gs_state = st', gs_subscriber = d,
       gs_requested = counter 0, gs_generating = True, gs_sid = s\<rparr>) w"
  assumes "quiet_next d s {Cell a, Sub s} e wm w2"
  shows "Subscription_Request exec s 1 w =
    (if IsEnd e then exec (Destroy d) (free a (clear_subscription s w2))
     else ret (put a (GeneratingStream \<lparr>gs_generator = g, gs_state = st', gs_subscriber = d,
       gs_requested = counter 0, gs_generating = False, gs_sid = s\<rparr>) w2))"
  using assms
  by (simp add: generating_idle_def Subscription_live exec_Request GeneratingStream_Request_def get_simps
      counter_one GeneratingStream_Generate_def exec_internal(1) GeneratingStream_Generate_loop_def counter_Has
      exec_Destroy GeneratingStream_destroy_def quiet_next_def cong: bnd_weak_cong)

lemma generating_cancels: "generating_idle a s g st d w \<Longrightarrow> cancels d s {Cell a, Sub s} w"
  by (auto simp: cancels_def generating_idle_def Subscription_live exec_Cancel GeneratingStream_Cancel_def exec_Destroy
      GeneratingStream_destroy_def intro!: exI [of _ "free a (clear_subscription s w)"])

lemma generating_resumable:
  assumes "gen_emits g st vs t" and "generating_idle a s g st d w"
  shows "resumable d s {Cell a, Sub s} t vs w"
  using assms
proof (induction arbitrary: w)
  case (last st t st')
  show ?case unfolding resumable.simps
  proof (intro allI impI, elim conjE)
    fix w1 assume "same_on {Cell a, Sub s} w w1"
    then have at1: "generating_idle a s g st d w1" using last.prems by (simp add: generating_idle_def)
    define wm where "wm = put a (GeneratingStream \<lparr>gs_generator = g, gs_state = st' (user w1), gs_subscriber = d,
       gs_requested = counter 0, gs_generating = True, gs_sid = s\<rparr>) w1"
    have "\<exists>w3. Subscription_Request exec s 1 w1 = exec (Destroy d) w3 \<and> same_except {Cell a, Sub s} w2 w3
        \<and> (\<forall>l\<in>{Cell a, Sub s}. blank_at w3 l)"
      if q: "quiet_next d s {Cell a, Sub s} (StatusRepr t) wm w2" for w2
    proof (intro exI conjI)
      show "Subscription_Request exec s 1 w1 = exec (Destroy d) (free a (clear_subscription s w2))"
        using generating_request [OF at1 last.hyps(1) q [unfolded wm_def]] last.hyps(2) by simp
      show "\<forall>l\<in>{Cell a, Sub s}. blank_at (free a (clear_subscription s w2)) l"
        using q at1 by (simp add: quiet_next_def wm_def generating_idle_def)
    qed simp
    moreover have "same_except {Cell a, Sub s} w1 wm" by (simp add: wm_def)
    ultimately show "cancels d s {Cell a, Sub s} w1 \<and> (\<exists>wm. same_except {Cell a, Sub s} w1 wm
        \<and> (\<forall>w2. quiet_next d s {Cell a, Sub s} (StatusRepr t) wm w2 \<longrightarrow>
          (\<exists>w3. Subscription_Request exec s 1 w1 = exec (Destroy d) w3 \<and> same_except {Cell a, Sub s} w2 w3
            \<and> (\<forall>l\<in>{Cell a, Sub s}. blank_at w3 l))))"
      using generating_cancels [OF at1] by blast
  qed
next
  case (more st v st' vs t)
  show ?case unfolding resumable.simps
  proof (intro allI impI, elim conjE)
    fix w1 assume "same_on {Cell a, Sub s} w w1"
    then have at1: "generating_idle a s g st d w1" using more.prems by (simp add: generating_idle_def)
    define wm where "wm = put a (GeneratingStream \<lparr>gs_generator = g, gs_state = st', gs_subscriber = d,
       gs_requested = counter 0, gs_generating = True, gs_sid = s\<rparr>) w1"
    have "\<exists>w3. Subscription_Request exec s 1 w1 = ret w3 \<and> same_except {Cell a, Sub s} w2 w3
        \<and> resumable d s {Cell a, Sub s} t vs w3"
      if q: "quiet_next d s {Cell a, Sub s} (ValueRepr v) wm w2" for w2
    proof (intro exI conjI)
      let ?w3 = "put a (GeneratingStream \<lparr>gs_generator = g, gs_state = st', gs_subscriber = d,
        gs_requested = counter 0, gs_generating = False, gs_sid = s\<rparr>) w2"
      show "Subscription_Request exec s 1 w1 = ret ?w3"
        using generating_request [OF at1 more.hyps(1) q [unfolded wm_def]] by simp
      show "resumable d s {Cell a, Sub s} t vs ?w3"
        using q at1 by (intro more.IH) (simp add: quiet_next_def wm_def generating_idle_def)
    qed simp
    moreover have "same_except {Cell a, Sub s} w1 wm" by (simp add: wm_def)
    ultimately show "cancels d s {Cell a, Sub s} w1 \<and> (\<exists>wm. same_except {Cell a, Sub s} w1 wm
        \<and> (\<forall>w2. quiet_next d s {Cell a, Sub s} (ValueRepr v) wm w2 \<longrightarrow>
          (\<exists>w3. Subscription_Request exec s 1 w1 = ret w3 \<and> same_except {Cell a, Sub s} w2 w3
            \<and> resumable d s {Cell a, Sub s} t vs w3)))"
      using generating_cancels [OF at1] by blast
  qed
qed

lemma generating_pub_resumable:
  fixes g :: "('v, 'u) generator"
  assumes "gen_emits g st vs t"
  shows "pub_resumable (GeneratingPublisher st g) t vs"
  unfolding pub_resumable_def
proof (intro allI impI, elim conjE)
  fix d and w :: "('v, 'u) world"
  assume wf: "wf_world w" and d: "d < next_addr w"
  let ?a = "next_addr w" and ?s = "next_sid w"
  define wm where "wm = new_subscription_state ?a (alloc (GeneratingStream \<lparr>gs_generator = g, gs_state = st,
    gs_subscriber = d, gs_requested = counter 0, gs_generating = False, gs_sid = ?s\<rparr>) w)"
  have "generating_idle ?a ?s g st d wm" using wf by (simp add: generating_idle_def wm_def wf_worldD)
  then have "resumable d ?s {Cell ?a, Sub ?s} t vs wm" by (rule generating_resumable [OF assms])
  moreover have "exec (DoSubscribe (GeneratingPublisher st g) d) w = exec (OnSubscribe d ?s) wm"
    by (simp add: exec_DoSubscribe GeneratingPublisher_Subscribe_def GeneratingStream_new_def Let_def wm_def)
  moreover have "same_except {Cell ?a, Sub ?s} w wm" "{Cell ?a, Sub ?s} \<inter> old w = {}"
    "{Cell ?a, Sub ?s} \<subseteq> old wm" "wf_world wm"
    using wf by (auto simp: wm_def)
  ultimately show "\<exists>s U wm. exec (DoSubscribe (GeneratingPublisher st g) d) w = exec (OnSubscribe d s) wm
      \<and> same_except U w wm \<and> U \<inter> old w = {} \<and> U \<subseteq> old wm \<and> wf_world wm \<and> resumable d s U t vs wm"
    by blast
qed

section \<open>Map and StaticCast\<close>

lemma chain_quiet:
  assumes "forwarding f g" and "chain_at a s' d f (Some s) wm"
  shows "quiet_next d s' (U \<union> {Cell a, Sub s'}) (ValueRepr (g v)) wm w2 \<Longrightarrow> quiet_next a s U (ValueRepr v) wm w2"
    and "code t \<noteq> OK \<Longrightarrow> quiet_next d s' (U \<union> {Cell a, Sub s'}) (StatusRepr t) wm w2 \<Longrightarrow>
      quiet_next a s U (StatusRepr t) wm w2"
  using assms by (simp_all add: quiet_next_def chain_at_def exec_OnNext ChainingStream_OnNext_def get_simps forwarding_def)

lemma chain_request:
  assumes "forwarding f g" and "chain_at a s' d f (Some s) w"
  shows "Subscription_Request exec s' 1 w = Subscription_Request exec s 1 w"
  using assms by (simp add: chain_at_def forwarding_def Subscription_live exec_Request ChainingStream_Request_def get_simps)

lemma chain_cancels:
  assumes c: "cancels a s U w" and at: "chain_at a s' d f (Some s) w" and own: "Cell a \<notin> U" "Sub s' \<notin> U"
  shows "cancels d s' (U \<union> {Cell a, Sub s'}) w"
proof -
  let ?U = "U \<union> {Cell a, Sub s'}"
  obtain w3 where 3: "impl w s \<noteq> None" "Subscription_Cancel exec s w = exec (Destroy a) w3" "same_except U w w3"
    "\<forall>l\<in>U. blank_at w3 l"
    using c by (auto simp: cancels_def)
  have at3: "chain_at a s' d f (Some s) w3" using at same_exceptD [OF 3(3)] own by (simp add: chain_at_def)
  let ?w = "free a (clear_subscription s' w3)"
  have "Subscription_Cancel exec s' w = exec (Destroy d) ?w"
    using at at3 3(1,2) by (simp add: chain_at_def Subscription_live exec_Cancel ChainingStream_Cancel_def get_simps
        exec_Destroy ChainingStream_destroy_def)
  moreover have "same_except ?U w ?w" using same_except_widen [OF 3(3), of "{Cell a, Sub s'}"] by simp
  moreover have "blank_at ?w l" if "l \<in> ?U" for l
  proof (cases "l \<in> U")
    case True
    then have "blank_at w3 l" using 3(4) by blast
    then show ?thesis by (cases l) simp_all
  next
    case False
    then show ?thesis using that at3 by (auto simp: chain_at_def)
  qed
  moreover have "impl w s' \<noteq> None" using at by (simp add: chain_at_def)
  ultimately show ?thesis unfolding cancels_def by blast
qed

lemma chain_resumable:
  assumes f: "forwarding f g" and own: "Cell a \<notin> U" "Sub s' \<notin> U" and t: "code t \<noteq> OK"
    and "resumable a s U t vs w" and "chain_at a s' d f (Some s) w"
  shows "resumable d s' (U \<union> {Cell a, Sub s'}) t (map g vs) w"
  using assms(5,6)
proof (induction vs arbitrary: w)
  case Nil
  let ?U = "U \<union> {Cell a, Sub s'}"
  show ?case unfolding list.map resumable.simps
  proof (intro allI impI, elim conjE)
    fix w1 assume same: "same_on ?U w w1" and wf: "wf_world w1" and old: "?U \<subseteq> old w1"
    have at1: "chain_at a s' d f (Some s) w1" using chain_at_same_on [OF Nil(2) same] by simp
    have r1: "resumable a s U t [] w1" using same by (intro resumable_stable [OF Nil(1)]) simp
    obtain wm where wm: "same_except U w1 wm"
      and step: "\<And>w2. quiet_next a s U (StatusRepr t) wm w2 \<Longrightarrow>
        \<exists>w3. Subscription_Request exec s 1 w1 = exec (Destroy a) w3 \<and> same_except U w2 w3 \<and> (\<forall>l\<in>U. blank_at w3 l)"
      using resumable_NilD [OF r1 wf] old by auto
    have atm: "chain_at a s' d f (Some s) wm"
      using at1 same_exceptD [OF wm] own by (simp add: chain_at_def)
    have "\<exists>w3. Subscription_Request exec s' 1 w1 = exec (Destroy d) w3 \<and> same_except ?U w2 w3
        \<and> (\<forall>l\<in>?U. blank_at w3 l)"
      if q: "quiet_next d s' ?U (StatusRepr t) wm w2" for w2
    proof -
      obtain w3 where 3: "Subscription_Request exec s 1 w1 = exec (Destroy a) w3" "same_except U w2 w3"
        "\<forall>l\<in>U. blank_at w3 l"
        using step [OF chain_quiet(2) [OF f atm t q]] by blast
      have "chain_at a s' d f (Some s) w2" using atm q by (simp add: chain_at_def quiet_next_def)
      then have at3: "chain_at a s' d f (Some s) w3"
        using same_exceptD [OF 3(2)] own by (simp add: chain_at_def)
      let ?w = "free a (clear_subscription s' w3)"
      have "Subscription_Request exec s' 1 w1 = exec (Destroy d) ?w"
        using chain_request [OF f at1] 3(1) at3 by (simp add: chain_at_def exec_Destroy ChainingStream_destroy_def)
      moreover have "same_except ?U w2 ?w" using same_except_widen [OF 3(2), of "{Cell a, Sub s'}"] by simp
      moreover have "blank_at ?w l" if "l \<in> ?U" for l
      proof (cases "l \<in> U")
        case True
        then have "blank_at w3 l" using 3(3) by blast
        then show ?thesis by (cases l) simp_all
      next
        case False
        then show ?thesis using that at3 by (auto simp: chain_at_def)
      qed
      ultimately show ?thesis by blast
    qed
    moreover have "cancels d s' ?U w1" using resumable_cancels [OF r1 wf] old by (intro chain_cancels [OF _ at1 own]) simp
    ultimately show "cancels d s' ?U w1 \<and> (\<exists>wm. same_except ?U w1 wm
        \<and> (\<forall>w2. quiet_next d s' ?U (StatusRepr t) wm w2 \<longrightarrow>
          (\<exists>w3. Subscription_Request exec s' 1 w1 = exec (Destroy d) w3 \<and> same_except ?U w2 w3
            \<and> (\<forall>l\<in>?U. blank_at w3 l))))"
      using same_except_widen [OF wm] by blast
  qed
next
  case (Cons v vs)
  let ?U = "U \<union> {Cell a, Sub s'}"
  show ?case unfolding list.map resumable.simps
  proof (intro allI impI, elim conjE)
    fix w1 assume same: "same_on ?U w w1" and wf: "wf_world w1" and old: "?U \<subseteq> old w1"
    have at1: "chain_at a s' d f (Some s) w1" using chain_at_same_on [OF Cons.prems(2) same] by simp
    have r1: "resumable a s U t (v # vs) w1" using same by (intro resumable_stable [OF Cons.prems(1)]) simp
    obtain wm where wm: "same_except U w1 wm"
      and step: "\<And>w2. quiet_next a s U (ValueRepr v) wm w2 \<Longrightarrow>
        \<exists>w3. Subscription_Request exec s 1 w1 = ret w3 \<and> same_except U w2 w3 \<and> resumable a s U t vs w3"
      using resumable_ConsD [OF r1 wf] old by auto
    have atm: "chain_at a s' d f (Some s) wm"
      using at1 same_exceptD [OF wm] own by (simp add: chain_at_def)
    have "\<exists>w3. Subscription_Request exec s' 1 w1 = ret w3 \<and> same_except ?U w2 w3 \<and> resumable d s' ?U t (map g vs) w3"
      if q: "quiet_next d s' ?U (ValueRepr (g v)) wm w2" for w2
    proof -
      obtain w3 where 3: "Subscription_Request exec s 1 w1 = ret w3" "same_except U w2 w3" "resumable a s U t vs w3"
        using step [OF chain_quiet(1) [OF f atm q]] by blast
      have "chain_at a s' d f (Some s) w2" using atm q by (simp add: chain_at_def quiet_next_def)
      then have "chain_at a s' d f (Some s) w3"
        using same_exceptD [OF 3(2)] own by (simp add: chain_at_def)
      then show ?thesis
        using 3 Cons.IH chain_request [OF f at1] same_except_widen [OF 3(2), of "{Cell a, Sub s'}"] by auto
    qed
    moreover have "cancels d s' ?U w1" using resumable_cancels [OF r1 wf] old by (intro chain_cancels [OF _ at1 own]) simp
    ultimately show "cancels d s' ?U w1 \<and> (\<exists>wm. same_except ?U w1 wm
        \<and> (\<forall>w2. quiet_next d s' ?U (ValueRepr (g v)) wm w2 \<longrightarrow>
          (\<exists>w3. Subscription_Request exec s' 1 w1 = ret w3 \<and> same_except ?U w2 w3
            \<and> resumable d s' ?U t (map g vs) w3)))"
      using same_except_widen [OF wm] by blast
  qed
qed

lemma chain_pub_resumable:
  fixes p :: "('v, 'u) pub"
  assumes base: "pub_resumable p t vs" and f: "forwarding f g" and t: "code t \<noteq> OK"
  shows "pub_resumable (ChainingPublisher p f) t (map g vs)"
  unfolding pub_resumable_def
proof (intro allI impI, elim conjE)
  fix d and w :: "('v, 'u) world"
  assume wf: "wf_world w" and d: "d < next_addr w"
  let ?a = "next_addr w" and ?s' = "next_sid w"
  define w1 where "w1 = new_subscription_state ?a (alloc (ChainingStream \<lparr>cs_func = f, cs_subscriber = d,
    cs_sid = ?s', cs_base_subscription = None\<rparr>) w)"
  have at1: "chain_at ?a ?s' d f None w1" using wf by (simp add: chain_at_def w1_def wf_worldD)
  have w1: "wf_world w1" "?a < next_addr w1" "same_except {Cell ?a, Sub ?s'} w w1" using wf by (simp_all add: w1_def)
  obtain s U wm where m: "exec (DoSubscribe p ?a) w1 = exec (OnSubscribe ?a s) wm" "same_except U w1 wm"
    "U \<inter> old w1 = {}" "U \<subseteq> old wm" "wf_world wm" "resumable ?a s U t vs wm"
    using base w1 unfolding pub_resumable_def by blast
  have own: "Cell ?a \<notin> U" "Sub ?s' \<notin> U" using m(3) by (auto simp: w1_def)
  have atm: "chain_at ?a ?s' d f None wm" using at1 same_exceptD [OF m(2)] own by (simp add: chain_at_def)
  define w2 where "w2 = put ?a (ChainingStream \<lparr>cs_func = f, cs_subscriber = d, cs_sid = ?s',
    cs_base_subscription = Some s\<rparr>) wm"
  let ?U = "U \<union> {Cell ?a, Sub ?s'}"
  have "exec (DoSubscribe (ChainingPublisher p f) d) w = exec (OnSubscribe d ?s') w2"
    using m(1) atm by (simp add: exec_DoSubscribe ChainingPublisher_Subscribe_def Let_def w1_def [symmetric]
        chain_at_def exec_OnSubscribe ChainingStream_OnSubscribe_def get_simps w2_def)
  moreover have "same_except ?U w w2"
    using same_except_trans [OF same_except_mono [OF w1(3)] same_except_widen [OF m(2)], of "{Cell ?a, Sub ?s'}"]
    by (simp add: w2_def)
  moreover have "?U \<inter> old w = {}" using m(3) by (auto simp: w1_def)
  moreover have "?U \<subseteq> old w2"
    using m(4) same_except_old [OF m(2), of "{Cell ?a, Sub ?s'}"] by (auto simp: w1_def w2_def)
  moreover have "wf_world w2"
    using m(5) same_exceptD(5) [OF m(2)] by (simp add: w2_def w1_def)
  moreover have "resumable d ?s' ?U t (map g vs) w2"
  proof (rule chain_resumable [OF f own t])
    show "resumable ?a s U t vs w2"
      by (rule resumable_stable [OF m(6)]) (use own in \<open>simp add: w2_def\<close>)
    show "chain_at ?a ?s' d f (Some s) w2" using atm by (simp add: chain_at_def w2_def)
  qed
  ultimately show "\<exists>s U wm. exec (DoSubscribe (ChainingPublisher p f) d) w = exec (OnSubscribe d s) wm
      \<and> same_except U w wm \<and> U \<inter> old w = {} \<and> U \<subseteq> old wm \<and> wf_world wm \<and> resumable d s U t (map g vs) wm"
    by blast
qed

section \<open>Pipelines that can rest\<close>

text \<open>Generators under any number of \<open>Map\<close> and \<open>StaticCast\<close>.\<close>

inductive rests :: "('v, 'u) pub \<Rightarrow> 'v val list \<Rightarrow> Status \<Rightarrow> bool" where
  rests_generator: "gen_emits g st vs t \<Longrightarrow> rests (GeneratingPublisher st g) vs t"
| rests_map: "rests p vs t \<Longrightarrow> (\<And>v u. f v u = (ValueRepr (g v), u)) \<Longrightarrow> rests (ChainingPublisher p (MapFn f)) (map g vs) t"
| rests_cast: "rests p vs t \<Longrightarrow> rests (ChainingPublisher p (CastFn g)) (map g vs) t"

lemma rests_terminal: "rests p vs t \<Longrightarrow> code t \<noteq> OK"
proof (induction rule: rests.induct)
  case (rests_generator g st vs t)
  then show ?case by (induction rule: gen_emits.induct) auto
qed auto

lemma rests_resumable: "rests p vs t \<Longrightarrow> pub_resumable p t vs"
proof (induction rule: rests.induct)
  case (rests_generator g st vs t)
  then show ?case by (rule generating_pub_resumable)
next
  case (rests_map p vs t f g)
  then show ?case by (intro chain_pub_resumable forwarding_Map rests_terminal)
next
  case (rests_cast p vs t g)
  then show ?case by (intro chain_pub_resumable forwarding_Cast rests_terminal)
qed

lemma rests_values: "length vs < 2 ^ 64 \<Longrightarrow> rests (CreateValuePublisher vs) vs Done"
  using gen_emits_value_generator [of vs 0] unfolding CreateValuePublisher_def by (auto intro!: rests_generator)

end
