(* ===== verification/Merge_Upstream.thy ===== *)
theory Merge_Upstream
  imports Resumable_Contract
begin

text \<open>
  The upstream side of \<open>MergeStream\<close>: the order in which it takes the elements of its upstreams, and
  its \<open>MergeUpstreamSubscriber\<close>s, which keep one event of an upstream that rests in between.
\<close>

section \<open>Round robin\<close>

text \<open>The upstreams in the order of their turns, each with its index and the values it still has.\<close>

function round_robin :: "(nat \<times> 'v val list) list \<Rightarrow> 'v val list" where
  "round_robin [] = []"
| "round_robin ((i, []) # qs) = round_robin qs"
| "round_robin ((i, v # vs) # qs) = Variant i v # round_robin (qs @ [(i, vs)])"
  by pat_completeness auto
termination
  by (relation "measure (\<lambda>qs. sum_list (map (\<lambda>q. Suc (length (snd q))) qs))") simp_all

text \<open>
  The same for upstreams that may also end with an error, which ends the merge, if every other upstream
  that has not had its end has a value at hand; otherwise the program aborts (theory \<open>Findings\<close>) and
  nothing is said.
\<close>

function merged :: "(nat \<times> 'v val list \<times> Status) list \<Rightarrow> ('v val list \<times> Status) option" where
  "merged [] = Some ([], Done)"
| "merged ((i, [], t) # qs) =
     (if IsError_status t then (if \<forall>q\<in>set qs. fst (snd q) \<noteq> [] then Some ([], t) else None) else merged qs)"
| "merged ((i, v # vs, t) # qs) = map_option (\<lambda>(us, t). (Variant i v # us, t)) (merged (qs @ [(i, vs, t)]))"
  by pat_completeness auto
termination
  by (relation "measure (\<lambda>qs. sum_list (map (\<lambda>q. Suc (length (fst (snd q)))) qs))") simp_all

lemma merged_terminal: "merged qs = Some (us, t) \<Longrightarrow> code t \<noteq> OK"
  by (induction qs arbitrary: us rule: merged.induct) (auto split: if_splits simp: IsError_status_def)

lemma merged_Done: "merged (map (\<lambda>(i, vs). (i, vs, Done)) qs) = Some (round_robin qs, Done)"
  by (induction qs rule: round_robin.induct) (simp_all add: IsError_status_def IsDone_status_def)

text \<open>What is left of a list whose ended entries are \<open>None\<close>, from a given index on.\<close>

primrec alive :: "('a \<times> 'b option) list \<Rightarrow> ('a \<times> 'b) list" where
  "alive [] = []"
| "alive (q # qs) = (case snd q of None \<Rightarrow> alive qs | Some x \<Rightarrow> (fst q, x) # alive qs)"

definition turns :: "nat \<Rightarrow> ('a \<times> 'b option) list \<Rightarrow> ('a \<times> 'b) list" where
  "turns c qs = alive (rotate c qs)"

lemma alive_append [simp]: "alive (xs @ ys) = alive xs @ alive ys"
  by (induction xs) (auto split: option.splits)

lemma alive_Nil_iff: "alive qs = [] \<longleftrightarrow> (\<forall>q\<in>set qs. snd q = None)"
  by (induction qs) (auto split: option.splits)

lemma alive_set: "set (alive qs) = {(k, x). (k, Some x) \<in> set qs}"
  by (induction qs) (auto split: option.splits)

lemma turns_Nil_iff: "turns c qs = [] \<longleftrightarrow> (\<forall>q\<in>set qs. snd q = None)"
  by (simp add: turns_def alive_Nil_iff)

lemma set_turns: "set (turns c qs) = set (alive qs)"
  by (simp add: turns_def alive_set)

lemma length_turns: "length (turns c qs) = length (alive qs)"
  by (simp add: turns_def rotate_drop_take flip: alive_append) (metis add.commute alive_append append_take_drop_id length_append)

lemma rotate_at: "c < length qs \<Longrightarrow> rotate c qs = qs ! c # drop (Suc c) qs @ take c qs"
  by (simp add: rotate_drop_take Cons_nth_drop_Suc [symmetric])

lemma rotate_next:
  "c < length qs \<Longrightarrow> rotate (Suc c mod length qs) (qs[c := q]) = (drop (Suc c) qs @ take c qs) @ [q]"
  using rotate_conv_mod [of "Suc c" "qs[c := q]"] rotate_at [of c "qs[c := q]"] by simp

lemma turns_skip:
  "c < length qs \<Longrightarrow> snd (qs ! c) = None \<Longrightarrow> turns (Suc c mod length qs) qs = turns c qs"
  using rotate_next [of c qs "qs ! c"] by (simp add: turns_def rotate_at)

lemma turns_take:
  assumes "c < length qs" and "qs ! c = (k, Some x)"
  obtains rest where "turns c qs = (k, x) # rest"
    and "\<And>y. turns (Suc c mod length qs) (qs[c := (k, Some y)]) = rest @ [(k, y)]"
    and "turns (Suc c mod length qs) (qs[c := (k, None)]) = rest"
  using assms that [of "alive (drop (Suc c) qs @ take c qs)"] rotate_next [OF assms(1)]
  by (simp add: turns_def rotate_at)

text \<open>How many ended upstreams come before the next one alive.\<close>

definition skips :: "nat \<Rightarrow> ('a \<times> 'b option) list \<Rightarrow> nat" where
  "skips c qs = length (takeWhile (\<lambda>q. snd q = None) (rotate c qs))"

lemma skips_less:
  assumes "c < length qs" and "snd (qs ! c) = None" and "turns c qs \<noteq> []"
  shows "skips (Suc c mod length qs) qs < skips c qs"
proof -
  obtain q where "q \<in> set (drop (Suc c) qs @ take c qs)" "snd q \<noteq> None"
    using assms by (auto simp: turns_def rotate_at alive_Nil_iff)
  then have "takeWhile (\<lambda>q. snd q = None) ((drop (Suc c) qs @ take c qs) @ [qs ! c])
      = takeWhile (\<lambda>q. snd q = None) (drop (Suc c) qs @ take c qs)"
    by (intro takeWhile_append1)
  then show ?thesis using rotate_next [OF assms(1), of "qs ! c"] assms(1,2) by (simp add: skips_def rotate_at)
qed

section \<open>The objects\<close>

abbreviation merge_obj ::
  "sid \<Rightarrow> addr \<Rightarrow> addr option list \<Rightarrow> nat \<Rightarrow> nat \<Rightarrow> RequestBalance \<Rightarrow> bool \<Rightarrow> addr option \<Rightarrow> ('v, 'u) obj" where
  "merge_obj S d ups c rb av deliv lock \<equiv> MergeStream
     \<lparr>ms_subscriber = d, ms_sid = S, ms_upstream_subscribers = ups, ms_self_lock = lock, ms_current_index = c,
      ms_request_balance = counter rb, ms_available_balance = av, ms_delivering = deliv\<rparr>"

definition merge_at ::
  "addr \<Rightarrow> sid \<Rightarrow> addr \<Rightarrow> addr option list \<Rightarrow> nat \<Rightarrow> nat \<Rightarrow> RequestBalance \<Rightarrow> bool \<Rightarrow> addr option \<Rightarrow> nat
    \<Rightarrow> ('v, 'u) world \<Rightarrow> bool" where
  "merge_at M S d ups c rb av deliv lock n w \<longleftrightarrow>
     heap w M = Some (merge_obj S d ups c rb av deliv lock) \<and> refs w M = n \<and> impl w S = Some M"

abbreviation merge_upstream :: "nat \<Rightarrow> addr \<Rightarrow> 'v event option \<Rightarrow> sid option \<Rightarrow> ('v, 'u) obj" where
  "merge_upstream k M nx s \<equiv> MergeUpstreamSubscriber
     \<lparr>mu_index = k, mu_merge = M, mu_next = nx, mu_upstream_subscription = s\<rparr>"

text \<open>
  An upstream: its subscriber, the wrapper the upstream owns, its subscription, and the locations of
  the upstream itself.
\<close>

record upstream =
  up_addr :: addr
  up_wrapper :: addr
  up_sid :: sid
  up_locs :: "loc set"

definition up_owns :: "upstream \<Rightarrow> loc set" where
  "up_owns x = up_locs x \<union> {Cell (up_addr x), Cell (up_wrapper x)}"

definition up_sane :: "upstream \<Rightarrow> bool" where
  "up_sane x \<longleftrightarrow> up_locs x \<inter> {Cell (up_addr x), Cell (up_wrapper x)} = {} \<and> up_addr x \<noteq> up_wrapper x"

text \<open>
  With \<open>v # vs\<close> and \<open>t\<close> to come the subscriber holds \<open>v\<close> and the upstream rests with \<open>vs\<close>; with only
  \<open>t\<close> to come the subscriber holds it and the upstream is gone; \<open>None\<close> stands for a subscriber that is
  gone. There are \<open>r\<close> references to the subscriber beside the ones of the stream and the wrapper.
\<close>

fun up_at :: "addr \<Rightarrow> nat \<Rightarrow> upstream \<Rightarrow> nat \<times> ('v val list \<times> Status) option \<Rightarrow> ('v, 'u) world \<Rightarrow> bool" where
  "up_at M r x (k, None) w \<longleftrightarrow> (\<forall>l\<in>up_owns x. blank_at w l)"
| "up_at M r x (k, Some ([], t)) w \<longleftrightarrow> code t \<noteq> OK
     \<and> heap w (up_addr x) = Some (merge_upstream k M (Some (StatusRepr t)) (Some (up_sid x)))
     \<and> refs w (up_addr x) = Suc r \<and> (\<forall>l\<in>insert (Cell (up_wrapper x)) (up_locs x). blank_at w l)"
| "up_at M r x (k, Some (v # vs, t)) w \<longleftrightarrow> code t \<noteq> OK
     \<and> heap w (up_addr x) = Some (merge_upstream k M (Some (ValueRepr (Variant k v))) (Some (up_sid x)))
     \<and> refs w (up_addr x) = Suc (Suc r) \<and> wrapper_at (up_wrapper x) (up_addr x) w
     \<and> resumable (up_wrapper x) (up_sid x) (up_locs x) t vs w"

lemma up_at_same_on:
  assumes "up_at M r x q w" and "same_on (up_owns x) w w'"
  shows "up_at M r x q w'"
proof -
  have s: "same_on (up_locs x) w w'" "heap w' (up_addr x) = heap w (up_addr x)" "refs w' (up_addr x) = refs w (up_addr x)"
    "heap w' (up_wrapper x) = heap w (up_wrapper x)" "refs w' (up_wrapper x) = refs w (up_wrapper x)"
    using assms(2) by (simp_all add: up_owns_def)
  obtain k st where q: "q = (k, st)" by (cases q)
  consider "st = None" | t where "st = Some ([], t)" | v vs t where "st = Some (v # vs, t)"
    by (metis list.exhaust option.exhaust prod.exhaust)
  then show ?thesis
  proof cases
    case 1
    then show ?thesis using assms(1) blank_at_same_on [OF _ assms(2)] by (auto simp: q)
  next
    case 2
    then have "blank_at w' l" if "l \<in> up_locs x" for l using assms(1) that blank_at_same_on [OF _ s(1)] by (auto simp: q)
    then show ?thesis using 2 assms(1) s by (simp add: q)
  next
    case 3
    then show ?thesis using assms(1) s resumable_stable [OF _ s(1)] by (simp add: q wrapper_at_def)
  qed
qed

section \<open>An event from an upstream\<close>

lemma counter_no_requests: "\<not> 0 < balance (counter 0)"
  by (simp add: counter_balance)

text \<open>The merging stream counts it; it is delivering already, or it has no requests yet.\<close>

lemma merge_state_changed:
  assumes "merge_at M S d ups c rb av deliv lock n w"
  shows "deliv \<or> rb = 0 \<Longrightarrow> MergeStream_UpstreamSubscriberStateChanged exec M 1 w =
      ret (put M (merge_obj S d ups c rb (Add av 1) deliv lock) w)"
    and "MergeStream_UpstreamSubscriberStateChanged exec M (- 1) w =
      ret (put M (merge_obj S d ups c rb (Add av (- 1)) deliv lock) w)"
  using assms
  by (cases deliv; simp add: merge_at_def MergeStream_UpstreamSubscriberStateChanged_def Let_def get_simps
      MergeStream_MaybeDeliver_def exec_internal(3) [of M] MergeStream_deliver_loop_def counter_no_requests)+

text \<open>The subscriber keeps it.\<close>

lemma up_event:
  assumes u: "heap w u = Some (merge_upstream k M None (Some s))" and e: "wrapper_at e u w"
    and m: "merge_at M S d ups c rb av deliv lock n w" and "deliv \<or> rb = 0"
  shows "exec (OnNext e s' (ValueRepr v)) w = ret (put M (merge_obj S d ups c rb (Add av 1) deliv lock)
      (put u (merge_upstream k M (Some (ValueRepr (Variant k v))) (Some s)) w))"
    and "code t \<noteq> OK \<Longrightarrow> exec (OnNext e s' (StatusRepr t)) w = ret (put M (merge_obj S d ups c rb (Add av 1) deliv lock)
      (put u (merge_upstream k M (Some (StatusRepr t)) (Some s)) w))"
proof -
  have "u \<noteq> M" using u m by (auto simp: merge_at_def)
  then have "merge_at M S d ups c rb av deliv lock n (put u x w)" for x using m by (simp add: merge_at_def)
  note sc = merge_state_changed(1) [OF this assms(4)]
  show "exec (OnNext e s' (ValueRepr v)) w = ret (put M (merge_obj S d ups c rb (Add av 1) deliv lock)
      (put u (merge_upstream k M (Some (ValueRepr (Variant k v))) (Some s)) w))"
    "code t \<noteq> OK \<Longrightarrow> exec (OnNext e s' (StatusRepr t)) w = ret (put M (merge_obj S d ups c rb (Add av 1) deliv lock)
      (put u (merge_upstream k M (Some (StatusRepr t)) (Some s)) w))"
    using u e
    by (simp_all add: sc wrapper_at_def exec_OnNext SharedSubscriberWrapper_OnNext_def
        MergeUpstreamSubscriber_OnNext_def get_simps)
qed

section \<open>A request to an upstream\<close>

lemma merge_at_same_except:
  "merge_at M S d ups c rb av deliv lock n w \<Longrightarrow> same_except L w w' \<Longrightarrow> Cell M \<notin> L \<Longrightarrow> Sub S \<notin> L \<Longrightarrow>
    merge_at M S d ups c rb av deliv lock n w'"
  by (auto simp: merge_at_def same_except_alt)

lemma merge_at_put:
  "merge_at M S d ups c rb av deliv lock n w \<Longrightarrow>
    merge_at M S d ups' c' rb' av' deliv' lock' n (put M (merge_obj S d ups' c' rb' av' deliv' lock') w)"
  by (simp add: merge_at_def)

text \<open>The subscriber of an upstream that rests, before it asks for an event.\<close>

definition up_asking :: "addr \<Rightarrow> nat \<Rightarrow> upstream \<Rightarrow> nat \<Rightarrow> 'v val list \<Rightarrow> Status \<Rightarrow> ('v, 'u) world \<Rightarrow> bool" where
  "up_asking M r x k vs t w \<longleftrightarrow> code t \<noteq> OK \<and> heap w (up_addr x) = Some (merge_upstream k M None (Some (up_sid x)))
     \<and> refs w (up_addr x) = Suc (Suc r) \<and> wrapper_at (up_wrapper x) (up_addr x) w
     \<and> resumable (up_wrapper x) (up_sid x) (up_locs x) t vs w \<and> wf_world w \<and> up_owns x \<subseteq> old w \<and> up_sane x"

lemma quiet_event:
  assumes "exec (OnNext e s ev) w = ret (put M y (put u z w))" and "wf_world w" and "Cell M \<notin> U" "Cell u \<notin> U"
    and "M < next_addr w" "u < next_addr w"
  shows "quiet_next e s U ev w (put M y (put u z w))"
  using assms by (simp add: quiet_next_def)

lemma up_request_value:
  assumes x: "up_asking M r x k (v # vs) t w" and m: "merge_at M S d ups c rb av deliv lock n w" and rb: "deliv \<or> rb = 0"
    and own: "up_owns x \<inter> {Cell M, Sub S} = {}" and M: "M < next_addr w"
  shows "\<exists>w3. Subscription_Request exec (up_sid x) 1 w = ret w3 \<and> up_at M r x (k, Some (v # vs, t)) w3
    \<and> merge_at M S d ups c rb (Add av 1) deliv lock n w3 \<and> same_except (up_owns x \<union> {Cell M}) w w3"
proof -
  define u e s U where "u = up_addr x" and "e = up_wrapper x" and "s = up_sid x" and "U = up_locs x"
  note defs = u_def [symmetric] e_def [symmetric] s_def [symmetric] U_def [symmetric]
  have at: "heap w u = Some (merge_upstream k M None (Some s))" "refs w u = Suc (Suc r)" "wrapper_at e u w"
    and res: "resumable e s U t (v # vs) w" and t: "code t \<noteq> OK" and wf: "wf_world w" "U \<union> {Cell u, Cell e} \<subseteq> old w"
    and ne: "Cell u \<notin> U" "Cell e \<notin> U" "u \<noteq> e" "Cell M \<notin> U" "Sub S \<notin> U" "M \<noteq> u" "M \<noteq> e"
    using x own unfolding up_asking_def up_owns_def up_sane_def defs by auto
  obtain wm where wm: "same_except U w wm"
    and step: "\<And>w2. quiet_next e s U (ValueRepr v) wm w2 \<Longrightarrow>
      \<exists>w3. Subscription_Request exec s 1 w = ret w3 \<and> same_except U w2 w3 \<and> resumable e s U t vs w3"
    using resumable_ConsD [OF res wf(1)] wf(2) by auto
  have atm: "heap wm u = Some (merge_upstream k M None (Some s))" "refs wm u = Suc (Suc r)" "wrapper_at e u wm"
    and mm: "merge_at M S d ups c rb av deliv lock n wm"
    using at ne same_exceptD [OF wm] merge_at_same_except [OF m wm] wrapper_at_same_except [OF _ wm] by auto
  let ?w2 = "put M (merge_obj S d ups c rb (Add av 1) deliv lock)
      (put u (merge_upstream k M (Some (ValueRepr (Variant k v))) (Some s)) wm)"
  have "wf_world wm" using wf_world_same_except [OF wf(1) wm] wf(2) by simp
  moreover have "M < next_addr wm" "u < next_addr wm" using M wf(2) same_exceptD(5) [OF wm] by auto
  ultimately have "quiet_next e s U (ValueRepr v) wm ?w2"
    using up_event(1) [OF atm(1,3) mm rb, of s v] ne by (intro quiet_event)
  then obtain w3 where 3: "Subscription_Request exec s 1 w = ret w3" "same_except U ?w2 w3" "resumable e s U t vs w3"
    using step by blast
  have "heap w3 u = Some (merge_upstream k M (Some (ValueRepr (Variant k v))) (Some s))" "refs w3 u = Suc (Suc r)"
    "wrapper_at e u w3" "merge_at M S d ups c rb (Add av 1) deliv lock n w3"
    using atm mm ne same_exceptD [OF 3(2)] by (auto simp: wrapper_at_def merge_at_def)
  moreover have "same_except (U \<union> {Cell u, Cell e} \<union> {Cell M}) w w3"
  proof -
    have "same_except (U \<union> {Cell u, Cell e} \<union> {Cell M}) w wm" by (rule same_except_mono [OF wm]) auto
    then have "same_except (U \<union> {Cell u, Cell e} \<union> {Cell M}) w ?w2" by simp
    also have "same_except (U \<union> {Cell u, Cell e} \<union> {Cell M}) ?w2 w3" by (rule same_except_mono [OF 3(2)]) auto
    finally show ?thesis .
  qed
  ultimately show ?thesis using 3(1,3) t unfolding up_owns_def by (auto simp: defs)
qed

lemma up_request_end:
  assumes x: "up_asking M r x k [] t w" and m: "merge_at M S d ups c rb av deliv lock n w" and rb: "deliv \<or> rb = 0"
    and own: "up_owns x \<inter> {Cell M, Sub S} = {}" and M: "M < next_addr w"
  shows "\<exists>w3. Subscription_Request exec (up_sid x) 1 w = ret w3 \<and> up_at M r x (k, Some ([], t)) w3
    \<and> merge_at M S d ups c rb (Add av 1) deliv lock n w3 \<and> same_except (up_owns x \<union> {Cell M}) w w3"
proof -
  define u e s U where "u = up_addr x" and "e = up_wrapper x" and "s = up_sid x" and "U = up_locs x"
  note defs = u_def [symmetric] e_def [symmetric] s_def [symmetric] U_def [symmetric]
  have at: "heap w u = Some (merge_upstream k M None (Some s))" "refs w u = Suc (Suc r)" "wrapper_at e u w"
    and res: "resumable e s U t [] w" and t: "code t \<noteq> OK" and wf: "wf_world w" "U \<union> {Cell u, Cell e} \<subseteq> old w"
    and ne: "Cell u \<notin> U" "Cell e \<notin> U" "u \<noteq> e" "Cell M \<notin> U" "Sub S \<notin> U" "M \<noteq> u" "M \<noteq> e"
    using x own unfolding up_asking_def up_owns_def up_sane_def defs by auto
  obtain wm where wm: "same_except U w wm"
    and step: "\<And>w2. quiet_next e s U (StatusRepr t) wm w2 \<Longrightarrow>
      \<exists>w3. Subscription_Request exec s 1 w = exec (Destroy e) w3 \<and> same_except U w2 w3 \<and> (\<forall>l\<in>U. blank_at w3 l)"
    using resumable_NilD [OF res wf(1)] wf(2) by auto
  have atm: "heap wm u = Some (merge_upstream k M None (Some s))" "refs wm u = Suc (Suc r)" "wrapper_at e u wm"
    and mm: "merge_at M S d ups c rb av deliv lock n wm"
    using at ne same_exceptD [OF wm] merge_at_same_except [OF m wm] wrapper_at_same_except [OF _ wm] by auto
  let ?w2 = "put M (merge_obj S d ups c rb (Add av 1) deliv lock)
      (put u (merge_upstream k M (Some (StatusRepr t)) (Some s)) wm)"
  have "wf_world wm" using wf_world_same_except [OF wf(1) wm] wf(2) by simp
  moreover have "M < next_addr wm" "u < next_addr wm" using M wf(2) same_exceptD(5) [OF wm] by auto
  ultimately have "quiet_next e s U (StatusRepr t) wm ?w2"
    using up_event(2) [OF atm(1,3) mm rb t, of s] ne by (intro quiet_event)
  then obtain w3 where 3: "Subscription_Request exec s 1 w = exec (Destroy e) w3" "same_except U ?w2 w3"
    "\<forall>l\<in>U. blank_at w3 l"
    using step by blast
  have at3: "heap w3 u = Some (merge_upstream k M (Some (StatusRepr t)) (Some s))" "refs w3 u = Suc (Suc r)"
    "wrapper_at e u w3" "merge_at M S d ups c rb (Add av 1) deliv lock n w3"
    using atm mm ne same_exceptD [OF 3(2)] by (auto simp: wrapper_at_def merge_at_def)
  let ?w4 = "set_refs u (Suc r) (free e w3)"
  have "Subscription_Request exec s 1 w = ret ?w4"
    using 3(1) at3 by (simp add: wrapper_at_def exec_Destroy release_dec)
  moreover have "blank_at ?w4 l" if "l \<in> U" for l
    using blank_at_same_on [of w3 l U ?w4] 3(3) ne that by simp
  moreover have "blank_at ?w4 (Cell e)" using at3 ne by (simp add: wrapper_at_def)
  moreover have "heap ?w4 u = Some (merge_upstream k M (Some (StatusRepr t)) (Some s))" "refs ?w4 u = Suc r"
    "merge_at M S d ups c rb (Add av 1) deliv lock n ?w4"
    using at3 ne by (auto simp: merge_at_def)
  moreover have "same_except (U \<union> {Cell u, Cell e} \<union> {Cell M}) w ?w4"
  proof -
    have "same_except (U \<union> {Cell u, Cell e} \<union> {Cell M}) w wm" by (rule same_except_mono [OF wm]) auto
    then have "same_except (U \<union> {Cell u, Cell e} \<union> {Cell M}) w ?w2" by simp
    also have "same_except (U \<union> {Cell u, Cell e} \<union> {Cell M}) ?w2 w3" by (rule same_except_mono [OF 3(2)]) auto
    finally show ?thesis by simp
  qed
  ultimately show ?thesis using t unfolding up_owns_def by (auto simp: defs)
qed

lemma up_request:
  assumes "up_asking M r x k vs t w" and "merge_at M S d ups c rb av deliv lock n w" and "deliv \<or> rb = 0"
    and "up_owns x \<inter> {Cell M, Sub S} = {}" and "M < next_addr w"
  shows "\<exists>w3. Subscription_Request exec (up_sid x) 1 w = ret w3 \<and> up_at M r x (k, Some (vs, t)) w3
    \<and> merge_at M S d ups c rb (Add av 1) deliv lock n w3 \<and> same_except (up_owns x \<union> {Cell M}) w w3"
proof (cases vs)
  case Nil
  with assms show ?thesis using up_request_end by blast
next
  case (Cons v vs')
  with assms show ?thesis using up_request_value by blast
qed

end
