(* ===== verification/Merge_Loop.thy ===== *)
theory Merge_Loop
  imports Merge_Upstream
begin

text \<open>
  The delivery loop of \<open>MergeStream\<close>, for upstreams that rest between requests: it delivers their
  values round robin, and an error of one of them after cancelling the others. Its count of available
  elements is no more than positive here (see theory \<open>Findings\<close>), which is enough while every upstream
  that has not ended has an element.
\<close>

section \<open>All upstreams\<close>

definition ups_owns :: "upstream list \<Rightarrow> loc set" where
  "ups_owns xs = (\<Union>x\<in>set xs. up_owns x)"

definition ups_sane :: "upstream list \<Rightarrow> bool" where
  "ups_sane xs \<longleftrightarrow> (\<forall>x\<in>set xs. up_sane x)
     \<and> (\<forall>i<length xs. \<forall>j<length xs. i \<noteq> j \<longrightarrow> up_owns (xs ! i) \<inter> up_owns (xs ! j) = {})"

definition ups_at :: "addr \<Rightarrow> upstream list \<Rightarrow> (nat \<times> ('v val list \<times> Status) option) list \<Rightarrow> ('v, 'u) world \<Rightarrow> bool" where
  "ups_at M xs qs w \<longleftrightarrow> list_all2 (\<lambda>x q. up_at M 0 x q w) xs qs"

definition live_ups :: "upstream list \<Rightarrow> (nat \<times> 'a option) list \<Rightarrow> addr option list" where
  "live_ups xs qs = map2 (\<lambda>x q. map_option (\<lambda>_. up_addr x) (snd q)) xs qs"

lemma up_owns_subset: "x \<in> set xs \<Longrightarrow> up_owns x \<subseteq> ups_owns xs"
  by (auto simp: ups_owns_def)

lemma ups_at_length: "ups_at M xs qs w \<Longrightarrow> length qs = length xs"
  by (simp add: ups_at_def list_all2_lengthD)

lemma ups_at_nth: "ups_at M xs qs w \<Longrightarrow> c < length xs \<Longrightarrow> up_at M 0 (xs ! c) (qs ! c) w"
  by (simp add: ups_at_def list_all2_conv_all_nth)

lemma ups_at_same_on: "ups_at M xs qs w \<Longrightarrow> same_on (ups_owns xs) w w' \<Longrightarrow> ups_at M xs qs w'"
  unfolding ups_at_def by (erule list.rel_mono_strong) (meson same_on_subset up_at_same_on up_owns_subset)

text \<open>A change to the \<open>c\<close>-th upstream leaves the others alone.\<close>

lemma ups_at_update:
  assumes "ups_at M xs qs w" and "ups_sane xs" and c: "c < length xs" and "up_at M 0 (xs ! c) q w'"
    and same: "same_except (up_owns (xs ! c) \<union> R) w w'" and "R \<inter> ups_owns xs = {}"
  shows "ups_at M xs (qs[c := q]) w'"
  unfolding ups_at_def list_all2_conv_all_nth
proof (intro conjI allI impI)
  show "length xs = length (qs[c := q])" using ups_at_length [OF assms(1)] by simp
  fix i assume i: "i < length xs"
  show "up_at M 0 (xs ! i) (qs[c := q] ! i) w'"
  proof (cases "i = c")
    case True
    then show ?thesis using assms(4) c ups_at_length [OF assms(1)] by simp
  next
    case False
    then have "up_owns (xs ! c) \<inter> up_owns (xs ! i) = {}" using assms(2) c i by (simp add: ups_sane_def)
    moreover have "R \<inter> up_owns (xs ! i) = {}" using assms(6) up_owns_subset [OF nth_mem [OF i]] by auto
    ultimately have "same_on (up_owns (xs ! i)) w w'" by (intro same_except_same_on [OF same]) auto
    with up_at_same_on [OF ups_at_nth [OF assms(1) i]] False show ?thesis by simp
  qed
qed

lemma live_ups_length [simp]: "length qs = length xs \<Longrightarrow> length (live_ups xs qs) = length xs"
  by (simp add: live_ups_def)

lemma live_ups_nth:
  "length qs = length xs \<Longrightarrow> c < length xs \<Longrightarrow> live_ups xs qs ! c = map_option (\<lambda>_. up_addr (xs ! c)) (snd (qs ! c))"
  by (simp add: live_ups_def)

lemma live_ups_update:
  assumes "length qs = length xs" and "c < length xs"
  shows "live_ups xs (qs[c := (k, Some y)]) = (live_ups xs qs)[c := Some (up_addr (xs ! c))]"
    and "live_ups xs (qs[c := (k, None)]) = (live_ups xs qs)[c := None]"
  using assms by (auto intro!: nth_equalityI simp: live_ups_nth nth_list_update)

lemma live_ups_same:
  assumes "length qs = length xs" and "c < length xs" and "qs ! c = (k, Some y)"
  shows "live_ups xs (qs[c := (k, Some z)]) = live_ups xs qs"
  using assms list_update_id [of "live_ups xs qs" c] live_ups_nth [OF assms(1,2)] by (simp add: live_ups_update)

lemma live_ups_none: "length qs = length xs \<Longrightarrow> list_all (\<lambda>p. p = None) (live_ups xs qs) \<longleftrightarrow> alive qs = []"
  by (simp add: list_all_length live_ups_nth alive_Nil_iff all_set_conv_all_nth)

lemma Add_pos: "0 < balance b \<Longrightarrow> 0 < balance (Add b n)"
  using not_saturated_add [of "rb_balance b" n]
  by (auto simp: Add_def balance_def word_less_nat_alt unat_kMax)

section \<open>Consuming an event\<close>

text \<open>The frame conditions that the steps of the loop share.\<close>

definition merge_frame :: "addr \<Rightarrow> sid \<Rightarrow> upstream list \<Rightarrow> loc set \<Rightarrow> ('v, 'u) world \<Rightarrow> bool" where
  "merge_frame M S xs L w \<longleftrightarrow> wf_world w \<and> L \<union> {Cell M, Sub S} \<union> ups_owns xs \<subseteq> old w \<and> ups_sane xs
     \<and> L \<inter> ({Cell M, Sub S} \<union> ups_owns xs) = {} \<and> ups_owns xs \<inter> {Cell M, Sub S} = {}"

lemma merge_frame_same_except:
  "merge_frame M S xs L w \<Longrightarrow> same_except R w w' \<Longrightarrow> R \<subseteq> L \<union> {Cell M, Sub S} \<union> ups_owns xs \<Longrightarrow> merge_frame M S xs L w'"
  using wf_world_same_except [of w R w'] same_except_old [of R w w' "L \<union> {Cell M, Sub S} \<union> ups_owns xs"]
  unfolding merge_frame_def by (meson subset_trans)

text \<open>A value: it is taken out, the count goes down, and the upstream is asked for the next event.\<close>

lemma merge_consume_value:
  assumes fr: "merge_frame M S xs L w" and m: "merge_at M S d ups i rb av True lock n w"
    and us: "ups_at M xs qs w" and c: "c < length xs" "qs ! c = (k, Some (v # vs, t))" and av: "0 < balance av"
  shows "\<exists>w' av'. MergeUpstreamSubscriber_ConsumeNext exec (up_addr (xs ! c)) w = ret (ValueRepr (Variant k v), w')
    \<and> merge_at M S d ups i rb av' True lock n w' \<and> 0 < balance av' \<and> ups_at M xs (qs[c := (k, Some (vs, t))]) w'
    \<and> same_except (insert (Cell M) (ups_owns xs)) w w' \<and> heap w' (up_addr (xs ! c)) \<noteq> None"
proof -
  let ?x = "xs ! c" and ?u = "up_addr (xs ! c)"
  have x: "up_owns ?x \<subseteq> ups_owns xs" "up_sane ?x" using c(1) up_owns_subset fr by (auto simp: merge_frame_def ups_sane_def)
  have at: "code t \<noteq> OK" "heap w ?u = Some (merge_upstream k M (Some (ValueRepr (Variant k v))) (Some (up_sid ?x)))"
    "refs w ?u = Suc (Suc 0)" "wrapper_at (up_wrapper ?x) ?u w" "resumable (up_wrapper ?x) (up_sid ?x) (up_locs ?x) t vs w"
    using ups_at_nth [OF us c(1)] c(2) by simp_all
  have ne: "?u \<noteq> M" "?u \<noteq> up_wrapper ?x" "Cell ?u \<notin> up_locs ?x" "Cell M \<notin> up_locs ?x" "up_wrapper ?x \<noteq> M"
    "up_owns ?x \<inter> {Cell M, Sub S} = {}" "M < next_addr w" "?u < next_addr w" "up_owns ?x \<subseteq> old w"
    using x fr by (auto simp: merge_frame_def up_sane_def up_owns_def)
  define w1 where "w1 = put ?u (merge_upstream k M None (Some (up_sid ?x))) w"
  have m1: "merge_at M S d ups i rb av True lock n w1" using m ne by (simp add: merge_at_def w1_def)
  define w2 where "w2 = put M (merge_obj S d ups i rb (Add av (- 1)) True lock) w1"
  have m2: "merge_at M S d ups i rb (Add av (- 1)) True lock n w2" unfolding w2_def by (rule merge_at_put [OF m1])
  have "up_asking M 0 ?x k vs t w2"
    unfolding up_asking_def
  proof (intro conjI)
    show "resumable (up_wrapper ?x) (up_sid ?x) (up_locs ?x) t vs w2"
      by (rule resumable_stable [OF at(5)]) (use ne in \<open>simp add: w1_def w2_def\<close>)
  qed (use at ne x fr in \<open>simp_all add: w1_def w2_def wrapper_at_def merge_frame_def\<close>)
  from up_request [OF this m2 _ ne(6)] ne(7) obtain w3 where
    3: "Subscription_Request exec (up_sid ?x) 1 w2 = ret w3" "up_at M 0 ?x (k, Some (vs, t)) w3"
    "merge_at M S d ups i rb (Add (Add av (- 1)) 1) True lock n w3" "same_except (up_owns ?x \<union> {Cell M}) w2 w3"
    by (auto simp: w1_def w2_def)
  have "Cell ?u \<in> up_owns ?x" by (simp add: up_owns_def)
  then have "same_except (up_owns ?x \<union> {Cell M}) w w2" by (simp add: w1_def w2_def)
  with 3(4) have s3: "same_except (up_owns ?x \<union> {Cell M}) w w3" by (rule same_except_trans [rotated])
  have "heap w2 ?u = Some (merge_upstream k M None (Some (up_sid ?x)))" using ne by (simp add: w1_def w2_def)
  then have "MergeUpstreamSubscriber_ConsumeNext exec ?u w = ret (ValueRepr (Variant k v), w3)"
    using at(2) merge_state_changed(2) [OF m1] 3(1)
    by (simp add: MergeUpstreamSubscriber_ConsumeNext_def get_simps w1_def [symmetric] w2_def [symmetric])
  moreover have "ups_at M xs (qs[c := (k, Some (vs, t))]) w3"
    by (rule ups_at_update [OF us _ c(1) 3(2) s3]) (use fr in \<open>auto simp: merge_frame_def\<close>)
  moreover have "same_except (insert (Cell M) (ups_owns xs)) w w3" by (rule same_except_mono [OF s3]) (use x in auto)
  moreover have "heap w3 ?u \<noteq> None" using 3(2) by (cases vs) auto
  ultimately show ?thesis using 3(3) Add_pos [OF Add_pos [OF av]] by blast
qed

text \<open>An upstream that is gone: its subscriber is destroyed with the reference it holds to the stream.\<close>

lemma merge_drop:
  assumes fr: "merge_frame M S xs L w" and m: "merge_at M S d (live_ups xs qs) i rb av True lock (Suc (Suc n)) w"
    and len: "length qs = length xs" and c: "c < length xs" "snd (qs ! c) \<noteq> None"
    and at: "heap w (up_addr (xs ! c)) = Some (merge_upstream k M nx s)" "refs w (up_addr (xs ! c)) = Suc 0"
      "\<forall>l\<in>insert (Cell (up_wrapper (xs ! c))) (up_locs (xs ! c)). blank_at w l"
  shows "\<exists>w'. MergeStream_reset_upstream exec M c w = ret w'
    \<and> merge_at M S d (live_ups xs (qs[c := (k', None)])) i rb av True lock (Suc n) w' \<and> up_at M 0 (xs ! c) (k', None) w'
    \<and> same_except (up_owns (xs ! c) \<union> {Cell M}) w w'"
proof -
  let ?x = "xs ! c" and ?u = "up_addr (xs ! c)" and ?ups = "(live_ups xs qs)[c := None]"
  have "up_owns ?x \<subseteq> ups_owns xs" using c(1) up_owns_subset by auto
  then have ne: "?u \<noteq> M" "Cell M \<notin> up_owns ?x" using fr by (auto simp: merge_frame_def up_owns_def)
  define w' where "w' = set_refs M (Suc n) (free ?u (set_refs ?u 0 (put M (merge_obj S d ?ups i rb av True lock) w)))"
  have "live_ups xs qs ! c = Some ?u" using live_ups_nth [OF len c(1)] c(2) by auto
  then have "MergeStream_reset_upstream exec M c w = ret w'"
    using m ne at(1,2) by (simp add: merge_at_def MergeStream_reset_upstream_def get_simps release_last exec_Destroy
        MergeUpstreamSubscriber_destroy_def release_dec w'_def)
  moreover have "merge_at M S d (live_ups xs (qs[c := (k', None)])) i rb av True lock (Suc n) w'"
    using m ne by (simp add: merge_at_def w'_def live_ups_update(2) [OF len c(1)])
  moreover have "blank_at w' l" if "l \<in> up_owns ?x" for l
  proof (cases "l = Cell ?u")
    case True
    then show ?thesis using ne by (simp add: w'_def)
  next
    case False
    then have "blank_at w l" using at(3) that by (auto simp: up_owns_def)
    then show ?thesis using False that ne by (cases l) (auto simp: w'_def)
  qed
  then have "up_at M 0 ?x (k', None) w'" by simp
  moreover have "same_except (up_owns ?x \<union> {Cell M}) w w'" by (simp add: w'_def up_owns_def)
  ultimately show ?thesis by blast
qed

text \<open>The terminal event of an upstream: it is taken out.\<close>

lemma merge_consume_end:
  assumes fr: "merge_frame M S xs L w" and m: "merge_at M S d (live_ups xs qs) i rb av True lock (Suc (Suc n)) w"
    and us: "ups_at M xs qs w" and c: "c < length xs" "qs ! c = (k, Some ([], t))" and av: "0 < balance av"
  shows "\<exists>w1 w' av'. MergeUpstreamSubscriber_ConsumeNext exec (up_addr (xs ! c)) w = ret (StatusRepr t, w1)
    \<and> MergeStream_reset_upstream exec M c w1 = ret w'
    \<and> merge_at M S d (live_ups xs (qs[c := (k, None)])) i rb av' True lock (Suc n) w' \<and> 0 < balance av'
    \<and> ups_at M xs (qs[c := (k, None)]) w' \<and> same_except (insert (Cell M) (ups_owns xs)) w w'"
proof -
  let ?x = "xs ! c" and ?u = "up_addr (xs ! c)"
  have x: "up_owns ?x \<subseteq> ups_owns xs" "up_sane ?x" using c(1) up_owns_subset fr by (auto simp: merge_frame_def ups_sane_def)
  have at: "code t \<noteq> OK" "heap w ?u = Some (merge_upstream k M (Some (StatusRepr t)) (Some (up_sid ?x)))"
    "refs w ?u = Suc 0" "\<forall>l\<in>insert (Cell (up_wrapper ?x)) (up_locs ?x). blank_at w l"
    using ups_at_nth [OF us c(1)] c(2) by simp_all
  have ne: "?u \<noteq> M" "Cell M \<notin> up_owns ?x" "Cell ?u \<notin> insert (Cell (up_wrapper ?x)) (up_locs ?x)"
    using x fr by (auto simp: merge_frame_def up_owns_def up_sane_def)
  define w1 where "w1 = put ?u (merge_upstream k M None (Some (up_sid ?x))) w"
  have m1: "merge_at M S d (live_ups xs qs) i rb av True lock (Suc (Suc n)) w1" using m ne by (simp add: merge_at_def w1_def)
  define w2 where "w2 = put M (merge_obj S d (live_ups xs qs) i rb (Add av (- 1)) True lock) w1"
  have m2: "merge_at M S d (live_ups xs qs) i rb (Add av (- 1)) True lock (Suc (Suc n)) w2"
    unfolding w2_def by (rule merge_at_put [OF m1])
  have consume: "MergeUpstreamSubscriber_ConsumeNext exec ?u w = ret (StatusRepr t, w2)"
    using at(1,2) merge_state_changed(2) [OF m1]
    by (simp add: MergeUpstreamSubscriber_ConsumeNext_def get_simps w1_def [symmetric] w2_def [symmetric])
  have s2: "same_except (up_owns ?x \<union> {Cell M}) w w2" by (simp add: w1_def w2_def up_owns_def)
  have "same_on (insert (Cell (up_wrapper ?x)) (up_locs ?x)) w w2"
    using ne by (simp add: w1_def w2_def up_owns_def)
  then have blank: "\<forall>l\<in>insert (Cell (up_wrapper ?x)) (up_locs ?x). blank_at w2 l" using at(4) blank_at_same_on by blast
  have fr2: "merge_frame M S xs L w2" by (rule merge_frame_same_except [OF fr s2]) (use x in auto)
  have u2: "heap w2 ?u = Some (merge_upstream k M None (Some (up_sid ?x)))" "refs w2 ?u = Suc 0"
    using at ne by (simp_all add: w1_def w2_def)
  from merge_drop [OF fr2 m2 ups_at_length [OF us] c(1) _ u2 blank] c(2) obtain w' where
    1: "MergeStream_reset_upstream exec M c w2 = ret w'"
      "merge_at M S d (live_ups xs (qs[c := (k, None)])) i rb (Add av (- 1)) True lock (Suc n) w'"
      "up_at M 0 ?x (k, None) w'" "same_except (up_owns ?x \<union> {Cell M}) w2 w'" by fastforce
  have s: "same_except (up_owns ?x \<union> {Cell M}) w w'" by (rule same_except_trans [OF s2 1(4)])
  have "ups_at M xs (qs[c := (k, None)]) w'"
    by (rule ups_at_update [OF us _ c(1) 1(3) s]) (use fr in \<open>auto simp: merge_frame_def\<close>)
  moreover have "same_except (insert (Cell M) (ups_owns xs)) w w'" by (rule same_except_mono [OF s]) (use x in auto)
  ultimately show ?thesis using consume 1(1,2) Add_pos [OF av] by blast
qed

text \<open>An upstream that rests is cancelled.\<close>

lemma merge_cancel_one:
  assumes fr: "merge_frame M S xs L w" and m: "merge_at M S d (live_ups xs qs) i rb av True lock (Suc (Suc n)) w"
    and us: "ups_at M xs qs w" and c: "c < length xs" "qs ! c = (k, Some (v # vs, t))"
  shows "\<exists>w1 w'. MergeUpstreamSubscriber_Cancel exec (up_addr (xs ! c)) w = ret w1 \<and> MergeStream_reset_upstream exec M c w1 = ret w'
    \<and> merge_at M S d (live_ups xs (qs[c := (k, None)])) i rb av True lock (Suc n) w'
    \<and> ups_at M xs (qs[c := (k, None)]) w' \<and> same_except (insert (Cell M) (ups_owns xs)) w w'"
proof -
  let ?x = "xs ! c" and ?u = "up_addr (xs ! c)" and ?e = "up_wrapper (xs ! c)" and ?U = "up_locs (xs ! c)"
  have x: "up_owns ?x \<subseteq> ups_owns xs" "up_sane ?x" using c(1) up_owns_subset fr by (auto simp: merge_frame_def ups_sane_def)
  have at: "heap w ?u = Some (merge_upstream k M (Some (ValueRepr (Variant k v))) (Some (up_sid ?x)))"
    "refs w ?u = Suc (Suc 0)" "wrapper_at ?e ?u w" "resumable ?e (up_sid ?x) ?U t vs w"
    using ups_at_nth [OF us c(1)] c(2) by simp_all
  have ne: "?u \<noteq> M" "?e \<noteq> M" "?u \<noteq> ?e" "Cell ?u \<notin> ?U" "Cell ?e \<notin> ?U" "Cell M \<notin> ?U" "Sub S \<notin> ?U" "wf_world w" "?U \<subseteq> old w"
    using x fr by (auto simp: merge_frame_def up_sane_def up_owns_def)
  obtain w3 where 3: "impl w (up_sid ?x) \<noteq> None" "Subscription_Cancel exec (up_sid ?x) w = exec (Destroy ?e) w3"
    "same_except ?U w w3" "\<forall>l\<in>?U. blank_at w3 l"
    using resumable_cancels [OF at(4) ne(8,9)] by (auto simp: cancels_def)
  have at3: "heap w3 ?u = Some (merge_upstream k M (Some (ValueRepr (Variant k v))) (Some (up_sid ?x)))"
    "refs w3 ?u = Suc (Suc 0)" "wrapper_at ?e ?u w3"
    using at ne same_exceptD [OF 3(3)] by (simp_all add: wrapper_at_def)
  define w1 where "w1 = set_refs ?u (Suc 0) (free ?e w3)"
  have cancel: "MergeUpstreamSubscriber_Cancel exec ?u w = ret w1"
    using at(1) 3(2) at3 by (simp add: MergeUpstreamSubscriber_Cancel_def get_simps wrapper_at_def exec_Destroy release_dec w1_def)
  have "same_except (up_owns ?x \<union> {Cell M}) w w3" by (rule same_except_mono [OF 3(3)]) (auto simp: up_owns_def)
  then have s1: "same_except (up_owns ?x \<union> {Cell M}) w w1" by (simp add: w1_def up_owns_def)
  have m1: "merge_at M S d (live_ups xs qs) i rb av True lock (Suc (Suc n)) w1"
    using merge_at_same_except [OF m 3(3)] ne by (simp add: merge_at_def w1_def)
  have fr1: "merge_frame M S xs L w1" by (rule merge_frame_same_except [OF fr s1]) (use x in auto)
  have u1: "heap w1 ?u = Some (merge_upstream k M (Some (ValueRepr (Variant k v))) (Some (up_sid ?x)))" "refs w1 ?u = Suc 0"
    using at3 ne by (simp_all add: w1_def)
  have "same_on ?U w3 w1" using ne by (simp add: w1_def)
  then have "\<forall>l\<in>?U. blank_at w1 l" using 3(4) blank_at_same_on by blast
  moreover have "blank_at w1 (Cell ?e)" using at3 ne by (simp add: w1_def wrapper_at_def)
  ultimately have "\<forall>l\<in>insert (Cell ?e) ?U. blank_at w1 l" by blast
  from merge_drop [OF fr1 m1 ups_at_length [OF us] c(1) _ u1 this] c(2) obtain w' where
    4: "MergeStream_reset_upstream exec M c w1 = ret w'"
      "merge_at M S d (live_ups xs (qs[c := (k, None)])) i rb av True lock (Suc n) w'"
      "up_at M 0 ?x (k, None) w'" "same_except (up_owns ?x \<union> {Cell M}) w1 w'" by fastforce
  have s: "same_except (up_owns ?x \<union> {Cell M}) w w'" by (rule same_except_trans [OF s1 4(4)])
  have "ups_at M xs (qs[c := (k, None)]) w'"
    by (rule ups_at_update [OF us _ c(1) 4(3) s]) (use fr in \<open>auto simp: merge_frame_def\<close>)
  moreover have "same_except (insert (Cell M) (ups_owns xs)) w w'" by (rule same_except_mono [OF s]) (use x in auto)
  ultimately show ?thesis using cancel 4(1,2) by blast
qed

section \<open>The stream as its downstream sees it\<close>

text \<open>The terminal event is delivered without being taken off the balance (\<open>x = 1\<close>), a value after (\<open>x = 0\<close>).\<close>

definition merge_up ::
  "bool \<Rightarrow> addr \<Rightarrow> sid \<Rightarrow> addr \<Rightarrow> addr option list \<Rightarrow> nat \<Rightarrow> RequestBalance \<Rightarrow> addr option \<Rightarrow> nat \<Rightarrow> nat
    \<Rightarrow> ('v, 'u) world \<Rightarrow> bool" where
  "merge_up x M S d ups c av lock n k w \<longleftrightarrow> merge_at M S d ups c (if x then Suc k else k) av True lock n w"

interpretation merge: passive_stream S "{Cell M, Sub S}" "merge_up x M S d ups c av lock n" "pending_limit - 2"
  for M S x d ups c av lock n
proof (unfold_locales, goal_cases)
  case (1 k w w')
  then show ?case by (simp add: merge_up_def merge_at_def)
next
  case (2 k w)
  then show ?case by (simp add: merge_up_def merge_at_def)
next
  case (3 k w i)
  let ?k = "if x then Suc k else k" and ?k' = "if x then Suc (k + i) else k + i"
  let ?w' = "put M (merge_obj S d ups c ?k' av True lock) w"
  have at: "merge_at M S d ups c ?k av True lock n w" using 3(1) by (simp add: merge_up_def)
  have "Add (counter ?k) (of_nat i) = counter ?k'" using 3(3) counter_Add [of ?k i] by (auto split: if_splits)
  then have "Subscription_Request exec S (of_nat i) w = ret ?w'"
    using at by (simp add: merge_at_def Subscription_live exec_Request MergeStream_Request_def get_simps
        MergeStream_MaybeDeliver_def)
  moreover have "merge_up x M S d ups c av lock n (k + i) ?w'"
    using merge_at_put [OF at] by (simp add: merge_up_def)
  ultimately show ?case by auto
qed

section \<open>The delivery loop\<close>

definition merge_loop ::
  "addr \<Rightarrow> sid \<Rightarrow> addr \<Rightarrow> upstream list \<Rightarrow> (nat \<times> ('v val list \<times> Status) option) list \<Rightarrow> nat \<Rightarrow> nat \<Rightarrow> loc set
    \<Rightarrow> ('v, 'u) world \<Rightarrow> bool" where
  "merge_loop M S d xs qs c j L w \<longleftrightarrow> merge_frame M S xs L w \<and> ups_at M xs qs w \<and> c < length xs \<and>
     (\<exists>av. merge_at M S d (live_ups xs qs) c (Suc j) av True (Some M) (Suc (Suc (length (alive qs)))) w \<and> 0 < balance av)"

lemma merge_loop_length: "merge_loop M S d xs qs c j L w \<Longrightarrow> c < length qs \<and> length qs = length xs"
  by (auto simp: merge_loop_def ups_at_def list_all2_conv_all_nth)

lemma counter_pos: "Suc j < pending_limit \<Longrightarrow> 0 < balance (counter (Suc j))"
  using of_nat_neq_0_64 [of "Suc j"] by (simp add: counter_balance word_greater_zero_iff del: of_nat_Suc)

text \<open>One turn. The world \<open>w1\<close> has the next index.\<close>

lemma merge_turn:
  assumes "merge_loop M S d xs qs c j L w" and "Suc j < pending_limit"
  obtains w1 av where "merge_frame M S xs L w1" and "ups_at M xs qs w1" and "same_except {Cell M} w w1"
    and "merge_at M S d (live_ups xs qs) (Suc c mod length xs) (Suc j) av True (Some M) (Suc (Suc (length (alive qs)))) w1"
    and "0 < balance av" and "c < length xs" and "length qs = length xs"
    and "snd (qs ! c) = None \<Longrightarrow> exec (MergeDeliverLoop M) w = exec (MergeDeliverLoop M) w1"
    and "\<And>event w2. snd (qs ! c) \<noteq> None \<Longrightarrow> 
      MergeUpstreamSubscriber_ConsumeNext exec (up_addr (xs ! c)) w1 = ret (event, w2) \<Longrightarrow>
      exec (MergeDeliverLoop M) w =
        (if IsEnd event then MergeStream_end_of_upstream exec M c event w2
         else bnd (get_merge M w2) (\<lambda>m. bnd (Remove (ms_request_balance m) 1) (\<lambda>b.
           bnd (exec (OnNext (ms_subscriber m) (ms_sid m) event)
             (put M (MergeStream (m\<lparr>ms_request_balance := b\<rparr>)) w2)) (exec (MergeDeliverLoop M)))))"
proof -
  obtain av where m: "merge_at M S d (live_ups xs qs) c (Suc j) av True (Some M) (Suc (Suc (length (alive qs)))) w"
    and fr: "merge_frame M S xs L w" and us: "ups_at M xs qs w" and c: "c < length xs" and av: "0 < balance av"
    using assms(1) by (auto simp: merge_loop_def)
  have len: "length qs = length xs" by (rule ups_at_length [OF us])
  define w1 where "w1 = put M (merge_obj S d (live_ups xs qs) (Suc c mod length xs) (Suc j) av True (Some M)) w"
  have s1: "same_except {Cell M} w w1" by (simp add: w1_def)
  have fr1: "merge_frame M S xs L w1" by (rule merge_frame_same_except [OF fr s1]) simp
  have "same_on (ups_owns xs) w w1" by (rule same_except_same_on [OF s1]) (use fr in \<open>auto simp: merge_frame_def\<close>)
  then have us1: "ups_at M xs qs w1" by (rule ups_at_same_on [OF us])
  note loop = exec_internal(3) [of M w] MergeStream_deliver_loop_def get_simps counter_pos [OF assms(2)] av
    live_ups_nth [OF len c] live_ups_length [OF len] w1_def [symmetric] Let_def
  show thesis
  proof (rule that [OF fr1 us1 s1 _ av c len])
    show "merge_at M S d (live_ups xs qs) (Suc c mod length xs) (Suc j) av True (Some M) (Suc (Suc (length (alive qs)))) w1"
      unfolding w1_def by (rule merge_at_put [OF m])
    show "exec (MergeDeliverLoop M) w = exec (MergeDeliverLoop M) w1" if "snd (qs ! c) = None"
      using m that by (simp add: merge_at_def loop)
    show "exec (MergeDeliverLoop M) w =
        (if IsEnd event then MergeStream_end_of_upstream exec M c event w2
         else bnd (get_merge M w2) (\<lambda>m. bnd (Remove (ms_request_balance m) 1) (\<lambda>b.
           bnd (exec (OnNext (ms_subscriber m) (ms_sid m) event)
             (put M (MergeStream (m\<lparr>ms_request_balance := b\<rparr>)) w2)) (exec (MergeDeliverLoop M)))))"
      if live: "snd (qs ! c) \<noteq> None" and consume: "MergeUpstreamSubscriber_ConsumeNext exec (up_addr (xs ! c)) w1 = ret (event, w2)"
      for event w2
    proof -
      obtain k st where q: "qs ! c = (k, Some st)" using live by (cases "qs ! c") auto
      then obtain mu where "heap w1 (up_addr (xs ! c)) = Some (MergeUpstreamSubscriber mu)" "mu_next mu \<noteq> None"
        using ups_at_nth [OF us1 c] by (cases st; cases "fst st") auto
      with m q consume show ?thesis
        by (simp add: merge_at_def loop MergeUpstreamSubscriber_HasNext_def)
    qed
  qed
qed

lemma length_alive_update:
  assumes "c < length qs" and "qs ! c = (k, Some x)"
  shows "length (alive (qs[c := (k, Some y)])) = length (alive qs)"
    and "length (alive qs) = Suc (length (alive (qs[c := (k, None)])))"
proof -
  obtain rest where r: "turns c qs = (k, x) # rest" "turns (Suc c mod length qs) (qs[c := (k, Some y)]) = rest @ [(k, y)]"
    "turns (Suc c mod length qs) (qs[c := (k, None)]) = rest"
    by (rule turns_take [OF assms]) blast
  show "length (alive (qs[c := (k, Some y)])) = length (alive qs)"
    using r(1,2) length_turns [of c qs] length_turns [of "Suc c mod length qs" "qs[c := (k, Some y)]"] by simp
  show "length (alive qs) = Suc (length (alive (qs[c := (k, None)])))"
    using r(1,3) length_turns [of c qs] length_turns [of "Suc c mod length qs" "qs[c := (k, None)]"] by simp
qed

text \<open>A turn of an ended upstream, of one with a value, and of one that has come to its end.\<close>

lemma merge_skip_turn:
  assumes loop: "merge_loop M S d xs qs c j L w" and "Suc j < pending_limit" and "snd (qs ! c) = None"
  shows "\<exists>w'. exec (MergeDeliverLoop M) w = exec (MergeDeliverLoop M) w'
    \<and> merge_loop M S d xs qs (Suc c mod length xs) j L w' \<and> same_except {Cell M} w w'"
proof -
  obtain w1 av where "merge_frame M S xs L w1" "ups_at M xs qs w1" "same_except {Cell M} w w1"
    "merge_at M S d (live_ups xs qs) (Suc c mod length xs) (Suc j) av True (Some M) (Suc (Suc (length (alive qs)))) w1"
    "0 < balance av" "c < length xs" "exec (MergeDeliverLoop M) w = exec (MergeDeliverLoop M) w1"
    by (rule merge_turn [OF assms(1,2)]) (use assms(3) in blast)
  moreover from \<open>c < length xs\<close> have "Suc c mod length xs < length xs" by (intro mod_less_divisor) linarith
  ultimately show ?thesis unfolding merge_loop_def by blast
qed

lemma merge_value_turn:
  assumes loop: "merge_loop M S d xs qs c j L w" and q: "qs ! c = (k, Some (v # vs, t'))"
    and rd: "ready d S L K Q t (Variant k v # rest) j w" and K: "Suc K < pending_limit"
  shows "\<exists>j' w'. exec (MergeDeliverLoop M) w = exec (MergeDeliverLoop M) w'
    \<and> merge_loop M S d xs (qs[c := (k, Some (vs, t'))]) (Suc c mod length xs) j' L w' \<and> ready d S L K Q t rest j' w'
    \<and> same_except (L \<union> {Cell M, Sub S} \<union> ups_owns xs) w w'"
proof -
  let ?O = "{Cell M, Sub S}" and ?n = "Suc (Suc (length (alive qs)))" and ?c = "Suc c mod length xs"
  have j: "Suc j < pending_limit" using ready_less [OF rd] K by simp
  obtain w1 av where fr1: "merge_frame M S xs L w1" and us1: "ups_at M xs qs w1" and s1: "same_except {Cell M} w w1"
    and m1: "merge_at M S d (live_ups xs qs) ?c (Suc j) av True (Some M) ?n w1"
    and av: "0 < balance av" and c: "c < length xs" and len: "length qs = length xs"
    and turn: "\<And>event w2. snd (qs ! c) \<noteq> None \<Longrightarrow> 
      MergeUpstreamSubscriber_ConsumeNext exec (up_addr (xs ! c)) w1 = ret (event, w2) \<Longrightarrow>
      exec (MergeDeliverLoop M) w =
        (if IsEnd event then MergeStream_end_of_upstream exec M c event w2
         else bnd (get_merge M w2) (\<lambda>m. bnd (Remove (ms_request_balance m) 1) (\<lambda>b.
           bnd (exec (OnNext (ms_subscriber m) (ms_sid m) event)
             (put M (MergeStream (m\<lparr>ms_request_balance := b\<rparr>)) w2)) (exec (MergeDeliverLoop M)))))"
    by (rule merge_turn [OF loop j]) blast
  obtain w2 av' where 2: "MergeUpstreamSubscriber_ConsumeNext exec (up_addr (xs ! c)) w1 = ret (ValueRepr (Variant k v), w2)"
    "merge_at M S d (live_ups xs qs) ?c (Suc j) av' True (Some M) ?n w2" "0 < balance av'"
    "ups_at M xs (qs[c := (k, Some (vs, t'))]) w2" "same_except (insert (Cell M) (ups_owns xs)) w1 w2"
    using merge_consume_value [OF fr1 m1 us1 c q av] by blast
  define w3 where "w3 = put M (merge_obj S d (live_ups xs qs) ?c j av' True (Some M)) w2"
  have m3: "merge_at M S d (live_ups xs qs) ?c j av' True (Some M) ?n w3" unfolding w3_def by (rule merge_at_put [OF 2(2)])
  have s3: "same_except (insert (Cell M) (ups_owns xs)) w1 w3" using 2(5) by (simp add: w3_def)
  have fr3: "merge_frame M S xs L w3" by (rule merge_frame_same_except [OF fr1 s3]) auto
  have L1: "L \<inter> {Cell M} = {}" "insert (Cell M) (ups_owns xs) \<inter> L = {}" "L \<inter> ?O = {}" "(L \<union> ?O) \<inter> ups_owns xs = {}"
    using fr1 by (auto simp: merge_frame_def)
  have "same_on L w w1" by (rule same_except_same_on [OF s1]) (use L1(1) in blast)
  also have "same_on L w1 w3" by (rule same_except_same_on [OF s3 L1(2)])
  finally have "same_on L w w3" .
  moreover have "passive_stream S ?O (merge_up False M S d (live_ups xs qs) ?c av' (Some M) ?n) K"
    by (rule passive_stream_mono [OF merge.passive_stream_axioms]) (use K in simp)
  ultimately have del: "delivering S L ?O (merge_up False M S d (live_ups xs qs) ?c av' (Some M) ?n) K j w w3"
    using fr3 m3 L1 by (auto simp: delivering_def merge_frame_def merge_up_def)
  obtain w4 j' where 4: "exec (OnNext d S (ValueRepr (Variant k v))) w3 = ret w4" "same_except (L \<union> ?O) w3 w4"
    "merge_up False M S d (live_ups xs qs) ?c av' (Some M) ?n (Suc j') w4" "ready d S L K Q t rest j' w4"
    by (rule ready_ConsD [OF rd del])
  have "exec (MergeDeliverLoop M) w = exec (MergeDeliverLoop M) w4"
    using turn [OF _ 2(1)] q 2(2) counter_Remove [OF j] 4(1)
    by (simp add: merge_at_def get_simps w3_def)
  moreover have "merge_loop M S d xs (qs[c := (k, Some (vs, t'))]) ?c j' L w4"
    unfolding merge_loop_def
  proof (intro conjI exI)
    show "merge_frame M S xs L w4" by (rule merge_frame_same_except [OF fr3 4(2)]) auto
    have "ups_at M xs (qs[c := (k, Some (vs, t'))]) w3"
      by (rule ups_at_same_on [OF 2(4)]) (use fr1 in \<open>simp add: w3_def merge_frame_def\<close>)
    then show "ups_at M xs (qs[c := (k, Some (vs, t'))]) w4" by (rule ups_at_same_on [OF _ same_except_same_on [OF 4(2) L1(4)]])
    show "?c < length xs" using c by (intro mod_less_divisor) linarith
    have "c < length qs" using c len by simp
    with 4(3) show "merge_at M S d (live_ups xs (qs[c := (k, Some (vs, t'))])) ?c (Suc j') av' True (Some M)
        (Suc (Suc (length (alive (qs[c := (k, Some (vs, t'))]))))) w4"
      using length_alive_update(1) [OF _ q] live_ups_same [OF len c q] by (simp add: merge_up_def)
  qed (rule 2(3))
  moreover have "same_except (L \<union> ?O \<union> ups_owns xs) w w4"
  proof -
    have "same_except (L \<union> ?O \<union> ups_owns xs) w w1" by (rule same_except_mono [OF s1]) auto
    also have "same_except (L \<union> ?O \<union> ups_owns xs) w1 w3" by (rule same_except_mono [OF s3]) auto
    also have "same_except (L \<union> ?O \<union> ups_owns xs) w3 w4" by (rule same_except_mono [OF 4(2)]) auto
    finally show ?thesis .
  qed
  ultimately show ?thesis using 4(4) by blast
qed

definition merge_fin ::
  "addr \<Rightarrow> sid \<Rightarrow> addr \<Rightarrow> upstream list \<Rightarrow> loc set \<Rightarrow> (('v, 'u) world \<Rightarrow> bool) \<Rightarrow> ('v, 'u) world \<Rightarrow> bool" where
  "merge_fin M S d xs L Q w \<longleftrightarrow> closing d L Q w \<and> (\<forall>l\<in>ups_owns xs. blank_at w l)
     \<and> (\<exists>ups c rb av deliv. merge_at M S d ups c rb av deliv None (Suc 0) w \<and> list_all (\<lambda>p. p = None) ups)"

lemma ups_at_gone:
  assumes "ups_at M xs qs w" and "alive qs = []" and "l \<in> ups_owns xs"
  shows "blank_at w l"
proof -
  obtain i where i: "i < length xs" "l \<in> up_owns (xs ! i)" using assms(3) by (auto simp: ups_owns_def in_set_conv_nth)
  moreover have "snd (qs ! i) = None" using assms(2) i(1) ups_at_length [OF assms(1)] by (simp add: alive_Nil_iff)
  ultimately show ?thesis using ups_at_nth [OF assms(1) i(1)] by (cases "qs ! i") auto
qed

text \<open>An upstream comes to its end: the world \<open>w3\<close> no longer has it.\<close>

lemma merge_end_taken:
  assumes loop: "merge_loop M S d xs qs c j L w" and q: "qs ! c = (k, Some ([], t'))"
    and rd: "ready d S L K Q t vs j w" and K: "Suc K < pending_limit"
  obtains w2 w3 where "exec (MergeDeliverLoop M) w = MergeStream_end_of_upstream exec M c (StatusRepr t') w2"
    and "MergeStream_reset_upstream exec M c w2 = ret w3"
    and "merge_loop M S d xs (qs[c := (k, None)]) (Suc c mod length xs) j L w3" and "ready d S L K Q t vs j w3"
    and "same_except (L \<union> {Cell M, Sub S} \<union> ups_owns xs) w w3"
proof -
  let ?O = "{Cell M, Sub S}" and ?c = "Suc c mod length xs" and ?qs = "qs[c := (k, None)]"
  let ?n = "Suc (Suc (length (alive ?qs)))"
  have j: "Suc j < pending_limit" using ready_less [OF rd] K by simp
  obtain w1 av where fr1: "merge_frame M S xs L w1" and us1: "ups_at M xs qs w1" and s1: "same_except {Cell M} w w1"
    and m1: "merge_at M S d (live_ups xs qs) ?c (Suc j) av True (Some M) (Suc (Suc (length (alive qs)))) w1"
    and av: "0 < balance av" and c: "c < length xs" and len: "length qs = length xs"
    and turn: "\<And>event w2. snd (qs ! c) \<noteq> None \<Longrightarrow> 
      MergeUpstreamSubscriber_ConsumeNext exec (up_addr (xs ! c)) w1 = ret (event, w2) \<Longrightarrow>
      exec (MergeDeliverLoop M) w =
        (if IsEnd event then MergeStream_end_of_upstream exec M c event w2
         else bnd (get_merge M w2) (\<lambda>m. bnd (Remove (ms_request_balance m) 1) (\<lambda>b.
           bnd (exec (OnNext (ms_subscriber m) (ms_sid m) event)
             (put M (MergeStream (m\<lparr>ms_request_balance := b\<rparr>)) w2)) (exec (MergeDeliverLoop M)))))"
    by (rule merge_turn [OF loop j]) blast
  have "length (alive qs) = Suc (length (alive ?qs))" using length_alive_update(2) [OF _ q] c len by simp
  with m1 have m1': "merge_at M S d (live_ups xs qs) ?c (Suc j) av True (Some M) (Suc ?n) w1" by simp
  obtain w2 w3 av' where 3: "MergeUpstreamSubscriber_ConsumeNext exec (up_addr (xs ! c)) w1 = ret (StatusRepr t', w2)"
    "MergeStream_reset_upstream exec M c w2 = ret w3" "merge_at M S d (live_ups xs ?qs) ?c (Suc j) av' True (Some M) ?n w3"
    "0 < balance av'" "ups_at M xs ?qs w3" "same_except (insert (Cell M) (ups_owns xs)) w1 w3"
    using merge_consume_end [OF fr1 m1' us1 c q av] by blast
  have "code t' \<noteq> OK" using ups_at_nth [OF us1 c] q by simp
  then have end_turn: "exec (MergeDeliverLoop M) w = MergeStream_end_of_upstream exec M c (StatusRepr t') w2"
    using turn [OF _ 3(1)] q by simp
  have fr3: "merge_frame M S xs L w3" by (rule merge_frame_same_except [OF fr1 3(6)]) auto
  have L1: "L \<inter> {Cell M} = {}" "insert (Cell M) (ups_owns xs) \<inter> L = {}" using fr1 by (auto simp: merge_frame_def)
  have "same_on L w w1" by (rule same_except_same_on [OF s1]) (use L1(1) in blast)
  also have "same_on L w1 w3" by (rule same_except_same_on [OF 3(6) L1(2)])
  finally have "ready d S L K Q t vs j w3" by (rule ready_stable [OF rd])
  moreover have "same_except (L \<union> ?O \<union> ups_owns xs) w w3"
  proof -
    have "same_except (L \<union> ?O \<union> ups_owns xs) w w1" by (rule same_except_mono [OF s1]) auto
    also have "same_except (L \<union> ?O \<union> ups_owns xs) w1 w3" by (rule same_except_mono [OF 3(6)]) auto
    finally show ?thesis .
  qed
  moreover have "?c < length xs" using c by (intro mod_less_divisor) linarith
  then have "merge_loop M S d xs ?qs ?c j L w3" using fr3 3(3-5) by (auto simp: merge_loop_def)
  ultimately show thesis using end_turn 3(2) by (intro that)
qed

lemma none_left: "length qs = length xs \<Longrightarrow> list_all (\<lambda>p. p = None) (live_ups xs qs) \<longleftrightarrow> alive qs = []"
  by (rule live_ups_none)

text \<open>It was not the last one, and not an error: the loop goes on.\<close>

lemma merge_end_turn:
  assumes "merge_loop M S d xs qs c j L w" and "qs ! c = (k, Some ([], t'))"
    and "ready d S L K Q t vs j w" and "Suc K < pending_limit"
    and t': "\<not> IsError_status t'" and more: "alive (qs[c := (k, None)]) \<noteq> []"
  shows "\<exists>w'. exec (MergeDeliverLoop M) w = exec (MergeDeliverLoop M) w'
    \<and> merge_loop M S d xs (qs[c := (k, None)]) (Suc c mod length xs) j L w' \<and> ready d S L K Q t vs j w'
    \<and> same_except (L \<union> {Cell M, Sub S} \<union> ups_owns xs) w w'"
proof -
  obtain w2 w3 where 3: "exec (MergeDeliverLoop M) w = MergeStream_end_of_upstream exec M c (StatusRepr t') w2"
    "MergeStream_reset_upstream exec M c w2 = ret w3" "merge_loop M S d xs (qs[c := (k, None)]) (Suc c mod length xs) j L w3"
    "ready d S L K Q t vs j w3" "same_except (L \<union> {Cell M, Sub S} \<union> ups_owns xs) w w3"
    by (rule merge_end_taken [OF assms(1-4)])
  have len: "length (qs[c := (k, None)]) = length xs" using merge_loop_length [OF 3(3)] by blast
  have "exec (MergeDeliverLoop M) w = exec (MergeDeliverLoop M) w3"
    using 3(1-3) t' more none_left [OF len]
    by (auto simp: MergeStream_end_of_upstream_def merge_loop_def merge_at_def get_simps IsError_status_def IsDone_status_def)
  with 3(3-5) show ?thesis by blast
qed

text \<open>The subscriber gets the terminal event.\<close>

lemma merge_last_event:
  assumes loop: "merge_loop M S d xs qs c j L w" and rd: "ready d S L K Q t [] j w" and K: "Suc K < pending_limit"
  obtains w' j' av where "exec (OnNext d S (StatusRepr t)) w = ret w'" and "closing d L Q w'" and "merge_frame M S xs L w'"
    and "ups_at M xs qs w'" and "same_except (L \<union> {Cell M, Sub S}) w w'"
    and "merge_at M S d (live_ups xs qs) c (Suc j') av True (Some M) (Suc (Suc (length (alive qs)))) w'"
proof -
  let ?O = "{Cell M, Sub S}" and ?n = "Suc (Suc (length (alive qs)))"
  obtain av where m: "merge_at M S d (live_ups xs qs) c (Suc j) av True (Some M) ?n w"
    and fr: "merge_frame M S xs L w" and us: "ups_at M xs qs w" using loop by (auto simp: merge_loop_def)
  have dis: "L \<inter> ?O = {}" "(L \<union> ?O) \<inter> ups_owns xs = {}" using fr by (auto simp: merge_frame_def)
  have "passive_stream S ?O (merge_up True M S d (live_ups xs qs) c av (Some M) ?n) K"
    by (rule passive_stream_mono [OF merge.passive_stream_axioms]) (use K in simp)
  then have "delivering S L ?O (merge_up True M S d (live_ups xs qs) c av (Some M) ?n) K j w w"
    using fr m dis by (auto simp: delivering_def merge_frame_def merge_up_def)
  then obtain w' j' where 1: "exec (OnNext d S (StatusRepr t)) w = ret w'" "same_except (L \<union> ?O) w w'"
    "merge_up True M S d (live_ups xs qs) c av (Some M) ?n j' w'" "closing d L Q w'"
    by (rule ready_NilD [OF rd])
  show thesis
  proof (rule that [OF 1(1,4) _ _ 1(2)])
    show "merge_frame M S xs L w'" by (rule merge_frame_same_except [OF fr 1(2)]) auto
    show "ups_at M xs qs w'" by (rule ups_at_same_on [OF us same_except_same_on [OF 1(2) dis(2)]])
    show "merge_at M S d (live_ups xs qs) c (Suc j') av True (Some M) ?n w'" using 1(3) by (simp add: merge_up_def)
  qed
qed

text \<open>With no upstream left the stream drops its lock on itself.\<close>

lemma merge_unlock:
  assumes m: "merge_at M S d (live_ups xs qs) c rb av True (Some M) (Suc (Suc 0)) w" and us: "ups_at M xs qs w"
    and none: "alive qs = []" and cl: "closing d L Q w" and fr: "merge_frame M S xs L w"
  shows "\<exists>w'. MergeStream_reset_self_lock exec M w = ret w' \<and> merge_fin M S d xs L Q w' \<and> same_except {Cell M} w w'"
proof -
  define w' where "w' = set_refs M (Suc 0) (put M (merge_obj S d (live_ups xs qs) c rb av True None) w)"
  have "MergeStream_reset_self_lock exec M w = ret w'"
    using m by (simp add: merge_at_def get_simps MergeStream_reset_self_lock_def release_dec w'_def)
  moreover have "merge_fin M S d xs L Q w'"
    unfolding merge_fin_def
  proof (intro conjI exI ballI)
    show "closing d L Q w'" by (rule closing_stable [OF cl]) (use fr in \<open>simp add: w'_def merge_frame_def\<close>)
    have "ups_at M xs qs w'" by (rule ups_at_same_on [OF us]) (use fr in \<open>simp add: w'_def merge_frame_def\<close>)
    then show "blank_at w' l" if "l \<in> ups_owns xs" for l using ups_at_gone [OF _ none that] by blast
    show "merge_at M S d (live_ups xs qs) c rb av True None (Suc 0) w'" using m by (simp add: merge_at_def w'_def)
    show "list_all (\<lambda>p. p = None) (live_ups xs qs)" using none none_left [OF ups_at_length [OF us]] by simp
  qed
  moreover have "same_except {Cell M} w w'" by (simp add: w'_def)
  ultimately show ?thesis by blast
qed

text \<open>The last upstream ends.\<close>

lemma merge_last_turn:
  assumes "merge_loop M S d xs qs c j L w" and "qs ! c = (k, Some ([], t'))"
    and "ready d S L K Q Done [] j w" and K: "Suc K < pending_limit"
    and t': "\<not> IsError_status t'" and none: "alive (qs[c := (k, None)]) = []"
  shows "\<exists>w'. exec (MergeDeliverLoop M) w = ret w' \<and> merge_fin M S d xs L Q w'
    \<and> same_except (L \<union> {Cell M, Sub S} \<union> ups_owns xs) w w'"
proof -
  let ?qs = "qs[c := (k, None)]" and ?R = "L \<union> {Cell M, Sub S} \<union> ups_owns xs"
  obtain w2 w3 where 3: "exec (MergeDeliverLoop M) w = MergeStream_end_of_upstream exec M c (StatusRepr t') w2"
    "MergeStream_reset_upstream exec M c w2 = ret w3" "merge_loop M S d xs ?qs (Suc c mod length xs) j L w3"
    "ready d S L K Q Done [] j w3" "same_except ?R w w3"
    by (rule merge_end_taken [OF assms(1-4)])
  obtain w4 j' av where 4: "exec (OnNext d S (StatusRepr Done)) w3 = ret w4" "closing d L Q w4" "merge_frame M S xs L w4"
    "ups_at M xs ?qs w4" "same_except (L \<union> {Cell M, Sub S}) w3 w4"
    "merge_at M S d (live_ups xs ?qs) (Suc c mod length xs) (Suc j') av True (Some M) (Suc (Suc (length (alive ?qs)))) w4"
    by (rule merge_last_event [OF 3(3,4) K])
  from 4(6) have m4: "merge_at M S d (live_ups xs ?qs) (Suc c mod length xs) (Suc j') av True (Some M) (Suc (Suc 0)) w4"
    by (simp add: none)
  obtain w5 where 5: "MergeStream_reset_self_lock exec M w4 = ret w5" "merge_fin M S d xs L Q w5" "same_except {Cell M} w4 w5"
    using merge_unlock [OF m4 4(4) none 4(2,3)] by blast
  have len: "length ?qs = length xs" using merge_loop_length [OF 3(3)] by blast
  have "exec (MergeDeliverLoop M) w = ret w5"
    using 3(1-3) t' none none_left [OF len] 4(1) 5(1)
    by (auto simp: MergeStream_end_of_upstream_def merge_loop_def merge_at_def get_simps IsError_status_def IsDone_status_def)
  moreover have "same_except ?R w w5"
    by (rule same_except_trans [OF 3(5) same_except_trans [OF same_except_mono [OF 4(5)] same_except_mono [OF 5(3)]]]) auto
  ultimately show ?thesis using 5(2) by blast
qed

text \<open>An upstream fails: every other one that is left has a value at hand, and is cancelled.\<close>

lemma alive_values:
  "i < length qs \<Longrightarrow> \<forall>q\<in>set (alive qs). fst (snd q) \<noteq> [] \<Longrightarrow> snd (qs ! i) = None \<or> (\<exists>k v vs t. qs ! i = (k, Some (v # vs, t)))"
proof (induction qs arbitrary: i)
  case (Cons q qs)
  obtain k x where q: "q = (k, x)" by (cases q)
  show ?case
  proof (cases i)
    case 0
    then show ?thesis using Cons.prems(2) by (cases x; cases "fst (the x)") (auto simp: q)
  next
    case (Suc i')
    then show ?thesis using Cons by (auto simp: q split: option.splits)
  qed
qed simp

lemma set_alive_update: "set (alive (qs[i := (k, None)])) \<subseteq> set (alive qs)"
proof (induction qs arbitrary: i)
  case (Cons q qs)
  show ?case
  proof (cases i)
    case 0
    then show ?thesis by (auto split: option.splits)
  next
    case (Suc i')
    then show ?thesis using Cons.IH [of i'] by (auto split: option.splits)
  qed
qed simp

lemma merge_cancel_all:
  assumes "\<forall>i\<in>set is. i < length xs" and "merge_frame M S xs L w" and "ups_at M xs qs w"
    and "merge_at M S d (live_ups xs qs) c rb av True lock (Suc (Suc (length (alive qs)))) w"
    and "\<forall>q\<in>set (alive qs). fst (snd q) \<noteq> []"
  shows "\<exists>w' qs'. MergeStream_cancel_upstreams exec M is w = ret w' \<and> ups_at M xs qs' w'
    \<and> merge_at M S d (live_ups xs qs') c rb av True lock (Suc (Suc (length (alive qs')))) w'
    \<and> (\<forall>i<length xs. i \<in> set is \<or> snd (qs ! i) = None \<longrightarrow> snd (qs' ! i) = None)
    \<and> same_except (insert (Cell M) (ups_owns xs)) w w'"
  using assms
proof (induction "is" arbitrary: qs w)
  case Nil
  then show ?case by (intro exI [of _ w] exI [of _ qs]) simp
next
  case (Cons i "is")
  have i: "i < length xs" "length qs = length xs" "i < length qs" using Cons.prems(1) ups_at_length [OF Cons.prems(3)] by simp_all
  from alive_values [OF i(3) Cons.prems(5)] show ?case
  proof (elim disjE exE)
    assume none: "snd (qs ! i) = None"
    have "MergeStream_cancel_upstreams exec M (i # is) w = MergeStream_cancel_upstreams exec M is w"
      using Cons.prems(4) none live_ups_nth [OF i(2,1)] by (simp add: merge_at_def get_simps)
    moreover have "\<forall>i\<in>set is. i < length xs" using Cons.prems(1) by simp
    from Cons.IH [OF this Cons.prems(2-5)] none i(1) show ?thesis unfolding calculation list.set insert_iff by metis
  next
    fix k v vs t assume q: "qs ! i = (k, Some (v # vs, t))"
    let ?qs = "qs[i := (k, None)]"
    have n: "length (alive qs) = Suc (length (alive ?qs))" by (rule length_alive_update(2) [OF i(3) q])
    have m: "merge_at M S d (live_ups xs qs) c rb av True lock (Suc (Suc (Suc (length (alive ?qs))))) w"
      using Cons.prems(4) by (simp add: n)
    obtain w1 w2 where 1: "MergeUpstreamSubscriber_Cancel exec (up_addr (xs ! i)) w = ret w1"
      "MergeStream_reset_upstream exec M i w1 = ret w2"
      "merge_at M S d (live_ups xs ?qs) c rb av True lock (Suc (Suc (length (alive ?qs)))) w2"
      "ups_at M xs ?qs w2" "same_except (insert (Cell M) (ups_owns xs)) w w2"
      using merge_cancel_one [OF Cons.prems(2) m Cons.prems(3) i(1) q] by blast
    have fr: "merge_frame M S xs L w2" by (rule merge_frame_same_except [OF Cons.prems(2) 1(5)]) auto
    have vals: "\<forall>q\<in>set (alive ?qs). fst (snd q) \<noteq> []" using Cons.prems(5) set_alive_update [of qs i k] by (meson subsetD)
    have idx: "\<forall>i\<in>set is. i < length xs" using Cons.prems(1) by simp
    from Cons.IH [OF idx fr 1(4,3) vals] obtain w' qs' where
      2: "MergeStream_cancel_upstreams exec M is w2 = ret w'" "ups_at M xs qs' w'"
        "merge_at M S d (live_ups xs qs') c rb av True lock (Suc (Suc (length (alive qs')))) w'"
        "\<forall>j<length xs. j \<in> set is \<or> snd (?qs ! j) = None \<longrightarrow> snd (qs' ! j) = None"
        "same_except (insert (Cell M) (ups_owns xs)) w2 w'" by (elim exE conjE) (rule that)
    have "MergeStream_cancel_upstreams exec M (i # is) w = ret w'"
      using Cons.prems(4) q live_ups_nth [OF i(2,1)] 1(1,2) 2(1) by (simp add: merge_at_def get_simps)
    moreover have "\<forall>j<length xs. j \<in> set (i # is) \<or> snd (qs ! j) = None \<longrightarrow> snd (qs' ! j) = None"
      using 2(4) i by (auto simp: nth_list_update)
    ultimately show ?thesis using 2(2,3) same_except_trans [OF 1(5) 2(5)] by blast
  qed
qed

lemma merge_error_turn:
  assumes "merge_loop M S d xs qs c j L w" and "qs ! c = (k, Some ([], t))"
    and "ready d S L K Q t [] j w" and K: "Suc K < pending_limit"
    and t: "IsError_status t" and vals: "\<forall>q\<in>set (alive (qs[c := (k, None)])). fst (snd q) \<noteq> []"
  shows "\<exists>w'. exec (MergeDeliverLoop M) w = ret w' \<and> merge_fin M S d xs L Q w'
    \<and> same_except (L \<union> {Cell M, Sub S} \<union> ups_owns xs) w w'"
proof -
  let ?qs = "qs[c := (k, None)]" and ?R = "L \<union> {Cell M, Sub S} \<union> ups_owns xs"
  obtain w2 w3 where 3: "exec (MergeDeliverLoop M) w = MergeStream_end_of_upstream exec M c (StatusRepr t) w2"
    "MergeStream_reset_upstream exec M c w2 = ret w3" "merge_loop M S d xs ?qs (Suc c mod length xs) j L w3"
    "ready d S L K Q t [] j w3" "same_except ?R w w3"
    by (rule merge_end_taken [OF assms(1-4)])
  obtain w4 j' av where 4: "exec (OnNext d S (StatusRepr t)) w3 = ret w4" "closing d L Q w4" "merge_frame M S xs L w4"
    "ups_at M xs ?qs w4" "same_except (L \<union> {Cell M, Sub S}) w3 w4"
    "merge_at M S d (live_ups xs ?qs) (Suc c mod length xs) (Suc j') av True (Some M) (Suc (Suc (length (alive ?qs)))) w4"
    by (rule merge_last_event [OF 3(3,4) K])
  obtain w5 qs' where 5: "MergeStream_cancel_upstreams exec M [0..<length xs] w4 = ret w5" "ups_at M xs qs' w5"
    "merge_at M S d (live_ups xs qs') (Suc c mod length xs) (Suc j') av True (Some M) (Suc (Suc (length (alive qs')))) w5"
    "\<forall>i<length xs. snd (qs' ! i) = None" "same_except (insert (Cell M) (ups_owns xs)) w4 w5"
    using merge_cancel_all [OF _ 4(3,4,6) vals, of "[0..<length xs]"] by auto
  have none: "alive qs' = []"
    unfolding alive_Nil_iff all_set_conv_all_nth using 5(4) ups_at_length [OF 5(2)] by simp
  from 5(3) have m5: "merge_at M S d (live_ups xs qs') (Suc c mod length xs) (Suc j') av True (Some M) (Suc (Suc 0)) w5"
    by (simp add: none)
  have dis: "insert (Cell M) (ups_owns xs) \<inter> L = {}" using 4(3) by (auto simp: merge_frame_def)
  have cl: "closing d L Q w5" by (rule closing_stable [OF 4(2) same_except_same_on [OF 5(5) dis]])
  have fr: "merge_frame M S xs L w5" by (rule merge_frame_same_except [OF 4(3) 5(5)]) auto
  obtain w6 where 6: "MergeStream_reset_self_lock exec M w5 = ret w6" "merge_fin M S d xs L Q w6" "same_except {Cell M} w5 w6"
    using merge_unlock [OF m5 5(2) none cl fr] by blast
  have len: "length ?qs = length xs" using merge_loop_length [OF 3(3)] by blast
  have cancel: "MergeStream_Cancel exec M w4 = ret w6"
    using 4(6) 5(1) 6(1) len by (simp add: MergeStream_Cancel_def merge_at_def get_simps)
  have "exec (MergeDeliverLoop M) w = ret w6"
    using 3(1-3) t 4(1) cancel
    by (auto simp: MergeStream_end_of_upstream_def merge_loop_def merge_at_def get_simps IsError_status_def IsDone_status_def)
  moreover have "same_except ?R w w6"
    by (rule same_except_trans [OF 3(5) same_except_trans [OF same_except_mono [OF 4(5)]
          same_except_trans [OF same_except_mono [OF 5(5)] same_except_mono [OF 6(3)]]]]) auto
  ultimately show ?thesis using 6(2) by blast
qed

text \<open>All turns: first the ended upstreams are passed over, then the next one has its turn.\<close>

lemma merge_skips:
  assumes "merge_loop M S d xs qs c j L w" and "Suc j < pending_limit" and "turns c qs \<noteq> []"
  shows "\<exists>c' w'. exec (MergeDeliverLoop M) w = exec (MergeDeliverLoop M) w' \<and> merge_loop M S d xs qs c' j L w'
    \<and> same_except {Cell M} w w' \<and> turns c' qs = turns c qs \<and> snd (qs ! c') \<noteq> None"
  using assms
proof (induction "skips c qs" arbitrary: c w rule: less_induct)
  case less
  show ?case
  proof (cases "snd (qs ! c) = None")
    case True
    obtain w1 where 1: "exec (MergeDeliverLoop M) w = exec (MergeDeliverLoop M) w1"
      "merge_loop M S d xs qs (Suc c mod length xs) j L w1" "same_except {Cell M} w w1"
      using merge_skip_turn [OF less.prems(1,2) True] by blast
    have c: "c < length qs" "length qs = length xs"
      using merge_loop_length [OF less.prems(1)] by simp_all
    have skip: "turns (Suc c mod length xs) qs = turns c qs" using turns_skip [OF c(1) True] c(2) by simp
    have "skips (Suc c mod length xs) qs < skips c qs" using skips_less [OF c(1) True less.prems(3)] c(2) by simp
    from less.hyps [OF this 1(2) less.prems(2)] skip less.prems(3) obtain c' w' where
      "exec (MergeDeliverLoop M) w1 = exec (MergeDeliverLoop M) w'" "merge_loop M S d xs qs c' j L w'"
      "same_except {Cell M} w1 w'" "turns c' qs = turns c qs" "snd (qs ! c') \<noteq> None"
      by auto
    with 1 same_except_trans show ?thesis by metis
  next
    case False
    with less.prems(1) show ?thesis using same_except_refl by blast
  qed
qed

lemma merge_next:
  assumes loop: "merge_loop M S d xs qs c j L w" and j: "Suc j < pending_limit" and T: "turns c qs = (k, x) # T"
    and rd: "ready d S L K Q t vs j w"
  obtains c' w' where "exec (MergeDeliverLoop M) w = exec (MergeDeliverLoop M) w'" and "merge_loop M S d xs qs c' j L w'"
    and "same_except (L \<union> {Cell M, Sub S} \<union> ups_owns xs) w w'" and "ready d S L K Q t vs j w'"
    and "qs ! c' = (k, Some x)" and "\<And>y. turns (Suc c' mod length xs) (qs[c' := (k, Some y)]) = T @ [(k, y)]"
    and "turns (Suc c' mod length xs) (qs[c' := (k, None)]) = T"
proof -
  obtain c' w' where 1: "exec (MergeDeliverLoop M) w = exec (MergeDeliverLoop M) w'" "merge_loop M S d xs qs c' j L w'"
    "same_except {Cell M} w w'" "turns c' qs = (k, x) # T" "snd (qs ! c') \<noteq> None"
    using merge_skips [OF loop j] T by auto
  have c': "c' < length qs" "length qs = length xs" using merge_loop_length [OF 1(2)] by simp_all
  obtain k' x' where q: "qs ! c' = (k', Some x')" using 1(5) by (cases "qs ! c'") auto
  obtain rest where rest: "turns c' qs = (k', x') # rest"
    "\<And>y. turns (Suc c' mod length qs) (qs[c' := (k', Some y)]) = rest @ [(k', y)]"
    "turns (Suc c' mod length qs) (qs[c' := (k', None)]) = rest"
    by (rule turns_take [OF c'(1) q]) blast
  have "same_on L w w'" by (rule same_except_same_on [OF 1(3)]) (use loop in \<open>auto simp: merge_loop_def merge_frame_def\<close>)
  then have "ready d S L K Q t vs j w'" by (rule ready_stable [OF rd])
  moreover have "same_except (L \<union> {Cell M, Sub S} \<union> ups_owns xs) w w'" by (rule same_except_mono [OF 1(3)]) auto
  ultimately show thesis using that [OF 1(1,2)] q rest 1(4) c'(2) by simp
qed

lemma merge_runs:
  assumes "merge_loop M S d xs qs c j L w" and "merged (turns c qs) = Some (us, t)" and "ready d S L K Q t us j w"
    and K: "Suc K < pending_limit" and "turns c qs \<noteq> []"
  shows "\<exists>w'. exec (MergeDeliverLoop M) w = ret w' \<and> merge_fin M S d xs L Q w'
    \<and> same_except (L \<union> {Cell M, Sub S} \<union> ups_owns xs) w w'"
  using assms(1,2,3,5)
proof (induction "turns c qs" arbitrary: c qs us j w rule: merged.induct)
  case 1
  then show ?case by simp
next
  case (2 k t' T)
  have T: "turns c qs = (k, [], t') # T" using 2(2) by simp
  have j: "Suc j < pending_limit" using ready_less [OF 2(5)] K by simp
  obtain c' w1 where 1: "exec (MergeDeliverLoop M) w = exec (MergeDeliverLoop M) w1" "merge_loop M S d xs qs c' j L w1"
    "same_except (L \<union> {Cell M, Sub S} \<union> ups_owns xs) w w1" "ready d S L K Q t us j w1"
    "qs ! c' = (k, Some ([], t'))" "turns (Suc c' mod length xs) (qs[c' := (k, None)]) = T"
    by (rule merge_next [OF 2(3) j T 2(5)]) blast
  have alive: "set (alive (qs[c' := (k, None)])) = set T" using 1(6) set_turns by metis
  show ?case
  proof (cases "IsError_status t'")
    case True
    then have e: "us = []" "t = t'" "\<forall>q\<in>set T. fst (snd q) \<noteq> []" using 2(4) by (auto simp: T split: if_splits)
    have "ready d S L K Q t' [] j w1" using 1(4) e by simp
    from merge_error_turn [OF 1(2,5) this K True] e(3) alive 1(1,3) same_except_trans show ?thesis by metis
  next
    case no: False
    then have us: "merged T = Some (us, t)" using 2(4) by (simp add: T)
    show ?thesis
    proof (cases "T = []")
      case True
      then have "alive (qs[c' := (k, None)]) = []" "us = []" "t = Done" using alive us by simp_all
      with merge_last_turn [OF 1(2,5) _ K no] 1(1,3,4) same_except_trans show ?thesis by metis
    next
      case False
      then have "alive (qs[c' := (k, None)]) \<noteq> []" using alive by auto
      from merge_end_turn [OF 1(2,5,4) K no this] obtain w2 where
        2: "exec (MergeDeliverLoop M) w1 = exec (MergeDeliverLoop M) w2"
        "merge_loop M S d xs (qs[c' := (k, None)]) (Suc c' mod length xs) j L w2"
        "ready d S L K Q t us j w2" "same_except (L \<union> {Cell M, Sub S} \<union> ups_owns xs) w1 w2"
        by blast
      from "2.hyps"(1) [OF no 1(6) [symmetric] 2(2)] 2(3) us False 1(6) 1(1,3) 2(1,4) same_except_trans show ?thesis by metis
    qed
  qed
next
  case (3 k v vs t' T)
  have T: "turns c qs = (k, v # vs, t') # T" using 3(2) by simp
  obtain us' where us: "merged (T @ [(k, vs, t')]) = Some (us', t)" "us = Variant k v # us'"
    using 3(4) by (auto simp: T)
  have j: "Suc j < pending_limit" using ready_less [OF 3(5)] K by simp
  obtain c' w1 where 1: "exec (MergeDeliverLoop M) w = exec (MergeDeliverLoop M) w1" "merge_loop M S d xs qs c' j L w1"
    "same_except (L \<union> {Cell M, Sub S} \<union> ups_owns xs) w w1" "ready d S L K Q t us j w1"
    "qs ! c' = (k, Some (v # vs, t'))" "turns (Suc c' mod length xs) (qs[c' := (k, Some (vs, t'))]) = T @ [(k, vs, t')]"
    by (rule merge_next [OF 3(3) j T 3(5)]) blast
  have "ready d S L K Q t (Variant k v # us') j w1" using 1(4) us(2) by simp
  from merge_value_turn [OF 1(2,5) this K] obtain j' w2 where
    2: "exec (MergeDeliverLoop M) w1 = exec (MergeDeliverLoop M) w2"
    "merge_loop M S d xs (qs[c' := (k, Some (vs, t'))]) (Suc c' mod length xs) j' L w2"
    "ready d S L K Q t us' j' w2" "same_except (L \<union> {Cell M, Sub S} \<union> ups_owns xs) w1 w2"
    by blast
  from "3.hyps"(1) [OF 1(6) [symmetric] 2(2)] us(1) 2(3) 1(6) 1(1,3) 2(1,4) same_except_trans show ?case by (metis snoc_eq_iff_butlast)
qed

end
