(* ===== verification/Merge_Contract.thy ===== *)
theory Merge_Contract
  imports Merge_Loop
begin

text \<open>
  \<open>MergeStream\<close> meets the contract of a synchronous stream: the subscription of its upstreams, and
  the publishers \<open>MergePublisher\<close> and \<open>MergeUniformPublisher\<close>.
\<close>

section \<open>Construction\<close>

lemma up_at_release:
  assumes "up_at M (Suc r) x (k, Some (vs, t)) w" and "up_sane x"
  shows "\<exists>n. refs w (up_addr x) = Suc (Suc n) \<and> up_at M r x (k, Some (vs, t)) (set_refs (up_addr x) (Suc n) w)"
proof (cases vs)
  case Nil
  let ?w = "set_refs (up_addr x) (Suc r) w"
  have "blank_at ?w l" if "l \<in> insert (Cell (up_wrapper x)) (up_locs x)" for l
    using assms that blank_at_same_on [of w l "insert (Cell (up_wrapper x)) (up_locs x)" ?w] by (auto simp: Nil up_sane_def)
  with assms(1) show ?thesis by (auto simp: Nil)
next
  case (Cons v vs')
  let ?w = "set_refs (up_addr x) (Suc (Suc r)) w"
  have "resumable (up_wrapper x) (up_sid x) (up_locs x) t vs' ?w"
    by (rule resumable_stable [of _ _ _ _ _ w]) (use assms in \<open>auto simp: Cons up_sane_def\<close>)
  with assms show ?thesis by (auto simp: Cons wrapper_at_def up_sane_def)
qed

lemma set_refs_share [simp]: "set_refs a n (share a (set_refs a m w)) = set_refs a n w"
  by (simp add: set_refs_def share_def)

text \<open>One upstream is subscribed: its first event is at hand.\<close>

lemma merge_create:
  fixes w :: "('v, 'u) world"
  assumes p: "pub_resumable p t vs" and t: "code t \<noteq> OK" and m: "merge_at M S d ups c 0 av False lock (Suc n) w"
    and wf: "wf_world w" and old: "M < next_addr w" "S < next_sid w"
  shows "\<exists>x w'. MergeStream_CreateUpstreamSubscriber exec k M p w = ret (up_addr x, w') \<and> up_at M 0 x (k, Some (vs, t)) w'
    \<and> merge_at M S d ups c 0 (Add av 1) False lock (Suc (Suc n)) w' \<and> same_except (up_owns x \<union> {Cell M}) w w'
    \<and> up_owns x \<inter> old w = {} \<and> up_owns x \<subseteq> old w' \<and> up_sane x \<and> wf_world w'"
proof -
  let ?u = "next_addr w" and ?e = "Suc (next_addr w)"
  define w1 where "w1 = share ?u (alloc (merge_upstream k M None None) (share M (share M w)))"
  define w2 where "w2 = SharedSubscriberWrapper_Create ?u (share ?u w1)"
  have new: "refs w ?u = 0" "refs w ?e = 0" and live: "refs w M = Suc n" and Mu: "M \<noteq> ?u" "M \<noteq> ?e"
    using wf m old by (simp_all add: wf_worldD merge_at_def)
  have w2: "wf_world w2" "next_addr w2 = Suc ?e" "next_sid w2 = next_sid w" "same_except {Cell ?u, Cell ?e, Cell M} w w2"
    using wf old by (simp_all add: w1_def w2_def SharedSubscriberWrapper_Create_def)
  obtain s U wm where mm: "exec (DoSubscribe p ?e) w2 = exec (OnSubscribe ?e s) wm" "same_except U w2 wm"
    "U \<inter> old w2 = {}" "U \<subseteq> old wm" "wf_world wm" "resumable ?e s U t vs wm"
    using p w2(1,2) unfolding pub_resumable_def by (metis lessI)
  define x where "x = \<lparr>up_addr = ?u, up_wrapper = ?e, up_sid = s, up_locs = U\<rparr>"
  have own: "Cell ?u \<notin> U" "Cell ?e \<notin> U" "Cell M \<notin> U" "Sub S \<notin> U"
    using mm(3) w2(2,3) old by auto
  have sane: "up_sane x" using own by (simp add: up_sane_def x_def)
  have at2: "heap w2 ?u = Some (merge_upstream k M None None)" "refs w2 ?u = Suc (Suc (Suc 0))" "wrapper_at ?e ?u w2"
    "merge_at M S d ups c 0 av False lock (Suc (Suc (Suc n))) w2"
    using new Mu m by (simp_all add: w1_def w2_def SharedSubscriberWrapper_Create_def wrapper_at_def merge_at_def)
  have atm: "heap wm ?u = Some (merge_upstream k M None None)" "refs wm ?u = Suc (Suc (Suc 0))" "wrapper_at ?e ?u wm"
    "merge_at M S d ups c 0 av False lock (Suc (Suc (Suc n))) wm"
    using at2 own same_exceptD [OF mm(2)] by (simp_all add: wrapper_at_def merge_at_def)
  define w3 where "w3 = put ?u (merge_upstream k M None (Some s)) wm"
  have nm: "Suc ?e \<le> next_addr wm" using same_exceptD(5) [OF mm(2)] w2(2) by simp
  have "up_asking M (Suc 0) x k vs t w3"
    unfolding up_asking_def
  proof (intro conjI sane)
    show "resumable (up_wrapper x) (up_sid x) (up_locs x) t vs w3"
      using resumable_stable [OF mm(6)] own by (simp add: x_def w3_def)
  qed (use atm own mm(4,5) nm t in \<open>auto simp: w3_def x_def wrapper_at_def up_owns_def\<close>)
  moreover have "merge_at M S d ups c 0 av False lock (Suc (Suc (Suc n))) w3"
    using atm Mu by (simp add: merge_at_def w3_def)
  moreover have "up_owns x \<inter> {Cell M, Sub S} = {}" using own Mu by (auto simp: x_def up_owns_def)
  moreover have "M < next_addr w3" using old nm by (simp add: w3_def)
  ultimately obtain w4 where 4: "Subscription_Request exec (up_sid x) 1 w3 = ret w4" "up_at M (Suc 0) x (k, Some (vs, t)) w4"
    "merge_at M S d ups c 0 (Add av 1) False lock (Suc (Suc (Suc n))) w4" "same_except (up_owns x \<union> {Cell M}) w3 w4"
    using up_request by blast
  obtain r where r: "refs w4 ?u = Suc (Suc r)" "up_at M 0 x (k, Some (vs, t)) (set_refs ?u (Suc r) w4)"
    using up_at_release [OF 4(2) sane] by (auto simp: x_def)
  define w6 where "w6 = set_refs M (Suc (Suc n)) (set_refs ?u (Suc r) w4)"
  have "exec (OnSubscribe ?e s) wm = ret w4"
    using atm 4(1) by (simp add: wrapper_at_def exec_OnSubscribe SharedSubscriberWrapper_OnSubscribe_def
        MergeUpstreamSubscriber_OnSubscribe_def get_simps w3_def x_def)
  then have "MergeStream_CreateUpstreamSubscriber exec k M p w = ret (?u, w6)"
    using live new mm(1) r(1) 4(3) Mu
    by (simp add: MergeStream_CreateUpstreamSubscriber_def MergeUpstreamSubscriber_DoSubscribe_def self_live Let_def
        w1_def [symmetric] w2_def [symmetric] release_dec w6_def)
      (simp add: w1_def w2_def self_live Let_def release_dec SharedSubscriberWrapper_Create_def merge_at_def)
  moreover have "up_at M 0 x (k, Some (vs, t)) w6"
    by (rule up_at_same_on [OF r(2)]) (use Mu own in \<open>simp add: w6_def x_def up_owns_def\<close>)
  moreover have "merge_at M S d ups c 0 (Add av 1) False lock (Suc (Suc n)) w6"
    using 4(3) Mu by (simp add: merge_at_def w6_def)
  moreover have s6: "same_except (up_owns x \<union> {Cell M}) w w6"
  proof -
    have "same_except (up_owns x \<union> {Cell M}) w w2" by (rule same_except_mono [OF w2(4)]) (auto simp: x_def up_owns_def)
    also have "same_except (up_owns x \<union> {Cell M}) w2 wm" by (rule same_except_mono [OF mm(2)]) (auto simp: x_def up_owns_def)
    finally have "same_except (up_owns x \<union> {Cell M}) w w3" by (simp add: w3_def x_def up_owns_def)
    also note 4(4)
    finally show ?thesis by (simp add: w6_def x_def up_owns_def)
  qed
  moreover have "up_owns x \<inter> old w = {}" using mm(3) w2(2,3) by (auto simp: x_def up_owns_def old_def split: loc.splits)
  moreover have o: "up_owns x \<union> {Cell M} \<subseteq> old w3"
    using mm(4) nm old by (auto simp: x_def up_owns_def w3_def)
  then have "up_owns x \<subseteq> old w6" using same_except_old [OF 4(4) o] by (simp add: w6_def)
  moreover have "wf_world w6"
  proof -
    have "wf_world w3" using mm(5) nm by (simp add: w3_def)
    from wf_world_same_except [OF this 4(4) o] show ?thesis
      using same_exceptD(5) [OF 4(4)] o by (simp add: w6_def x_def up_owns_def w3_def)
  qed
  ultimately show ?thesis using sane by (intro exI [of _ x] exI [of _ w6]) (simp add: x_def)
qed

section \<open>All upstreams are subscribed\<close>

lemma ups_owns_simps [simp]: "ups_owns [] = {}" "ups_owns (x # xs) = up_owns x \<union> ups_owns xs"
  by (simp_all add: ups_owns_def)

lemma ups_sane_Nil: "ups_sane []"
  by (simp add: ups_sane_def)

lemma ups_sane_Cons:
  assumes "up_sane x" and "ups_sane xs" and "up_owns x \<inter> ups_owns xs = {}"
  shows "ups_sane (x # xs)"
proof -
  have "up_owns x \<inter> up_owns (xs ! i) = {}" if "i < length xs" for i
    using assms(3) up_owns_subset [OF nth_mem [OF that]] by auto
  then show ?thesis
    using assms(1,2) unfolding ups_sane_def by (auto simp: nth_Cons' Int_commute)
qed

lemma Add_one_pos: "0 < balance (Add b 1)"
  using not_saturated_add [of "rb_balance b" 1] by (auto simp: Add_def balance_def word_less_nat_alt unat_kMax)

text \<open>
  The subscribed upstreams with the values they have, each of them fresh: what holds between the
  world before and the one after.
\<close>

definition subscribed ::
  "addr \<Rightarrow> upstream list \<Rightarrow> (nat \<times> 'v val list \<times> Status) list \<Rightarrow> ('v, 'u) world \<Rightarrow> ('v, 'u) world \<Rightarrow> bool" where
  "subscribed M xs qs w w' \<longleftrightarrow> ups_at M xs (map (\<lambda>q. (fst q, Some (snd q))) qs) w' \<and> ups_sane xs
     \<and> same_except (ups_owns xs \<union> {Cell M}) w w' \<and> ups_owns xs \<inter> old w = {} \<and> ups_owns xs \<subseteq> old w' \<and> wf_world w'"

lemma subscribed_Nil: "wf_world w \<Longrightarrow> subscribed M [] [] w w"
  by (simp add: subscribed_def ups_at_def ups_sane_Nil)

lemma subscribed_Cons:
  assumes x: "up_at M 0 x (k, Some e) w1" "same_except (up_owns x \<union> {Cell M}) w w1" "up_owns x \<inter> old w = {}"
      "up_owns x \<subseteq> old w1" "up_sane x" and M: "M < next_addr w" and rest: "subscribed M xs qs w1 w'"
  shows "subscribed M (x # xs) ((k, e) # qs) w w'"
proof -
  have dis: "up_owns x \<inter> ups_owns xs = {}" "up_owns x \<inter> {Cell M} = {}"
    using rest x(3,4) M by (auto simp: subscribed_def)
  have s: "same_except (ups_owns xs \<union> {Cell M}) w1 w'" using rest by (simp add: subscribed_def)
  have "up_at M 0 x (k, Some e) w'"
    by (rule up_at_same_on [OF x(1) same_except_same_on [OF s]]) (use dis in auto)
  moreover have "same_except (up_owns x \<union> ups_owns xs \<union> {Cell M}) w w'"
  proof -
    have "same_except (up_owns x \<union> ups_owns xs \<union> {Cell M}) w w1" by (rule same_except_mono [OF x(2)]) auto
    also have "same_except (up_owns x \<union> ups_owns xs \<union> {Cell M}) w1 w'" by (rule same_except_mono [OF s]) auto
    finally show ?thesis .
  qed
  moreover have "ups_owns xs \<inter> old w = {}"
    using rest same_except_old [OF x(2) subset_refl] by (auto simp: subscribed_def)
  moreover have "up_owns x \<subseteq> old w'" by (rule same_except_old [OF s x(4)])
  ultimately show ?thesis
    using rest x(3,5) dis by (auto simp: subscribed_def ups_at_def intro: ups_sane_Cons)
qed

lemma merge_create_all:
  fixes w :: "('v, 'u) world"
  assumes "list_all2 (\<lambda>p (vs, t). pub_resumable p t vs \<and> code t \<noteq> OK) ps es" and "merge_at M S d ups c 0 av False lock (Suc n) w"
    and "wf_world w" and "M < next_addr w" "S < next_sid w"
  shows "\<exists>xs w' av'. MergeStream_CreateUpstreamSubscribers exec M ps k w = ret (map up_addr xs, w')
    \<and> subscribed M xs (List.enumerate k es) w w' \<and> merge_at M S d ups c 0 av' False lock (Suc (n + length ps)) w'
    \<and> (ps \<noteq> [] \<or> 0 < balance av \<longrightarrow> 0 < balance av')"
  using assms
proof (induction arbitrary: k av n w rule: list_all2_induct)
  case Nil
  then show ?case using subscribed_Nil by (intro exI [of _ "[]"] exI [of _ w] exI [of _ av]) simp
next
  case (Cons p ps e es)
  obtain vs t where e: "e = (vs, t)" by (cases e)
  have p: "pub_resumable p t vs" "code t \<noteq> OK" using Cons(1) by (simp_all add: e)
  obtain x w1 where 1: "MergeStream_CreateUpstreamSubscriber exec k M p w = ret (up_addr x, w1)"
    "up_at M 0 x (k, Some e) w1" "merge_at M S d ups c 0 (Add av 1) False lock (Suc (Suc n)) w1"
    "same_except (up_owns x \<union> {Cell M}) w w1" "up_owns x \<inter> old w = {}" "up_owns x \<subseteq> old w1" "up_sane x" "wf_world w1"
    using merge_create [OF p Cons.prems] unfolding e by blast
  have "M < next_addr w1" "S < next_sid w1" using Cons.prems(3,4) same_exceptD(5,6) [OF 1(4)] by simp_all
  from Cons.IH [OF 1(3,8) this] obtain xs w' av' where
    2: "MergeStream_CreateUpstreamSubscribers exec M ps (Suc k) w1 = ret (map up_addr xs, w')"
    "subscribed M xs (List.enumerate (Suc k) es) w1 w'" "merge_at M S d ups c 0 av' False lock (Suc (Suc n + length ps)) w'"
    "0 < balance av'"
    using Add_one_pos by blast
  have "subscribed M (x # xs) (List.enumerate k (e # es)) w w'"
    using subscribed_Cons [OF 1(2,4-7) Cons.prems(3) 2(2)] by simp
  moreover have "MergeStream_CreateUpstreamSubscribers exec M (p # ps) k w = ret (map up_addr (x # xs), w')"
    using 1(1) 2(1) by simp
  ultimately show ?case using 2(3,4) by (intro exI [of _ "x # xs"] exI [of _ w'] exI [of _ av']) simp
qed

text \<open>\<open>MergeUniform\<close> adds one after the other to the vector.\<close>

lemma merge_add_all:
  fixes w :: "('v, 'u) world"
  assumes "list_all2 (\<lambda>p (vs, t). pub_resumable p t vs \<and> code t \<noteq> OK) ps es" and "merge_at M S d ups c 0 av False lock (Suc n) w"
    and "wf_world w" and "M < next_addr w" "S < next_sid w"
  shows "\<exists>xs w' av'. MergeStream_add_uniform exec M ps w = ret w' \<and> subscribed M xs (map (Pair 0) es) w w'
    \<and> merge_at M S d (ups @ map (\<lambda>x. Some (up_addr x)) xs) c 0 av' False lock (Suc (n + length ps)) w'
    \<and> (ps \<noteq> [] \<or> 0 < balance av \<longrightarrow> 0 < balance av')"
  using assms
proof (induction arbitrary: ups av n w rule: list_all2_induct)
  case Nil
  then show ?case using subscribed_Nil by (intro exI [of _ "[]"] exI [of _ w] exI [of _ av]) simp
next
  case (Cons p ps e es)
  obtain vs t where e: "e = (vs, t)" by (cases e)
  have p: "pub_resumable p t vs" "code t \<noteq> OK" using Cons(1) by (simp_all add: e)
  obtain x w1 where 1: "MergeStream_CreateUpstreamSubscriber exec 0 M p w = ret (up_addr x, w1)"
    "up_at M 0 x (0, Some e) w1" "merge_at M S d ups c 0 (Add av 1) False lock (Suc (Suc n)) w1"
    "same_except (up_owns x \<union> {Cell M}) w w1" "up_owns x \<inter> old w = {}" "up_owns x \<subseteq> old w1" "up_sane x" "wf_world w1"
    using merge_create [OF p Cons.prems] unfolding e by blast
  let ?ups = "ups @ [Some (up_addr x)]"
  define w2 where "w2 = put M (merge_obj S d ?ups c 0 (Add av 1) False lock) w1"
  have M: "M < next_addr w1" "S < next_sid w1" using Cons.prems(3,4) same_exceptD(5,6) [OF 1(4)] by simp_all
  have "up_owns x \<inter> {Cell M} = {}" using 1(5) Cons.prems(3) by auto
  then have 2: "merge_at M S d ?ups c 0 (Add av 1) False lock (Suc (Suc n)) w2" "wf_world w2" "M < next_addr w2"
    "S < next_sid w2" "up_at M 0 x (0, Some e) w2" "same_except (up_owns x \<union> {Cell M}) w w2" "up_owns x \<subseteq> old w2"
    using merge_at_put [OF 1(3)] M 1(4,6,8) up_at_same_on [OF 1(2), of w2] by (simp_all add: w2_def)
  from Cons.IH [OF 2(1-4)] obtain xs w' av' where
    3: "MergeStream_add_uniform exec M ps w2 = ret w'" "subscribed M xs (map (Pair 0) es) w2 w'"
    "merge_at M S d (?ups @ map (\<lambda>x. Some (up_addr x)) xs) c 0 av' False lock (Suc (Suc n + length ps)) w'"
    "0 < balance av'"
    using Add_one_pos by blast
  have "subscribed M (x # xs) (map (Pair 0) (e # es)) w w'"
    using subscribed_Cons [OF 2(5,6) 1(5) 2(7) 1(7) Cons.prems(3) 3(2)] by simp
  moreover have "MergeStream_add_uniform exec M (p # ps) w = ret w'"
    using 1(1,3) 3(1) by (simp add: merge_at_def get_simps w2_def)
  ultimately show ?case using 3(3,4) by (intro exI [of _ "x # xs"] exI [of _ w'] exI [of _ av']) simp
qed

section \<open>The publishers\<close>

lemma live_ups_all: "length qs = length xs \<Longrightarrow>
    live_ups xs (map (\<lambda>q. (fst q, Some (snd q))) qs) = map (\<lambda>x. Some (up_addr x)) xs"
  by (auto intro!: nth_equalityI simp: live_ups_nth)

lemma alive_all [simp]: "alive (map (\<lambda>q. (fst q, Some (snd q))) qs) = qs"
  by (induction qs) simp_all

lemma release_all_none: "list_all (\<lambda>p. p = None) ups \<Longrightarrow> release_all run ups w = ret w"
  by (induction ups) (simp_all add: release_opt_def)

text \<open>
  Once every upstream is subscribed: the subscriber's first request runs the stream to its end, and
  the last reference to it goes away.
\<close>

lemma merge_confirm_runs:
  assumes sub: "subscribed M xs qs w0 w" and m: "merge_at M S d (map (\<lambda>x. Some (up_addr x)) xs) 0 0 av False (Some M)
      (Suc (Suc (length xs))) w" and av: "0 < balance av" and ne: "xs \<noteq> []"
    and mg: "merged qs = Some (us, t)" and st: "start d L K Q t us w" and K: "Suc K < pending_limit"
    and own: "L \<union> {Cell M, Sub S} \<subseteq> old w0" "L \<inter> {Cell M, Sub S} = {}"
  shows "\<exists>w'. bnd (MergeStream_confirm exec M w) (release exec M) = ret w'
    \<and> same_except (L \<union> {Cell M, Sub S} \<union> ups_owns xs) w w' \<and> Q w'
    \<and> (\<forall>l\<in>{Cell M, Sub S} \<union> ups_owns xs. blank_at w' l)"
proof -
  let ?O = "{Cell M, Sub S}" and ?qs = "map (\<lambda>q. (fst q, Some (snd q))) qs"
  have us: "ups_at M xs ?qs w" using sub by (simp add: subscribed_def)
  have len: "length qs = length xs" using ups_at_length [OF us] by simp
  have s0: "same_except (ups_owns xs \<union> {Cell M}) w0 w" using sub by (simp add: subscribed_def)
  have fr: "merge_frame M S xs L w"
    using sub own same_except_old [OF s0 own(1)] by (auto simp: merge_frame_def subscribed_def)
  have dis: "L \<inter> ?O = {}" "(L \<union> ?O) \<inter> ups_owns xs = {}" using fr by (auto simp: merge_frame_def)
  have pre: "wf_world w" "insert (Sub S) L \<subseteq> old w" "Sub S \<notin> L" "impl w S \<noteq> None"
    using fr m by (auto simp: merge_frame_def merge_at_def)
  obtain j w1 where 1: "same_except L w w1" "ready d S L K Q t us j w1"
    "exec (OnSubscribe d S) w = Subscription_Request exec S (of_nat (Suc j)) w1"
    by (rule startD [OF st same_on_refl pre])
  have j: "Suc j < pending_limit" using ready_less [OF 1(2)] K by simp
  have m1: "merge_at M S d (map (\<lambda>x. Some (up_addr x)) xs) 0 0 av False (Some M) (Suc (Suc (length xs))) w1"
    by (rule merge_at_same_except [OF m 1(1)]) (use dis in auto)
  define w2 where "w2 = put M (merge_obj S d (map (\<lambda>x. Some (up_addr x)) xs) 0 (Suc j) av True (Some M)) w1"
  have s2: "same_except (L \<union> ?O) w w2" using same_except_widen [OF 1(1), of ?O] by (simp add: w2_def)
  have "merge_loop M S d xs ?qs 0 j L w2"
    unfolding merge_loop_def
  proof (intro conjI exI)
    show "merge_frame M S xs L w2" by (rule merge_frame_same_except [OF fr s2]) auto
    show "ups_at M xs ?qs w2" by (rule ups_at_same_on [OF us same_except_same_on [OF s2 dis(2)]])
    show "merge_at M S d (live_ups xs ?qs) 0 (Suc j) av True (Some M) (Suc (Suc (length (alive ?qs)))) w2"
      using merge_at_put [OF m1] live_ups_all [OF len] len by (simp add: w2_def)
  qed (use ne av in simp_all)
  moreover have "turns 0 ?qs = qs" by (simp add: turns_def)
  moreover have "ready d S L K Q t us j w2"
    by (rule ready_stable [OF 1(2)]) (use dis in \<open>simp add: w2_def\<close>)
  ultimately obtain w3 where 3: "exec (MergeDeliverLoop M) w2 = ret w3" "merge_fin M S d xs L Q w3"
    "same_except (L \<union> ?O \<union> ups_owns xs) w2 w3"
    using merge_runs [of M S d xs ?qs 0 j L w2 us t K Q] mg K ne len by fastforce
  obtain ups c rb av' deliv where fin: "closing d L Q w3" "\<forall>l\<in>ups_owns xs. blank_at w3 l"
    "merge_at M S d ups c rb av' deliv None (Suc 0) w3" "list_all (\<lambda>p. p = None) ups"
    using 3(2) by (auto simp: merge_fin_def)
  define w4 where "w4 = free M (clear_subscription S (set_refs M 0 w3))"
  have s4: "same_except (L \<union> ?O \<union> ups_owns xs) w w4"
    using same_except_trans [OF same_except_widen [OF s2] 3(3)] by (simp add: w4_def)
  have "closing d L Q w4" by (rule closing_stable [OF fin(1)]) (use dis in \<open>simp add: w4_def\<close>)
  moreover have "merge_frame M S xs L w4" by (rule merge_frame_same_except [OF fr s4]) simp
  ultimately obtain w5 where 5: "exec (Destroy d) w4 = ret w5" "same_except L w4 w5" "Q w5"
    using closingD [of d L Q w4] by (auto simp: merge_frame_def)
  have conf: "MergeStream_confirm exec M w = ret w3"
    using m m1 1(3) counter_Add [of 0 "Suc j"] j 3(1)
    by (simp add: MergeStream_confirm_def merge_at_def get_simps Subscription_live exec_Request MergeStream_Request_def
        MergeStream_MaybeDeliver_def w2_def del: of_nat_Suc)
  have "release exec M w3 = ret w5"
    using fin(3) 5(1)
    by (simp add: merge_at_def release_last exec_Destroy MergeStream_destroy_def w4_def release_all_none [OF fin(4)])
  moreover have "same_except (L \<union> ?O \<union> ups_owns xs) w w5"
    using same_except_trans [OF s4 same_except_widen [OF same_except_widen [OF 5(2)]]] .
  moreover have "blank_at w5 l" if "l \<in> ?O \<union> ups_owns xs" for l
  proof (rule blank_at_same_on [OF _ same_except_same_on [OF 5(2)]])
    show "blank_at w4 l"
    proof (cases "l \<in> ups_owns xs")
      case True
      with fin(2) dis have "blank_at w3 l" "l \<notin> ?O" by auto
      then show ?thesis by (cases l) (auto simp: w4_def)
    qed (use that in \<open>auto simp: w4_def\<close>)
    show "L \<inter> (?O \<union> ups_owns xs) = {}" using fr by (simp add: merge_frame_def)
  qed (rule that)
  ultimately show ?thesis using conf 5(3) by (intro exI [of _ w5]) simp
qed

lemma merge_create_stream:
  fixes w :: "('v, 'u) world"
  defines "M \<equiv> next_addr w" and "S \<equiv> next_sid w"
  assumes wf: "wf_world w"
  shows "\<exists>w1. MergeStream_lock_self M (MergeStream_Create d w) = ret w1
    \<and> merge_at M S d [] 0 0 (counter 0) False (Some M) (Suc (Suc 0)) w1 \<and> wf_world w1
    \<and> same_except {Cell M, Sub S} w w1 \<and> next_addr w1 = Suc M \<and> next_sid w1 = Suc S"
  using wf
  by (simp add: MergeStream_lock_self_def MergeStream_Create_def Let_def self_live get_simps merge_at_def wf_worldD
      M_def S_def)

lemma merge_subscribed_runs:
  fixes w :: "('v, 'u) world"
  defines "M \<equiv> next_addr w" and "S \<equiv> next_sid w"
  assumes wf: "wf_world w" and L: "L \<subseteq> old w" and mg: "merged qs = Some (us, t)" and st: "start d L K Q t us w"
    and K: "Suc K < pending_limit"
    and w1: "same_except {Cell M, Sub S} w w1" "next_addr w1 = Suc M" "next_sid w1 = Suc S"
    and sub: "subscribed M xs qs w1 w3" and ne: "xs \<noteq> []" and av: "0 < balance av"
    and m: "merge_at M S d (map (\<lambda>x. Some (up_addr x)) xs) 0 0 av False (Some M) (Suc (Suc (length xs))) w3"
  shows "\<exists>w'. bnd (MergeStream_confirm exec M w3) (release exec M) = ret w' \<and> same_except L w w' \<and> Q w'"
proof -
  let ?O = "{Cell M, Sub S}"
  have own: "L \<union> ?O \<subseteq> old w1" "L \<inter> ?O = {}"
    using same_except_old [OF w1(1) L] L w1(2,3) by (auto simp: M_def S_def)
  have dis: "L \<inter> (?O \<union> ups_owns xs) = {}" using sub own by (auto simp: subscribed_def)
  have s3: "same_except (?O \<union> ups_owns xs) w w3"
  proof -
    have "same_except (?O \<union> ups_owns xs) w w1" by (rule same_except_mono [OF w1(1)]) auto
    also have "same_except (?O \<union> ups_owns xs) w1 w3"
      by (rule same_except_mono [of "ups_owns xs \<union> {Cell M}"]) (use sub in \<open>auto simp: subscribed_def\<close>)
    finally show ?thesis .
  qed
  have "start d L K Q t us w3"
    by (rule start_stable [OF st same_except_same_on [OF s3]]) (use dis in auto)
  from merge_confirm_runs [OF sub m av ne mg this K own] obtain w4 where
    4: "bnd (MergeStream_confirm exec M w3) (release exec M) = ret w4"
    "same_except (L \<union> ?O \<union> ups_owns xs) w3 w4" "Q w4" "\<forall>l\<in>?O \<union> ups_owns xs. blank_at w4 l"
    by (elim exE conjE) (rule that)
  have "same_except L w w4"
  proof (rule same_except_blank [OF _ _ 4(4) wf])
    have "same_except (L \<union> (?O \<union> ups_owns xs)) w w3" by (rule same_except_mono [OF s3]) auto
    also have "same_except (L \<union> (?O \<union> ups_owns xs)) w3 w4" by (rule same_except_mono [OF 4(2)]) auto
    finally show "same_except (L \<union> (?O \<union> ups_owns xs)) w w4" .
    show "(?O \<union> ups_owns xs) \<inter> old w = {}"
      using sub same_except_old [OF w1(1) subset_refl] by (auto simp: subscribed_def M_def S_def)
  qed
  with 4(1,3) show ?thesis by (intro exI conjI)
qed

lemma merge_pub_ok:
  assumes ps: "list_all2 (\<lambda>p (vs, t). pub_resumable p t vs \<and> code t \<noteq> OK) ps es" and ne: "ps \<noteq> []"
    and mg: "merged (List.enumerate 0 es) = Some (us, t)" and K: "Suc K < pending_limit"
  shows "pub_ok K (MergePublisher ps) t us"
  unfolding pub_ok_def
proof (intro allI impI, elim conjE)
  fix d L Q and w :: "('a, 'b) world"
  assume wf: "wf_world w" and L: "L \<subseteq> old w" and Q: "stable_on L Q"
    and st: "start d L K Q t us w"
  let ?M = "next_addr w" and ?S = "next_sid w" and ?qs = "List.enumerate 0 es"
  obtain w1 where 1: "MergeStream_lock_self ?M (MergeStream_Create d w) = ret w1"
    "merge_at ?M ?S d [] 0 0 (counter 0) False (Some ?M) (Suc (Suc 0)) w1" "wf_world w1" "same_except {Cell ?M, Sub ?S} w w1"
    "next_addr w1 = Suc ?M" "next_sid w1 = Suc ?S"
    using merge_create_stream [OF wf] by blast
  obtain xs w2 av where 2: "MergeStream_CreateUpstreamSubscribers exec ?M ps 0 w1 = ret (map up_addr xs, w2)"
    "subscribed ?M xs ?qs w1 w2" "merge_at ?M ?S d [] 0 0 av False (Some ?M) (Suc (Suc 0 + length ps)) w2" "0 < balance av"
    using merge_create_all [OF ps 1(2,3)] 1(5,6) ne by fastforce
  let ?ups = "map (\<lambda>x. Some (up_addr x)) xs"
  have len: "length ps = length xs"
    using 2(2) ps ups_at_length [of ?M xs] by (fastforce simp: subscribed_def dest: list_all2_lengthD)
  define w3 where "w3 = put ?M (merge_obj ?S d ?ups 0 0 av False (Some ?M)) w2"
  have m3: "merge_at ?M ?S d ?ups 0 0 av False (Some ?M) (Suc (Suc (length xs))) w3"
    using merge_at_put [OF 2(3)] len by (simp add: w3_def)
  have "?M < next_addr w2" using 2(2) 1(5) by (auto simp: subscribed_def same_except_def)
  moreover have "Cell ?M \<notin> ups_owns xs" using 2(2) 1(5) by (auto simp: subscribed_def)
  ultimately have sub: "subscribed ?M xs ?qs w1 w3"
    using 2(2) ups_at_same_on [of ?M xs _ w2 w3] by (simp add: subscribed_def w3_def)
  have "xs \<noteq> []" using ne len by auto
  from merge_subscribed_runs [OF wf L mg st K 1(4-6) sub this 2(4) m3] obtain w4 where
    4: "bnd (MergeStream_confirm exec ?M w3) (release exec ?M) = ret w4" "same_except L w w4" "Q w4"
    by (elim exE conjE) (rule that)
  have "exec (DoSubscribe (MergePublisher ps) d) w = ret w4"
    using 1(1) 2(1,3) 4(1)
    by (simp add: exec_DoSubscribe MergePublisher_Subscribe_def MergeStream_FinalizeConstruction_def Let_def
        merge_at_def get_simps w3_def comp_def)
  with 4(2,3) show "\<exists>w'. exec (DoSubscribe (MergePublisher ps) d) w = ret w' \<and> same_except L w w' \<and> Q w'"
    by blast
qed

section \<open>The wrapper of a uniform merge\<close>

definition variant_wrapper_at :: "addr \<Rightarrow> addr \<Rightarrow> ('v, 'u) world \<Rightarrow> bool" where
  "variant_wrapper_at b d w \<longleftrightarrow> heap w b = Some (VariantSubscriberWrapper d) \<and> refs w b = 0"

lemma variant_wrapper_at_same_on:
  "variant_wrapper_at b d w \<Longrightarrow> same_on L w w' \<Longrightarrow> Cell b \<in> L \<Longrightarrow> variant_wrapper_at b d w'"
  by (auto simp: variant_wrapper_at_def same_on_alt)

lemma variant_delivering:
  "delivering s (insert (Cell b) L) U Up K j w w' \<Longrightarrow> delivering s L U Up K j w w'"
  by (auto simp: delivering_def)

lemma variant_closing:
  assumes cl: "closing d L Q w" and "variant_wrapper_at b d w" and own: "Cell b \<notin> L"
  shows "closing b (insert (Cell b) L) (\<lambda>w. Q w \<and> heap w b = None \<and> refs w b = 0) w"
  unfolding closing_def
proof (intro allI impI, elim conjE)
  fix w1 assume same: "same_on (insert (Cell b) L) w w1" and wf: "wf_world w1" "insert (Cell b) L \<subseteq> old w1"
  have b1: "variant_wrapper_at b d w1" using variant_wrapper_at_same_on [OF assms(2) same] by simp
  have "closing d L Q (free b w1)" by (rule closing_stable [OF cl]) (use same own in simp)
  then obtain w2 where 2: "exec (Destroy d) (free b w1) = ret w2" "same_except L (free b w1) w2" "Q w2"
    by (rule closingD) (use wf in simp_all)
  have "same_except (insert (Cell b) L) w1 (free b w1)" by simp
  also have "same_except (insert (Cell b) L) (free b w1) w2" by (rule same_except_mono [OF 2(2)]) auto
  finally have "same_except (insert (Cell b) L) w1 w2" .
  moreover have "heap w2 b = None" "refs w2 b = 0"
    using same_exceptD [OF 2(2)] own b1 by (simp_all add: variant_wrapper_at_def)
  moreover have "exec (Destroy b) w1 = ret w2"
    using b1 2(1) by (simp add: variant_wrapper_at_def exec_Destroy)
  ultimately show "\<exists>w'. exec (Destroy b) w1 = ret w' \<and> same_except (insert (Cell b) L) w1 w'
      \<and> Q w' \<and> heap w' b = None \<and> refs w' b = 0"
    using 2(3) by blast
qed

lemma variant_ready:
  assumes "ready d s L K Q t vs j w" and "variant_wrapper_at b d w" and own: "Cell b \<notin> L" and t: "code t \<noteq> OK"
  shows "ready b s (insert (Cell b) L) K (\<lambda>w. Q w \<and> heap w b = None \<and> refs w b = 0) t (map (Variant 0) vs) j w"
  using assms(1,2)
proof (induction vs arbitrary: j w)
  case Nil
  let ?L = "insert (Cell b) L" and ?Q = "\<lambda>w. Q w \<and> heap w b = None \<and> refs w b = 0"
  show ?case unfolding list.map ready.simps
  proof (intro conjI allI impI)
    show "j < K" by (rule ready_less [OF Nil(1)])
    fix w1 U Up assume del: "delivering s ?L U Up K j w w1"
    have b1: "variant_wrapper_at b d w1" using del Nil(2) by (simp add: delivering_def variant_wrapper_at_def)
    obtain w2 j' where 2: "exec (OnNext d s (StatusRepr t)) w1 = ret w2" "same_except (L \<union> U) w1 w2" "Up j' w2" "closing d L Q w2"
      by (rule ready_NilD [OF Nil(1) variant_delivering [OF del]])
    have "Cell b \<notin> U" using del by (auto simp: delivering_def)
    then have b2: "variant_wrapper_at b d w2"
      using b1 same_exceptD [OF 2(2)] own by (simp add: variant_wrapper_at_def)
    have "exec (OnNext b s (StatusRepr t)) w1 = ret w2"
      using b1 2(1) t by (simp add: variant_wrapper_at_def exec_OnNext VariantSubscriberWrapper_OnNext_def)
    moreover have "same_except (?L \<union> U) w1 w2" by (rule same_except_mono [OF 2(2)]) auto
    ultimately show "\<exists>w'' j'. exec (OnNext b s (StatusRepr t)) w1 = ret w'' \<and> same_except (?L \<union> U) w1 w''
        \<and> Up j' w'' \<and> closing b ?L ?Q w''"
      using 2(3) variant_closing [OF 2(4) b2 own] by blast
  qed
next
  case (Cons v vs)
  let ?L = "insert (Cell b) L" and ?Q = "\<lambda>w. Q w \<and> heap w b = None \<and> refs w b = 0"
  show ?case unfolding list.map ready.simps
  proof (intro conjI allI impI)
    show "j < K" by (rule ready_less [OF Cons.prems(1)])
    fix w1 U Up assume del: "delivering s ?L U Up K j w w1"
    have b1: "variant_wrapper_at b d w1" using del Cons.prems(2) by (simp add: delivering_def variant_wrapper_at_def)
    obtain w2 j' where 2: "exec (OnNext d s (ValueRepr v)) w1 = ret w2" "same_except (L \<union> U) w1 w2" "Up (Suc j') w2"
      "ready d s L K Q t vs j' w2"
      by (rule ready_ConsD [OF Cons.prems(1) variant_delivering [OF del]])
    have "Cell b \<notin> U" using del by (auto simp: delivering_def)
    then have b2: "variant_wrapper_at b d w2"
      using b1 same_exceptD [OF 2(2)] own by (simp add: variant_wrapper_at_def)
    have "exec (OnNext b s (ValueRepr (Variant 0 v))) w1 = ret w2"
      using b1 2(1) by (simp add: variant_wrapper_at_def exec_OnNext VariantSubscriberWrapper_OnNext_def)
    moreover have "same_except (?L \<union> U) w1 w2" by (rule same_except_mono [OF 2(2)]) auto
    ultimately show "\<exists>w'' j'. exec (OnNext b s (ValueRepr (Variant 0 v))) w1 = ret w'' \<and> same_except (?L \<union> U) w1 w''
        \<and> Up (Suc j') w'' \<and> ready b s ?L K ?Q t (map (Variant 0) vs) j' w''"
      using 2(3) Cons.IH [OF 2(4) b2] by blast
  qed
qed

lemma variant_start:
  assumes "start d L K Q t vs w" and "variant_wrapper_at b d w" and own: "Cell b \<notin> L" and t: "code t \<noteq> OK"
  shows "start b (insert (Cell b) L) K (\<lambda>w. Q w \<and> heap w b = None \<and> refs w b = 0) t (map (Variant 0) vs) w"
  unfolding start_def
proof (intro allI impI, elim conjE)
  let ?L = "insert (Cell b) L" and ?Q = "\<lambda>w. Q w \<and> heap w b = None \<and> refs w b = 0"
  fix w1 s assume same: "same_on ?L w w1" and pre: "wf_world w1" "insert (Sub s) ?L \<subseteq> old w1" "Sub s \<notin> ?L" "impl w1 s \<noteq> None"
  have b1: "variant_wrapper_at b d w1" using variant_wrapper_at_same_on [OF assms(2) same] by simp
  obtain j w2 where 2: "same_except L w1 w2" "ready d s L K Q t vs j w2"
    "exec (OnSubscribe d s) w1 = Subscription_Request exec s (of_nat (Suc j)) w2"
    by (rule startD [OF assms(1)]) (use same pre in auto)
  have b2: "variant_wrapper_at b d w2" using b1 same_exceptD [OF 2(1)] own by (simp add: variant_wrapper_at_def)
  have "exec (OnSubscribe b s) w1 = Subscription_Request exec s (of_nat (Suc j)) w2"
    using b1 2(3) by (simp add: variant_wrapper_at_def exec_OnSubscribe VariantSubscriberWrapper_OnSubscribe_def)
  moreover have "same_except ?L w1 w2" by (rule same_except_mono [OF 2(1)]) auto
  ultimately show "\<exists>j w''. same_except ?L w1 w'' \<and> ready b s ?L K ?Q t (map (Variant 0) vs) j w''
      \<and> exec (OnSubscribe b s) w1 = Subscription_Request exec s (of_nat (Suc j)) w''"
    using variant_ready [OF 2(2) b2 own t] by blast
qed

section \<open>A uniform merge\<close>

text \<open>The elements of several lists in turns.\<close>

function take_turns :: "'a list list \<Rightarrow> 'a list" where
  "take_turns [] = []"
| "take_turns ([] # xss) = take_turns xss"
| "take_turns ((x # xs) # xss) = x # take_turns (xss @ [xs])"
  by pat_completeness auto
termination
  by (relation "measure (\<lambda>xss. sum_list (map (\<lambda>xs. Suc (length xs)) xss))") simp_all

text \<open>The same for lists with a terminal status, until an error, as for \<open>merged\<close>.\<close>

function turns_until :: "('a list \<times> Status) list \<Rightarrow> ('a list \<times> Status) option" where
  "turns_until [] = Some ([], Done)"
| "turns_until (([], t) # es) =
     (if IsError_status t then (if \<forall>e\<in>set es. fst e \<noteq> [] then Some ([], t) else None) else turns_until es)"
| "turns_until ((x # xs, t) # es) = map_option (\<lambda>(us, t). (x # us, t)) (turns_until (es @ [(xs, t)]))"
  by pat_completeness auto
termination
  by (relation "measure (\<lambda>es. sum_list (map (\<lambda>e. Suc (length (fst e))) es))") simp_all

lemma turns_until_Done: "turns_until (map (\<lambda>xs. (xs, Done)) xss) = Some (take_turns xss, Done)"
  by (induction xss rule: take_turns.induct) (simp_all add: IsError_status_def IsDone_status_def)

lemma turns_until_terminal: "turns_until es = Some (us, t) \<Longrightarrow> code t \<noteq> OK"
  by (induction es arbitrary: us rule: turns_until.induct) (auto split: if_splits simp: IsError_status_def)

lemma merged_uniform: "merged (map (Pair 0) es) = map_option (\<lambda>(us, t). (map (Variant 0) us, t)) (turns_until es)"
  by (induction es rule: turns_until.induct) (auto simp: option.map_comp comp_def split_def intro!: option.map_cong0)

lemma merge_uniform_pub_ok:
  assumes ps: "list_all2 (\<lambda>p (vs, t). pub_resumable p t vs \<and> code t \<noteq> OK) ps es" and ne: "ps \<noteq> []"
    and mg: "turns_until es = Some (us, t)" and K: "Suc K < pending_limit"
  shows "pub_ok K (MergeUniformPublisher ps) t us"
  unfolding pub_ok_def
proof (intro allI impI, elim conjE)
  fix d L Q and w :: "('a, 'b) world"
  assume wf: "wf_world w" and L: "L \<subseteq> old w" and Q: "stable_on L Q" and st: "start d L K Q t us w"
  let ?b = "next_addr w" and ?qs = "map (Pair 0) es"
  define w0 where "w0 = alloc (VariantSubscriberWrapper d) w"
  let ?M = "next_addr w0" and ?S = "next_sid w0" and ?L = "insert (Cell ?b) L"
  let ?Q = "\<lambda>w. Q w \<and> heap w ?b = None \<and> refs w ?b = 0"
  have own: "Cell ?b \<notin> L" using L by auto
  have b0: "variant_wrapper_at ?b d w0" using wf by (simp add: variant_wrapper_at_def w0_def wf_worldD)
  have w0: "wf_world w0" "?L \<subseteq> old w0" "same_on L w w0" using wf L own by (auto simp: w0_def)
  have st0: "start ?b ?L K ?Q t (map (Variant 0) us) w0"
    by (rule variant_start [OF start_stable [OF st w0(3)] b0 own turns_until_terminal [OF mg]])
  have mg0: "merged ?qs = Some (map (Variant 0) us, t)" by (simp add: merged_uniform mg)
  obtain w1 where 1: "MergeStream_lock_self ?M (MergeStream_Create ?b w0) = ret w1"
    "merge_at ?M ?S ?b [] 0 0 (counter 0) False (Some ?M) (Suc (Suc 0)) w1" "wf_world w1" "same_except {Cell ?M, Sub ?S} w0 w1"
    "next_addr w1 = Suc ?M" "next_sid w1 = Suc ?S"
    using merge_create_stream [OF w0(1)] by blast
  obtain xs w2 av where 2: "MergeStream_add_uniform exec ?M ps w1 = ret w2" "subscribed ?M xs ?qs w1 w2"
    "merge_at ?M ?S ?b (map (\<lambda>x. Some (up_addr x)) xs) 0 0 av False (Some ?M) (Suc (Suc 0 + length ps)) w2" "0 < balance av"
    using merge_add_all [OF ps 1(2,3)] 1(5,6) ne by fastforce
  have len: "length ps = length xs"
    using 2(2) ps ups_at_length [of ?M xs] by (fastforce simp: subscribed_def dest: list_all2_lengthD)
  then have "xs \<noteq> []" using ne by auto
  from merge_subscribed_runs [OF w0(1,2) mg0 st0 K 1(4-6) 2(2) this 2(4)] 2(3) len obtain w4 where
    4: "bnd (MergeStream_confirm exec ?M w2) (release exec ?M) = ret w4" "same_except ?L w0 w4" "?Q w4"
    by auto
  have "exec (DoSubscribe (MergeUniformPublisher ps) d) w = ret w4"
    using 1(1) 2(1) 4(1)
    by (simp add: exec_DoSubscribe MergeUniformPublisher_Subscribe_def MergeStream_FinalizeConstructionUniform_def
        Let_def w0_def [symmetric])
  moreover have "same_except L w w4"
  proof (rule same_except_shrink [of L "{Cell ?b}"])
    have "same_except (L \<union> {Cell ?b}) w w0" by (simp add: w0_def)
    also have "same_except (L \<union> {Cell ?b}) w0 w4" using 4(2) by simp
    finally show "same_except (L \<union> {Cell ?b}) w w4" .
    show "same_on {Cell ?b} w w4" using 4(3) wf by (simp add: wf_worldD)
  qed
  ultimately show "\<exists>w'. exec (DoSubscribe (MergeUniformPublisher ps) d) w = ret w' \<and> same_except L w w' \<and> Q w'"
    using 4(3) by blast
qed

end
