(* ===== verification/Pipelines.thy ===== *)
theory Pipelines
  imports Generating_Contract Buffer_Contract FlatMap_Contract Concat_Contract Prefetch_Contract
    Flow_Control_Contract Merge_Contract
begin

text \<open>
  What synchronous pipelines deliver. The relation \<open>emits\<close> is the abstract meaning of a publisher
  built from generators with \<open>Map\<close>, \<open>StaticCast\<close>, \<open>Buffer\<close>, \<open>Concat\<close>, \<open>FlatMap\<close>, \<open>Prefetch\<close> and,
  over upstreams that rest between requests, \<open>Merge\<close> and \<open>MergeUniform\<close>: the sequence of its
  values and its terminal status. The main result is that the machine, running the code's streams
  against a subscriber with automatic flow control, implements it: the subscription returns, the
  subscriber has seen exactly this sequence, and every object and subscription state that was created
  is gone.
\<close>

section \<open>The abstract meaning of a publisher\<close>

text \<open>
  \<open>emits K p vs t\<close>: the publisher \<open>p\<close> produces the values \<open>vs\<close> and then the terminal status \<open>t\<close>, for
  a subscriber that never has more than \<open>K\<close> events pending. The bound is there for \<open>Buffer\<close>, which
  multiplies requests; it never limits the length of a stream.
\<close>

inductive emits :: "nat \<Rightarrow> ('v, 'u) pub \<Rightarrow> 'v val list \<Rightarrow> Status \<Rightarrow> bool" where
  emits_generator: "gen_emits g st vs t \<Longrightarrow> Suc K < pending_limit \<Longrightarrow> emits K (GeneratingPublisher st g) vs t"
| emits_map: "emits K p vs t \<Longrightarrow> (\<And>v u. f v u = (ValueRepr (g v), u)) \<Longrightarrow>
    emits K (ChainingPublisher p (MapFn f)) (map g vs) t"
| emits_cast: "emits K p vs t \<Longrightarrow> emits K (ChainingPublisher p (CastFn g)) (map g vs) t"
| emits_buffer: "emits (m * (K + 2)) p vs t \<Longrightarrow> 0 < m \<Longrightarrow> m < 2 ^ 64 \<Longrightarrow>
    emits K (ChainingPublisher p (BufferFn (of_nat m) [])) (buffer_out m t [] vs) t"
| emits_concat: "emits K p vs t1 \<Longrightarrow> code t1 = OUT_OF_RANGE \<Longrightarrow> emits K q ws t \<Longrightarrow> Suc K < pending_limit \<Longrightarrow>
    emits K (ConcatPublisher p q) (vs @ ws) t"
| emits_concat_error: "emits K p vs t \<Longrightarrow> code t \<noteq> OUT_OF_RANGE \<Longrightarrow> Suc K < pending_limit \<Longrightarrow>
    emits K (ConcatPublisher p q) vs t"
| emits_flatmap: "emits K p vs t \<Longrightarrow>
    list_all2 (\<lambda>v ws. \<exists>q tc. (\<forall>u. kf v u = (Some q, u)) \<and> code tc = OUT_OF_RANGE \<and> emits K q ws tc) vs wss \<Longrightarrow>
    Suc K < pending_limit \<Longrightarrow> emits K (FlatMapPublisher p kf) (concat wss) t"
| emits_prefetch: "emits N p vs t \<Longrightarrow> 0 < N \<Longrightarrow> N < pending_limit \<Longrightarrow> Suc K < pending_limit \<Longrightarrow>
    emits K (PrefetchingPublisher p (of_nat N) mark) vs t"
| emits_merge: "list_all2 (\<lambda>p (vs, t). rests p vs t) ps es \<Longrightarrow> ps \<noteq> [] \<Longrightarrow>
    merged (List.enumerate 0 es) = Some (us, t) \<Longrightarrow> Suc K < pending_limit \<Longrightarrow> emits K (MergePublisher ps) us t"
| emits_merge_uniform: "list_all2 (\<lambda>p (vs, t). rests p vs t) ps es \<Longrightarrow> ps \<noteq> [] \<Longrightarrow>
    turns_until es = Some (us, t) \<Longrightarrow> Suc K < pending_limit \<Longrightarrow> emits K (MergeUniformPublisher ps) us t"
monos list.rel_mono

inductive_cases emits_generatorE: "emits K (GeneratingPublisher st g) vs t"
inductive_cases emits_concatE: "emits K (ConcatPublisher p q) vs t"

lemma one_plus_two: "(1 :: nat) + 2 = 3"
  by simp

lemmas emits_buffer_1 = emits_buffer [where K = 1, unfolded one_plus_two]

lemma gen_emits_terminal: "gen_emits g st vs t \<Longrightarrow> code t \<noteq> OK"
  by (induction rule: gen_emits.induct) auto

lemma emits_terminal: "emits K p vs t \<Longrightarrow> code t \<noteq> OK"
  by (induction rule: emits.induct) (auto simp: gen_emits_terminal merged_terminal turns_until_terminal)

text \<open>The constructors of publishers.\<close>

lemma emits_values:
  assumes "length vs < 2 ^ 64" and "Suc K < pending_limit"
  shows "emits K (CreateValuePublisher vs) vs Done"
  using gen_emits_value_generator [OF assms(1), of 0] assms(2)
  unfolding CreateValuePublisher_def by (auto intro!: emits_generator)

section \<open>The machine implements the meaning\<close>

lemma emits_pub_ok: "emits K p vs t \<Longrightarrow> pub_ok K p t vs"
proof (induction rule: emits.induct)
  case (emits_generator g st vs t K)
  then show ?case by (intro generating_pub_ok) simp_all
next
  case (emits_map K p vs t f g)
  then show ?case by (intro forwarding_pub_ok forwarding_Map emits_terminal)
next
  case (emits_cast K p vs t g)
  then show ?case by (intro forwarding_pub_ok forwarding_Cast emits_terminal)
next
  case (emits_buffer m K p vs t)
  then show ?case by (intro buffer_pub_ok emits_terminal)
next
  case (emits_concat K p vs t1 q ws t)
  then show ?case using emits_terminal by (intro concat_pub_ok [of K p t1]) auto
next
  case (emits_concat_error K p vs t q)
  then show ?case using concat_pub_ok [of K p t vs t q "[]"] emits_terminal by auto
next
  case (emits_flatmap K p vs t kf wss)
  have "list_all2 (cont_ok K kf) vs wss"
    using emits_flatmap.IH(2) by (rule list.rel_mono_strong) (auto simp: cont_ok_def)
  then show ?case using emits_flatmap emits_terminal by (intro flat_pub_ok)
next
  case (emits_prefetch N p vs t K mark)
  then show ?case using emits_terminal by (intro prefetch_pub_ok)
next
  case (emits_merge ps es us t K)
  then have "list_all2 (\<lambda>p (vs, t). pub_resumable p t vs \<and> code t \<noteq> OK) ps es"
    by (auto intro: rests_resumable dest: rests_terminal elim!: list.rel_mono_strong)
  then show ?case using emits_merge by (intro merge_pub_ok)
next
  case (emits_merge_uniform ps es us t K)
  then have "list_all2 (\<lambda>p (vs, t). pub_resumable p t vs \<and> code t \<noteq> OK) ps es"
    by (auto intro: rests_resumable dest: rests_terminal elim!: list.rel_mono_strong)
  then show ?case using emits_merge_uniform by (intro merge_uniform_pub_ok)
qed

text \<open>
  Subscribing to \<open>p\<close> with automatic flow control returns, hands the function \<open>f\<close> the values \<open>vs\<close> and
  then \<open>t\<close>, and leaves the heap, the reference counts, the subscriptions and the workers as they
  were before.
\<close>

definition runs_to_end ::
  "('v, 'u) publisher \<Rightarrow> ('v event \<Rightarrow> 'u \<Rightarrow> 'u) \<Rightarrow> 'v val list \<Rightarrow> Status \<Rightarrow> ('v, 'u) world \<Rightarrow> bool" where
  "runs_to_end p f vs t w \<longleftrightarrow>
     (\<exists>w'. Publisher_Subscribe_flow_control exec p f w = ret w' \<and> user w' = received f vs t (user w)
       \<and> heap w' = heap w \<and> refs w' = refs w \<and> impl w' = impl w \<and> queues w' = queues w \<and> wf_world w')"

lemma emits_runs:
  assumes "emits 1 p vs t" and "wf_world w"
  shows "runs_to_end (Some p) f vs t w"
  unfolding runs_to_end_def
  by (rule pub_ok_flow_control [OF emits_pub_ok [OF assms(1)] emits_terminal [OF assms(1)] assms(2)])

lemma wf_empty_world [simp]: "wf_world (empty_world u)"
  by (simp add: wf_world_def empty_world_def)

lemma received_buffering:
  "received buffering_next vs t (us, ss) = (us @ vs, ss @ [t])"
proof -
  have "fold (\<lambda>v. buffering_next (ValueRepr v)) vs (us, ss) = (us @ vs, ss)"
    by (induction vs arbitrary: us) (simp_all add: buffering_next_def)
  then show ?thesis by (simp add: received_def buffering_next_def)
qed

section \<open>Properties\<close>

text \<open>
  C1: every synchronous pipeline runs to its end. Subscribing with automatic flow control to any
  composition of generators, \<open>Map\<close>, \<open>StaticCast\<close>, \<open>Buffer\<close>, \<open>Concat\<close>, \<open>FlatMap\<close>, \<open>Prefetch\<close>
  and merges of generators returns without failing a check or touching freed memory, the subscriber has then
  received exactly the values and the terminal status the pipeline means, in order, and every
  stream, subscriber and subscription created on the way has been destroyed.
\<close>

theorem pipeline_runs_to_end:
  assumes "emits 1 p vs t" and "wf_world w"
  shows "runs_to_end (Some p) f vs t w"
  using assms by (rule emits_runs)

lemma emits_example:
  "emits 1 (ConcatPublisher
      (PrefetchingPublisher (CreateValuePublisher [Val (1 :: nat), Val 2]) (of_nat 2) (1 / 2))
      (ChainingPublisher (CreateValuePublisher [Val 3]) (CastFn (\<lambda>v. Vec [v]))))
    ([Val 1, Val 2] @ map (\<lambda>v. Vec [v]) [Val 3]) Done"
  by (rule emits_concat [where ?t1.0 = Done]; (intro emits_prefetch emits_cast emits_values)?) simp_all

theorem pipeline_runs_to_end_witness:
  "runs_to_end (Some (ConcatPublisher
      (PrefetchingPublisher (CreateValuePublisher [Val (1 :: nat), Val 2]) (of_nat 2) (1 / 2))
      (ChainingPublisher (CreateValuePublisher [Val 3]) (CastFn (\<lambda>v. Vec [v])))))
    buffering_next ([Val 1, Val 2] @ map (\<lambda>v. Vec [v]) [Val 3]) Done (empty_world ([], []))"
  using pipeline_runs_to_end [OF emits_example wf_empty_world] .

text \<open>
  A publisher of a vector of values delivers these values in order and then the end of the
  stream.
\<close>

theorem Publisher_values_delivers:
  assumes "length vs < 2 ^ 64" and "wf_world w"
  shows "runs_to_end (Publisher_values vs) f vs Done w"
  unfolding Publisher_values_def using assms by (intro emits_runs emits_values) simp_all

theorem Publisher_values_delivers_witness:
  "runs_to_end (Publisher_values [Val (1 :: nat), Val 2]) buffering_next [Val 1, Val 2] Done (empty_world ([], []))"
  using Publisher_values_delivers [OF _ wf_empty_world, of "[Val (1 :: nat), Val 2]"] by simp

text \<open>
  \<open>Map\<close> delivers the image of each value, in order, and passes the terminal status on, for a
  function that always returns a value.
\<close>

theorem Publisher_Map_delivers:
  assumes "emits 1 p vs t" and "\<And>v u. f v u = (ValueRepr (g v), u)" and "wf_world w"
  shows "\<exists>q. Publisher_Map f (Some p) = ret q \<and> runs_to_end q h (map g vs) t w"
  using emits_runs [OF emits_map [OF assms(1,2)] assms(3)] by (auto simp: Publisher_Map_def)

theorem Publisher_Map_delivers_witness:
  "\<exists>q. Publisher_Map (\<lambda>v u. (ValueRepr (Vec [v]), u)) (Some (CreateValuePublisher [Val (1 :: nat), Val 2])) = ret q
    \<and> runs_to_end q buffering_next (map (\<lambda>v. Vec [v]) [Val 1, Val 2]) Done (empty_world ([], []))"
  by (rule Publisher_Map_delivers) (simp_all add: emits_values)

text \<open>
  \<open>StaticCast\<close> delivers each value converted, in order, and passes the terminal status on.
\<close>

theorem Publisher_StaticCast_delivers:
  assumes "emits 1 p vs t" and "wf_world w"
  shows "\<exists>q. Publisher_StaticCast g (Some p) = ret q \<and> runs_to_end q h (map g vs) t w"
  using emits_runs [OF emits_cast [OF assms(1)] assms(2)] by (auto simp: Publisher_StaticCast_def)

theorem Publisher_StaticCast_delivers_witness:
  "\<exists>q. Publisher_StaticCast (\<lambda>v. Variant 0 v) (Some (CreateValuePublisher [Val (1 :: nat)])) = ret q
    \<and> runs_to_end q buffering_next (map (Variant 0) [Val 1]) Done (empty_world ([], []))"
  by (rule Publisher_StaticCast_delivers) (simp_all add: emits_values)

text \<open>
  C11: \<open>Buffer\<close> of size \<open>m\<close> cuts the values into consecutive chunks of \<open>m\<close> values. When the stream
  ends, the last chunk holds what is left; when it fails, an incomplete chunk is dropped.
\<close>

theorem Publisher_Buffer_delivers:
  assumes "emits (m * 3) p vs t" and "0 < m" and "m < 2 ^ 64" and "wf_world w"
  shows "(\<exists>q. Publisher_Buffer (of_nat m) (Some p) = ret q \<and>
      runs_to_end q h (map Vec (if code t = OUT_OF_RANGE then chunks m vs
        else filter (\<lambda>c. length c = m) (chunks m vs))) t w)
    \<and> concat (chunks m vs) = vs \<and> length (chunks m vs) = (length vs + m - 1) div m"
proof -
  have "emits 1 (ChainingPublisher p (BufferFn (of_nat m) [])) (buffer_out m t [] vs) t"
    using assms(1-3) by (rule emits_buffer_1)
  moreover have "buffer_out m t [] vs = map Vec (if code t = OUT_OF_RANGE then chunks m vs
        else filter (\<lambda>c. length c = m) (chunks m vs))"
    using assms(2) buffer_out_Done [of m "[]" t vs] buffer_out_error [of m "[]" t vs] by simp
  ultimately show ?thesis
    using emits_runs assms(2,4) by (auto simp: Publisher_Buffer_def concat_chunks length_chunks)
qed

theorem Publisher_Buffer_delivers_witness:
  "concat (chunks 2 [Val (1 :: nat), Val 2, Val 3]) = [Val (1 :: nat), Val 2, Val 3]"
  using Publisher_Buffer_delivers [where m = 2 and p = "CreateValuePublisher [Val (1 :: nat), Val 2, Val 3]"
      and h = buffering_next, OF emits_values [where K = "2 * 3"] _ _ wf_empty_world]
  by simp

text \<open>
  C12: \<open>Concat\<close> delivers the values of the first publisher and, after its end, the values and the
  terminal status of the second one.
\<close>

theorem Publisher_Concat_delivers:
  assumes "emits 1 p vs Done" and "emits 1 q ws t" and "wf_world w"
  shows "\<exists>r. Publisher_Concat (Some p) (Some q) = ret r \<and> runs_to_end r h (vs @ ws) t w"
  using emits_runs [OF emits_concat [OF assms(1) _ assms(2)] assms(3)] by (auto simp: Publisher_Concat_def)

theorem Publisher_Concat_delivers_witness:
  "\<exists>r. Publisher_Concat (Some (CreateValuePublisher [Val (1 :: nat)])) (Some (CreateValuePublisher [Val 2, Val 3])) = ret r
    \<and> runs_to_end r buffering_next ([Val 1] @ [Val 2, Val 3]) Done (empty_world ([], []))"
  by (rule Publisher_Concat_delivers) (simp_all add: emits_values)

text \<open>
  When the first publisher of a \<open>Concat\<close> fails, the error is delivered after its values and the
  second publisher is never subscribed to.
\<close>

theorem Publisher_Concat_error:
  assumes "emits 1 p vs t" and "IsError_status t" and "wf_world w"
  shows "\<exists>r. Publisher_Concat (Some p) (Some q) = ret r \<and> runs_to_end r h vs t w"
  using emits_runs [OF emits_concat_error [OF assms(1)] assms(3)] assms(2)
  by (auto simp: Publisher_Concat_def IsError_status_def IsDone_status_def)

lemma emits_error:
  assumes "code t \<noteq> OK" and "Suc K < pending_limit"
  shows "emits K (GeneratingPublisher st (\<lambda>x u. (StatusRepr t, x, u))) [] t"
  using assms by (intro emits_generator gen_emits.last [where st' = "\<lambda>_. st"]) simp_all

theorem Publisher_Concat_error_witness:
  "\<exists>r. Publisher_Concat (Some (GeneratingPublisher TriggerVal (\<lambda>x u. (StatusRepr (set_code ABORTED Status_default), x, u))))
      (Some (CreateValuePublisher [Val (1 :: nat)])) = ret r
    \<and> runs_to_end r buffering_next [] (set_code ABORTED Status_default) (empty_world ([], []))"
  by (rule Publisher_Concat_error) (simp_all add: emits_error IsError_status_def IsDone_status_def)

text \<open>
  C9: \<open>FlatMap\<close> delivers, for each value of the base in order, all values of the publisher the
  continuation returns for it, and then the terminal status of the base, when every such publisher
  ends without error.
\<close>

theorem Publisher_FlatMap_delivers:
  assumes "emits 1 p vs t"
    and "list_all2 (\<lambda>v ws. \<exists>q. (\<forall>u. kf v u = (Some q, u)) \<and> emits 1 q ws Done) vs wss" and "wf_world w"
  shows "\<exists>r. Publisher_FlatMap kf (Some p) = ret r \<and> runs_to_end r h (concat wss) t w"
proof -
  have "list_all2 (\<lambda>v ws. \<exists>q tc. (\<forall>u. kf v u = (Some q, u)) \<and> code tc = OUT_OF_RANGE \<and> emits 1 q ws tc) vs wss"
    using assms(2) by (rule list.rel_mono_strong) (metis code_Done)
  from emits_runs [OF emits_flatmap [OF assms(1) this] assms(3)] show ?thesis
    by (auto simp: Publisher_FlatMap_def)
qed

theorem Publisher_FlatMap_delivers_witness:
  "\<exists>r. Publisher_FlatMap (\<lambda>v u. (Some (CreateValuePublisher [v, v]), u)) (Some (CreateValuePublisher [Val (1 :: nat)])) = ret r
    \<and> runs_to_end r buffering_next (concat [[Val 1, Val 1]]) Done (empty_world ([], []))"
  by (rule Publisher_FlatMap_delivers [where vs = "[Val 1]"]) (simp_all add: emits_values)

text \<open>
  C13: \<open>Prefetch\<close> changes neither the values nor their order nor the terminal status, whatever its
  buffer size and refill mark.
\<close>

theorem Publisher_Prefetch_delivers:
  assumes "emits N p vs t" and "0 < N" and "N < 2 ^ 64 - 1" and "wf_world w"
  shows "\<exists>q. Publisher_Prefetch (of_nat N) mark (Some p) = ret q \<and> runs_to_end q h vs t w"
  using emits_runs [OF emits_prefetch [OF assms(1,2)] assms(4)] assms(3) by (auto simp: Publisher_Prefetch_def)

theorem Publisher_Prefetch_delivers_witness:
  "\<exists>q. Publisher_Prefetch (of_nat 3) 1 (Some (CreateValuePublisher [Val (1 :: nat), Val 2])) = ret q
    \<and> runs_to_end q buffering_next [Val 1, Val 2] Done (empty_world ([], []))"
  by (rule Publisher_Prefetch_delivers) (simp_all add: emits_values)

text \<open>
  C16: flattening undoes buffering. \<open>Buffer\<close> followed by a \<open>FlatMap\<close> that publishes the values of
  each chunk delivers the original stream.
\<close>

definition unbuffer :: "'v val \<Rightarrow> 'u \<Rightarrow> ('v, 'u) publisher \<times> 'u" where
  "unbuffer v u = (Publisher_values (case v of Vec xs \<Rightarrow> xs | _ \<Rightarrow> [v]), u)"

theorem Buffer_FlatMap_roundtrip:
  assumes "emits (m * 3) p vs Done" and "0 < m" and "m < 2 ^ 64" and "length vs < 2 ^ 64" and "wf_world w"
  shows "\<exists>r. bnd (Publisher_Buffer (of_nat m) (Some p)) (Publisher_FlatMap unbuffer) = ret r
    \<and> runs_to_end r h vs Done w"
proof -
  have b: "emits 1 (ChainingPublisher p (BufferFn (of_nat m) [])) (map Vec (chunks m vs)) Done"
    using emits_buffer_1 [OF assms(1-3)] buffer_out_Done [of m "[]" Done vs] assms(2) by simp
  have small: "length c < 2 ^ 64" if "c \<in> set (chunks m vs)" for c
  proof -
    have "length c \<le> length (concat (chunks m vs))"
      using that by (simp add: length_concat member_le_sum_list)
    then show ?thesis using assms(4) by (simp add: concat_chunks)
  qed
  have "list_all2 (\<lambda>v ws. \<exists>q tc. (\<forall>u. unbuffer v u = (Some q, u)) \<and> code tc = OUT_OF_RANGE \<and> emits 1 q ws tc)
      (map Vec (chunks m vs)) (chunks m vs)"
    using small by (auto simp: list_all2_conv_all_nth unbuffer_def Publisher_values_def
        intro!: exI [of _ Done] emits_values)
  from emits_runs [OF emits_flatmap [OF b this] assms(5)]
  show ?thesis by (simp add: Publisher_Buffer_def Publisher_FlatMap_def concat_chunks)
qed

theorem Buffer_FlatMap_roundtrip_witness:
  "\<exists>r. bnd (Publisher_Buffer (of_nat 2) (Some (CreateValuePublisher [Val (1 :: nat), Val 2, Val 3])))
      (Publisher_FlatMap unbuffer) = ret r
    \<and> runs_to_end r buffering_next [Val 1, Val 2, Val 3] Done (empty_world ([], []))"
  by (rule Buffer_FlatMap_roundtrip) (simp_all add: emits_values)

text \<open>
  A publisher of an error delivers nothing but this error; making one from a status that is OK
  or the end of a stream aborts.
\<close>

theorem Publisher_Error_delivers:
  assumes "wf_world w"
  shows "if IsError_status t then \<exists>p. Publisher_Error t = ret p \<and> runs_to_end p h [] t w
    else Publisher_Error t = (fail (CheckFailed ''status must indicate error'') :: ('v, 'u) publisher res)"
proof (cases "IsError_status t")
  case True
  then have "code t \<noteq> OK" by (simp add: IsError_status_def)
  from emits_runs [OF emits_error [OF this] assms] True show ?thesis by (simp add: Publisher_Error_def)
next
  case False
  then show ?thesis by (simp add: Publisher_Error_def)
qed

theorem Publisher_Error_delivers_witness:
  "\<exists>p. Publisher_Error (set_code ABORTED Status_default) = ret p
    \<and> runs_to_end p buffering_next [] (set_code ABORTED Status_default) (empty_world ([] :: nat val list, []))"
  using Publisher_Error_delivers [OF wf_empty_world, of "set_code ABORTED Status_default" buffering_next]
  by (simp add: IsError_status_def IsDone_status_def)

end
