(* ===== verification/Merge_Pipelines.thy ===== *)
theory Merge_Pipelines
  imports Pipelines "HOL-Library.Multiset"
begin

text \<open>
  What \<open>Merge\<close> and \<open>MergeUniform\<close> deliver: the values of each upstream in order, taken in turns.
\<close>

section \<open>The order of a merge\<close>

text \<open>The values of one upstream in a merged stream.\<close>

definition from_upstream :: "nat \<Rightarrow> 'v val list \<Rightarrow> 'v val list" where
  "from_upstream i vs = concat (map (\<lambda>v. case v of Variant j x \<Rightarrow> if j = i then [x] else [] | _ \<Rightarrow> []) vs)"

lemma from_upstream_simps [simp]:
  "from_upstream i [] = []"
  "from_upstream i (Variant j v # vs) = (if j = i then v # from_upstream i vs else from_upstream i vs)"
  by (simp_all add: from_upstream_def)

lemma from_upstream_round_robin:
  "distinct (map fst qs) \<Longrightarrow>
    from_upstream i (round_robin qs) = (case map_of qs i of None \<Rightarrow> [] | Some vs \<Rightarrow> vs)"
proof (induction qs rule: round_robin.induct)
  case (2 k qs)
  then have "map_of qs k = None" by (simp add: map_of_eq_None_iff)
  with 2 show ?case by simp
next
  case (3 k v vs qs)
  then have "map_of qs k = None" by (simp add: map_of_eq_None_iff)
  with 3 show ?case by (auto simp: map_add_def split: option.splits)
qed simp

lemma map_of_enumerate: "map_of (List.enumerate n xs) (n + i) = (if i < length xs then Some (xs ! i) else None)"
proof (cases "i < length xs")
  case True
  have "distinct (map fst (List.enumerate n xs))" by (simp add: enumerate_eq_zip)
  moreover have "(n + i, xs ! i) \<in> set (List.enumerate n xs)"
    using True by (simp add: in_set_enumerate_eq)
  ultimately show ?thesis using True by simp
next
  case False
  then show ?thesis by (auto simp: map_of_eq_None_iff in_set_enumerate_eq)
qed

lemma from_upstream_merge:
  "i < length vss \<Longrightarrow> from_upstream i (round_robin (List.enumerate 0 vss)) = vss ! i"
  using from_upstream_round_robin [of "List.enumerate 0 vss" i] map_of_enumerate [of 0 vss i]
  by (simp add: enumerate_eq_zip)

lemma length_round_robin: "length (round_robin qs) = sum_list (map (\<lambda>q. length (snd q)) qs)"
  by (induction qs rule: round_robin.induct) simp_all

lemma mset_take_turns: "mset (take_turns xss) = sum_list (map mset xss)"
  by (induction xss rule: take_turns.induct) (simp_all add: ac_simps)

text \<open>What a merge delivers until an error of one upstream, the others having had their share.\<close>

lemma map_of_snoc_fresh:
  "map_of qs k = None \<Longrightarrow> map_of (qs @ [(k, x)]) i = (if i = k then Some x else map_of qs i)"
  by (auto simp: map_add_def split: option.splits)

lemma from_upstream_merged:
  "distinct (map fst qs) \<Longrightarrow> merged qs = Some (us, t) \<Longrightarrow>
    (case map_of qs i of None \<Rightarrow> from_upstream i us = []
     | Some (vs, t') \<Rightarrow> prefix (from_upstream i us) vs \<and> (\<not> IsError_status t \<longrightarrow> from_upstream i us = vs))"
proof (induction qs arbitrary: us rule: merged.induct)
  case (2 k t' qs)
  then have k: "map_of qs k = None" by (simp add: map_of_eq_None_iff)
  show ?case
  proof (cases "IsError_status t'")
    case True
    with 2(3) have "us = []" "t = t'" by (simp_all split: if_splits)
    with True show ?thesis by (simp split: option.splits)
  next
    case False
    with 2(3) have "merged qs = Some (us, t)" by simp
    from 2(1) [OF False _ this] 2(2) k show ?thesis by (auto split: option.splits)
  qed
next
  case (3 k v vs t' qs)
  then have k: "map_of qs k = None" by (simp add: map_of_eq_None_iff)
  from 3(3) obtain us' where us: "merged (qs @ [(k, vs, t')]) = Some (us', t)" "us = Variant k v # us'"
    by auto
  from 3(1) [OF _ us(1)] 3(2) show ?case
    by (cases "i = k")
      (auto simp: us(2) k map_of_snoc_fresh [OF k] simp del: map_of_append map_of_eq_Some_iff split: option.splits)
qed simp

lemma merged_error:
  "distinct (map fst qs) \<Longrightarrow> merged qs = Some (us, t) \<Longrightarrow> IsError_status t \<Longrightarrow>
    \<exists>i. map_of qs i = Some (from_upstream i us, t)"
proof (induction qs arbitrary: us rule: merged.induct)
  case 1
  then show ?case by (auto simp: IsError_status_def IsDone_status_def)
next
  case (2 k t' qs)
  then have k: "map_of qs k = None" by (simp add: map_of_eq_None_iff)
  show ?case
  proof (cases "IsError_status t'")
    case True
    with 2(3) have "us = []" "t = t'" by (simp_all split: if_splits)
    then show ?thesis by (intro exI [of _ k]) simp
  next
    case False
    with 2(3) have "merged qs = Some (us, t)" by simp
    from 2(1) [OF False _ this 2(4)] 2(2) obtain i where "map_of qs i = Some (from_upstream i us, t)" by auto
    with k show ?thesis by (intro exI [of _ i]) auto
  qed
next
  case (3 k v vs t' qs)
  then have k: "map_of qs k = None" by (simp add: map_of_eq_None_iff)
  from 3(3) obtain us' where us: "merged (qs @ [(k, vs, t')]) = Some (us', t)" "us = Variant k v # us'"
    by auto
  have "distinct (map fst (qs @ [(k, vs, t')]))" using 3(2) by simp
  from 3(1) [OF this us(1) 3(4)] obtain i where "map_of (qs @ [(k, vs, t')]) i = Some (from_upstream i us', t)" ..
  then show ?case
    by (intro exI [of _ i])
      (simp add: us(2) map_of_snoc_fresh [OF k] del: map_of_append map_of_eq_Some_iff split: if_splits)
qed

text \<open>Upstreams that all end: the statuses are \<open>Done\<close>.\<close>

lemma rests_Done:
  "list_all2 (\<lambda>p vs. rests p vs Done) ps vss \<Longrightarrow>
    list_all2 (\<lambda>p (vs, t). rests p vs t) ps (map (\<lambda>vs. (vs, Done)) vss)"
  by (simp add: list.rel_map)

lemma rests_error: "code t \<noteq> OK \<Longrightarrow> rests (GeneratingPublisher st (\<lambda>x u. (StatusRepr t, x, u))) [] t"
  by (intro rests_generator gen_emits.last [where st' = "\<lambda>_. st"]) simp_all

lemma merged_enumerate_Done:
  "merged (List.enumerate 0 (map (\<lambda>vs. (vs, Done)) vss)) = Some (round_robin (List.enumerate 0 vss), Done)"
  using merged_Done [of "List.enumerate 0 vss"] by (simp add: enumerate_map_upt enumerate_eq_zip zip_map2)

lemma move_impls_Some [simp]: "move_impls (map Some ps) = ret ps"
  by (induction ps) simp_all

section \<open>Properties\<close>

text \<open>
  C6: \<open>Merge\<close> of generators, under maps and casts, delivers the values of its upstreams round robin,
  tagged with the index of the upstream, then the end, and frees everything. So the values of each
  upstream arrive in order, and there are no others.
\<close>

theorem Publisher_Merge_delivers:
  assumes "list_all2 (\<lambda>p vs. rests p vs Done) (p # ps) vss" and "wf_world w"
  shows "\<exists>q vs. Publisher_Merge (Some p) (map Some ps) = ret q \<and> runs_to_end q h vs Done w
    \<and> vs = round_robin (List.enumerate 0 vss) \<and> (\<forall>i<length vss. from_upstream i vs = vss ! i)
    \<and> length vs = sum_list (map length vss)"
proof -
  have "runs_to_end (Some (MergePublisher (p # ps))) h (round_robin (List.enumerate 0 vss)) Done w"
    by (rule emits_runs [OF emits_merge [OF rests_Done [OF assms(1)] _ merged_enumerate_Done] assms(2)]) simp_all
  moreover have "map (\<lambda>q. length (snd q)) (List.enumerate 0 vss) = map length vss"
    using map_map [of length snd "List.enumerate 0 vss"] by (simp add: comp_def)
  ultimately show ?thesis
    by (auto simp: Publisher_Merge_def from_upstream_merge length_round_robin)
qed

theorem Publisher_Merge_delivers_witness:
  "\<exists>q. Publisher_Merge (Some (CreateValuePublisher [Val (1 :: nat)])) [Some (CreateValuePublisher [Val 2, Val 3])] = ret q
    \<and> runs_to_end q buffering_next [Variant 0 (Val 1), Variant 1 (Val 2), Variant 1 (Val 3)] Done (empty_world ([], []))"
proof -
  have "list_all2 (\<lambda>p vs. rests p vs Done) [CreateValuePublisher [Val (1 :: nat)], CreateValuePublisher [Val 2, Val 3]]
      [[Val 1], [Val 2, Val 3]]"
    by (simp add: rests_values)
  from Publisher_Merge_delivers [OF this wf_empty_world [of "([], [])"], of buffering_next] obtain q where
    "Publisher_Merge (Some (CreateValuePublisher [Val (1 :: nat)])) (map Some [CreateValuePublisher [Val 2, Val 3]]) = ret q"
    "runs_to_end q buffering_next (round_robin (List.enumerate 0 [[Val 1], [Val 2, Val 3]])) Done (empty_world ([], []))"
    by blast
  then show ?thesis by simp
qed

text \<open>
  C7: An upstream of \<open>Merge\<close> that ends with an error ends the merge, if no other upstream has its end
  pending in the same round. The reader gets what was taken before, of each upstream a prefix of its values
  in order, and then the error; the upstream that failed has delivered all its values. The streams of the
  others are cancelled: nothing of them or of the merge is left in the world.
\<close>

theorem Publisher_Merge_error:
  assumes "list_all2 (\<lambda>p (vs, t). rests p vs t) (p # ps) es"
    and "merged (List.enumerate 0 es) = Some (us, t)" and "IsError_status t" and "wf_world w"
  shows "\<exists>q. Publisher_Merge (Some p) (map Some ps) = ret q \<and> runs_to_end q h us t w
    \<and> (\<forall>i<length es. prefix (from_upstream i us) (fst (es ! i)))
    \<and> (\<exists>i<length es. es ! i = (from_upstream i us, t))"
proof -
  have d: "distinct (map fst (List.enumerate 0 es))" by (simp add: enumerate_eq_zip)
  have m: "map_of (List.enumerate 0 es) i = (if i < length es then Some (es ! i) else None)" for i
    using map_of_enumerate [of 0 es i] by simp
  have "runs_to_end (Some (MergePublisher (p # ps))) h us t w"
    by (rule emits_runs [OF emits_merge [OF assms(1) _ assms(2)] assms(4)]) simp_all
  moreover have "prefix (from_upstream i us) (fst (es ! i))" if "i < length es" for i
    using from_upstream_merged [OF d assms(2), of i] that by (simp add: m split: prod.splits)
  moreover from merged_error [OF d assms(2,3)] have "\<exists>i<length es. es ! i = (from_upstream i us, t)"
    by (auto simp: m split: if_splits)
  ultimately show ?thesis by (simp add: Publisher_Merge_def)
qed

theorem Publisher_Merge_error_witness:
  "\<exists>q. Publisher_Merge (Some (CreateValuePublisher [Val (1 :: nat), Val 2]))
      [Some (GeneratingPublisher TriggerVal (\<lambda>x u. (StatusRepr (set_code ABORTED Status_default), x, u)))] = ret q
    \<and> runs_to_end q buffering_next [Variant 0 (Val 1)] (set_code ABORTED Status_default) (empty_world ([], []))"
proof -
  let ?ps = "[CreateValuePublisher [Val (1 :: nat), Val 2], GeneratingPublisher TriggerVal (\<lambda>x u. (StatusRepr (set_code ABORTED Status_default), x, u))]"
  have "list_all2 (\<lambda>p (vs, t). rests p vs t) ?ps [([Val 1, Val 2], Done), ([], (set_code ABORTED Status_default))]"
    by (simp add: rests_values rests_error)
  from Publisher_Merge_error [OF this _ _ wf_empty_world [of "([], [])"], of "[Variant 0 (Val 1)]" "set_code ABORTED Status_default" buffering_next]
  show ?thesis by (auto simp: IsError_status_def IsDone_status_def)
qed

text \<open>
  C14: \<open>MergeUniform\<close> delivers the values of its upstreams in turns, untagged; none is lost and none is
  delivered twice.
\<close>

theorem Publisher_MergeUniform_delivers:
  assumes "list_all2 (\<lambda>p vs. rests p vs Done) (p # ps) vss" and "wf_world w"
  shows "\<exists>q vs. Publisher_MergeUniform (Some p) (map Some ps) = ret q \<and> runs_to_end q h vs Done w
    \<and> vs = take_turns vss \<and> mset vs = sum_list (map mset vss)"
proof -
  have "runs_to_end (Some (MergeUniformPublisher (p # ps))) h (take_turns vss) Done w"
    by (rule emits_runs [OF emits_merge_uniform [OF rests_Done [OF assms(1)] _ turns_until_Done] assms(2)]) simp_all
  then show ?thesis by (auto simp: Publisher_MergeUniform_def mset_take_turns)
qed

theorem Publisher_MergeUniform_delivers_witness:
  "\<exists>q. Publisher_MergeUniform (Some (CreateValuePublisher [Val (1 :: nat)])) [Some (CreateValuePublisher [Val 2, Val 3])] = ret q
    \<and> runs_to_end q buffering_next [Val 1, Val 2, Val 3] Done (empty_world ([], []))"
proof -
  have "list_all2 (\<lambda>p vs. rests p vs Done) [CreateValuePublisher [Val (1 :: nat)], CreateValuePublisher [Val 2, Val 3]]
      [[Val 1], [Val 2, Val 3]]"
    by (simp add: rests_values)
  from Publisher_MergeUniform_delivers [OF this wf_empty_world [of "([], [])"], of buffering_next] show ?thesis
    by simp
qed

end
