(* ===== verification/Demand.thy ===== *)
theory Demand
  imports Merge_Pipelines
begin

text \<open>
  Streams driven from outside: a subscriber that asks for nothing itself and leaves its subscription
  to its owner, who requests one event at a time and may cancel between two requests.
\<close>

section \<open>A passive subscriber\<close>

text \<open>It hands its subscription out by \<open>k\<close> and every event to \<open>f\<close>.\<close>

definition Passive_Subscribe ::
  "('v, 'u) publisher \<Rightarrow> (sid \<Rightarrow> 'u \<Rightarrow> 'u) \<Rightarrow> ('v event \<Rightarrow> 'u \<Rightarrow> 'u) \<Rightarrow> ('v, 'u) world \<Rightarrow> ('v, 'u) world res" where
  "Passive_Subscribe p k f w =
     Publisher_Subscribe_functions exec p (SubscribeUser [\<lambda>s _ u. (k s u, NoAction)])
       (NextUser (\<lambda>e. [\<lambda>_ _ u. (f e u, NoAction)])) w"

primrec request_times :: "nat \<Rightarrow> sid \<Rightarrow> ('v, 'u) world \<Rightarrow> ('v, 'u) world res" where
  "request_times 0 s w = ret w"
| "request_times (Suc n) s w = bnd (Subscription_Request exec s 1 w) (request_times n s)"

definition passive_at :: "addr \<Rightarrow> (sid \<Rightarrow> 'u \<Rightarrow> 'u) \<Rightarrow> ('v event \<Rightarrow> 'u \<Rightarrow> 'u) \<Rightarrow> ('v, 'u) world \<Rightarrow> bool" where
  "passive_at d k f w \<longleftrightarrow> heap w d = Some (FunctionalSubscriber (SubscribeUser [\<lambda>s _ u. (k s u, NoAction)])
     (NextUser (\<lambda>e. [\<lambda>_ _ u. (f e u, NoAction)]))) \<and> refs w d = 0"

lemma passive_calls:
  assumes "passive_at d k f w"
  shows "exec (OnSubscribe d s) w = ret (w\<lparr>user := k s (user w)\<rparr>)"
    and "exec (OnNext d s e) w = ret (w\<lparr>user := f e (user w)\<rparr>)"
    and "exec (Destroy d) w = ret (free d w)"
  using assms
  by (simp_all add: passive_at_def exec_OnSubscribe exec_OnNext exec_Destroy FunctionalSubscriber_OnSubscribe_def
      FunctionalSubscriber_OnNext_def)

lemma passive_quiet:
  "passive_at d k f w \<Longrightarrow> wf_world w \<Longrightarrow> UserState \<notin> U \<Longrightarrow> quiet_next d s U e w (w\<lparr>user := f e (user w)\<rparr>)"
  by (simp add: quiet_next_def passive_calls)

lemma passive_at_same_except: "passive_at d k f w \<Longrightarrow> same_except L w w' \<Longrightarrow> Cell d \<notin> L \<Longrightarrow> passive_at d k f w'"
  by (auto simp: passive_at_def same_except_alt)

section \<open>One request\<close>

definition driven ::
  "addr \<Rightarrow> (sid \<Rightarrow> 'u \<Rightarrow> 'u) \<Rightarrow> ('v event \<Rightarrow> 'u \<Rightarrow> 'u) \<Rightarrow> sid \<Rightarrow> loc set \<Rightarrow> Status \<Rightarrow> 'v val list
    \<Rightarrow> ('v, 'u) world \<Rightarrow> bool" where
  "driven d k f s U t vs w \<longleftrightarrow> resumable d s U t vs w \<and> passive_at d k f w \<and> wf_world w
     \<and> U \<union> {Cell d, UserState} \<subseteq> old w \<and> U \<inter> {Cell d, UserState} = {}"

lemma driven_value:
  assumes dr: "driven d k f s U t (v # vs) w"
  shows "\<exists>w'. Subscription_Request exec s 1 w = ret w' \<and> driven d k f s U t vs w'
    \<and> same_except (U \<union> {UserState}) w w' \<and> user w' = f (ValueRepr v) (user w)"
proof -
  have own: "Cell d \<notin> U" "UserState \<notin> U" and wf: "wf_world w" "U \<subseteq> old w" and p: "passive_at d k f w"
    and r: "resumable d s U t (v # vs) w" using dr by (auto simp: driven_def simp del: resumable.simps)
  obtain wm where wm: "same_except U w wm"
    and step: "\<And>w2. quiet_next d s U (ValueRepr v) wm w2 \<Longrightarrow>
      \<exists>w3. Subscription_Request exec s 1 w = ret w3 \<and> same_except U w2 w3 \<and> resumable d s U t vs w3"
    using resumable_ConsD [OF r wf] by blast
  have pm: "passive_at d k f wm" and wfm: "wf_world wm"
    using passive_at_same_except [OF p wm own(1)] wf_world_same_except [OF wf(1) wm wf(2)] .
  let ?w2 = "wm\<lparr>user := f (ValueRepr v) (user wm)\<rparr>"
  obtain w3 where 3: "Subscription_Request exec s 1 w = ret w3" "same_except U ?w2 w3" "resumable d s U t vs w3"
    using step [OF passive_quiet [OF pm wfm own(2)]] by blast
  have s3: "same_except (U \<union> {UserState}) w w3"
  proof -
    have "same_except (U \<union> {UserState}) w wm" by (rule same_except_widen [OF wm])
    then have "same_except (U \<union> {UserState}) w ?w2" by simp
    also have "same_except (U \<union> {UserState}) ?w2 w3" by (rule same_except_widen [OF 3(2)])
    finally show ?thesis .
  qed
  have "driven d k f s U t vs w3"
    using 3(3) passive_at_same_except [OF p s3] own wf_world_same_except [OF wf(1) s3]
      same_except_old [OF s3, of "U \<union> {Cell d, UserState}"] dr
    by (simp add: driven_def)
  moreover have "user w3 = f (ValueRepr v) (user w)"
    using same_exceptD(4) [OF wm own(2)] same_exceptD(4) [OF 3(2) own(2)] by simp
  ultimately show ?thesis using 3(1) s3 by blast
qed

lemma driven_end:
  assumes dr: "driven d k f s U t [] w"
  shows "\<exists>w'. Subscription_Request exec s 1 w = ret w' \<and> same_except (U \<union> {Cell d, UserState}) w w'
    \<and> (\<forall>l\<in>insert (Cell d) U. blank_at w' l) \<and> user w' = f (StatusRepr t) (user w)"
proof -
  have own: "Cell d \<notin> U" "UserState \<notin> U" and wf: "wf_world w" "U \<subseteq> old w" and p: "passive_at d k f w"
    and r: "resumable d s U t [] w" using dr by (auto simp: driven_def simp del: resumable.simps)
  obtain wm where wm: "same_except U w wm"
    and step: "\<And>w2. quiet_next d s U (StatusRepr t) wm w2 \<Longrightarrow>
      \<exists>w3. Subscription_Request exec s 1 w = exec (Destroy d) w3 \<and> same_except U w2 w3 \<and> (\<forall>l\<in>U. blank_at w3 l)"
    using resumable_NilD [OF r wf] by blast
  have pm: "passive_at d k f wm" and wfm: "wf_world wm"
    using passive_at_same_except [OF p wm own(1)] wf_world_same_except [OF wf(1) wm wf(2)] .
  let ?w2 = "wm\<lparr>user := f (StatusRepr t) (user wm)\<rparr>"
  obtain w3 where 3: "Subscription_Request exec s 1 w = exec (Destroy d) w3" "same_except U ?w2 w3" "\<forall>l\<in>U. blank_at w3 l"
    using step [OF passive_quiet [OF pm wfm own(2)]] by blast
  have s3: "same_except (U \<union> {Cell d, UserState}) w w3"
  proof -
    have "same_except (U \<union> {Cell d, UserState}) w wm" by (rule same_except_widen [OF wm])
    then have "same_except (U \<union> {Cell d, UserState}) w ?w2" by simp
    also have "same_except (U \<union> {Cell d, UserState}) ?w2 w3" by (rule same_except_widen [OF 3(2)])
    finally show ?thesis .
  qed
  have "passive_at d k f ?w2" using pm by (simp add: passive_at_def)
  then have p3: "passive_at d k f w3" by (rule passive_at_same_except [OF _ 3(2) own(1)])
  have "blank_at (free d w3) l" if "l \<in> insert (Cell d) U" for l
  proof (cases "l = Cell d")
    case True
    then show ?thesis using p3 by (simp add: passive_at_def)
  next
    case False
    then have "blank_at w3 l" using that 3(3) by blast
    then show ?thesis by (cases l) simp_all
  qed
  moreover have "user (free d w3) = f (StatusRepr t) (user w)"
    using same_exceptD(4) [OF wm own(2)] same_exceptD(4) [OF 3(2) own(2)] by simp
  ultimately show ?thesis using 3(1) s3 passive_calls(3) [OF p3] by (intro exI [of _ "free d w3"]) simp
qed

lemma driven_cancel:
  assumes dr: "driven d k f s U t vs w"
  shows "\<exists>w'. Subscription_Cancel exec s w = ret w' \<and> same_except (U \<union> {Cell d}) w w'
    \<and> (\<forall>l\<in>insert (Cell d) U. blank_at w' l)"
proof -
  have own: "Cell d \<notin> U" and wf: "wf_world w" "U \<subseteq> old w" and p: "passive_at d k f w"
    and r: "resumable d s U t vs w" using dr by (auto simp: driven_def simp del: resumable.simps)
  obtain w3 where 3: "Subscription_Cancel exec s w = exec (Destroy d) w3" "same_except U w w3" "\<forall>l\<in>U. blank_at w3 l"
    using resumable_cancels [OF r wf] by (auto simp: cancels_def)
  have p3: "passive_at d k f w3" by (rule passive_at_same_except [OF p 3(2) own])
  have "blank_at (free d w3) l" if "l \<in> insert (Cell d) U" for l
  proof (cases "l = Cell d")
    case True
    then show ?thesis using p3 by (simp add: passive_at_def)
  next
    case False
    then have "blank_at w3 l" using that 3(3) by blast
    then show ?thesis by (cases l) simp_all
  qed
  then show ?thesis
    using 3(1) same_except_widen [OF 3(2), of "{Cell d}"] passive_calls(3) [OF p3] by (intro exI [of _ "free d w3"]) simp
qed

section \<open>Any number of requests\<close>

lemma driven_values:
  "driven d k f s U t vs w \<Longrightarrow> n \<le> length vs \<Longrightarrow>
    \<exists>w'. request_times n s w = ret w' \<and> driven d k f s U t (drop n vs) w' \<and> same_except (U \<union> {UserState}) w w'
      \<and> user w' = fold (\<lambda>v. f (ValueRepr v)) (take n vs) (user w)"
proof (induction n arbitrary: vs w)
  case 0
  then show ?case by simp
next
  case (Suc n)
  then obtain v vs' where vs: "vs = v # vs'" by (cases vs) auto
  obtain w1 where 1: "Subscription_Request exec s 1 w = ret w1" "driven d k f s U t vs' w1"
    "same_except (U \<union> {UserState}) w w1" "user w1 = f (ValueRepr v) (user w)"
    using driven_value [OF Suc.prems(1) [unfolded vs]] by blast
  obtain w2 where "request_times n s w1 = ret w2" "driven d k f s U t (drop n vs') w2"
    "same_except (U \<union> {UserState}) w1 w2" "user w2 = fold (\<lambda>v. f (ValueRepr v)) (take n vs') (user w1)"
    using Suc.IH [OF 1(2)] Suc.prems(2) by (auto simp: vs)
  with 1 show ?case by (auto simp: vs intro: same_except_trans)
qed

lemma request_times_Suc_end:
  fixes w :: "('v, 'u) world"
  shows "request_times (Suc n) s w = bnd (request_times n s w) (Subscription_Request exec s 1)"
proof (induction n arbitrary: w)
  case 0
  have "request_times 0 s = (ret :: ('v, 'u) world \<Rightarrow> _)" by (rule ext) simp
  then show ?case by simp
next
  case (Suc n)
  have "request_times (Suc n) s = (\<lambda>w :: ('v, 'u) world. bnd (request_times n s w) (Subscription_Request exec s 1))"
    by (rule ext) (rule Suc)
  then have "request_times (Suc (Suc n)) s w = bnd (bnd (Subscription_Request exec s 1 w) (request_times n s)) (Subscription_Request exec s 1)"
    by (simp only: request_times.simps(2) [of "Suc n"] bnd_assoc)
  then show ?case by simp
qed

lemma passive_subscription:
  fixes w :: "('v, 'u) world"
  assumes "rests p vs t" and wf: "wf_world w"
  shows "\<exists>s U w1. Passive_Subscribe (Some p) k f w = ret w1 \<and> driven (next_addr w) k f s U t vs w1
    \<and> same_except (U \<union> {Cell (next_addr w), UserState}) w w1 \<and> U \<inter> old w = {} \<and> user w1 = k s (user w)"
proof -
  let ?d = "next_addr w"
  define w0 where "w0 = Subscriber_Make (SubscribeUser [\<lambda>s _ u. (k s u, NoAction)])
    (NextUser (\<lambda>e. [\<lambda>_ _ u. (f e u, NoAction)])) w"
  have p0: "passive_at ?d k f w0" using wf by (simp add: passive_at_def w0_def Subscriber_Make_def wf_worldD)
  have w0: "wf_world w0" "?d < next_addr w0" "same_except {Cell ?d} w w0" "user w0 = user w"
    using wf by (simp_all add: w0_def Subscriber_Make_def)
  obtain s U wm where m: "exec (DoSubscribe p ?d) w0 = exec (OnSubscribe ?d s) wm" "same_except U w0 wm" "U \<inter> old w0 = {}"
    "U \<subseteq> old wm" "wf_world wm" "resumable ?d s U t vs wm"
    using rests_resumable [OF assms(1)] w0(1,2) unfolding pub_resumable_def by blast
  have own: "U \<inter> {Cell ?d, UserState} = {}" using m(3) w0(2) by auto
  have pm: "passive_at ?d k f wm" using passive_at_same_except [OF p0 m(2)] own by simp
  let ?w1 = "wm\<lparr>user := k s (user wm)\<rparr>"
  have "Passive_Subscribe (Some p) k f w = ret ?w1"
    using m(1) passive_calls(1) [OF pm]
    by (simp add: Passive_Subscribe_def Publisher_Subscribe_functions_def w0_def [symmetric])
  moreover have "driven ?d k f s U t vs ?w1"
    unfolding driven_def
  proof (intro conjI)
    show "resumable ?d s U t vs ?w1" by (rule resumable_stable [OF m(6)]) (use own in simp)
    show "U \<union> {Cell ?d, UserState} \<subseteq> old ?w1" using m(4) same_except_old [OF m(2), of "{Cell ?d}"] w0(2) by simp
  qed (use pm m(5) own in \<open>simp_all add: passive_at_def\<close>)
  moreover have "same_except (U \<union> {Cell ?d, UserState}) w ?w1"
  proof -
    have "same_except (U \<union> {Cell ?d, UserState}) w w0" by (rule same_except_mono [OF w0(3)]) auto
    also have "same_except (U \<union> {Cell ?d, UserState}) w0 wm" by (rule same_except_widen [OF m(2)])
    finally show ?thesis by simp
  qed
  moreover have "U \<inter> old w = {}" using m(3) same_except_old [OF w0(3) subset_refl] by auto
  moreover have "user ?w1 = k s (user w)" using same_exceptD(4) [OF m(2)] own w0(4) by simp
  ultimately show ?thesis by blast
qed

lemma same_except_user_fields:
  assumes "same_except {UserState} w w'"
  shows "heap w' = heap w" "refs w' = refs w" "impl w' = impl w" "queues w' = queues w"
  using same_exceptD [OF assms] by (auto simp: fun_eq_iff)

text \<open>What a subscription leaves behind when it is over: the state of the user.\<close>

lemma subscription_over:
  assumes "same_except (U \<union> {Cell (next_addr w), UserState}) w w'" and "U \<inter> old w = {}" and "wf_world w"
    and "\<forall>l\<in>insert (Cell (next_addr w)) U. blank_at w' l"
  shows "heap w' = heap w" "refs w' = refs w" "impl w' = impl w" "queues w' = queues w"
proof -
  have "{UserState} \<union> insert (Cell (next_addr w)) U = U \<union> {Cell (next_addr w), UserState}" by auto
  then have "same_except {UserState} w w'"
    using assms by (intro same_except_blank [of "{UserState}" "insert (Cell (next_addr w)) U"]) auto
  from same_except_user_fields [OF this] show "heap w' = heap w" "refs w' = refs w" "impl w' = impl w" "queues w' = queues w" .
qed

section \<open>Properties\<close>


lemma rests_two: "rests (CreateValuePublisher [Val (1 :: nat), Val 2]) [Val 1, Val 2] Done"
  by (rule rests_values) simp




end
