(* ===== verification/Task_Runs.thy ===== *)
theory Task_Runs
  imports Resumable_Contract
begin

text \<open>
  What the task of an activity leads to, whatever the other activities do in the meantime: an
  activity owns a set of locations, has one task queued at a time, and running that task changes
  only what it owns and queues the next one.
\<close>

section \<open>Frames that ignore the queues\<close>

definition unchanged :: "loc set \<Rightarrow> ('v, 'u) world \<Rightarrow> ('v, 'u) world \<Rightarrow> bool" where
  "unchanged L w w' \<longleftrightarrow> same_on (- L) w w' \<and> next_addr w \<le> next_addr w' \<and> next_sid w \<le> next_sid w'"

lemma same_except_unchanged: "same_except L w w' \<Longrightarrow> L \<subseteq> M \<Longrightarrow> unchanged M w w'"
  by (auto simp: unchanged_def same_except_def same_on_def)

lemma unchanged_refl [simp]: "unchanged L w w"
  by (simp add: unchanged_def)

lemma unchanged_trans [trans]: "unchanged L w w' \<Longrightarrow> unchanged L w' w'' \<Longrightarrow> unchanged L w w''"
  by (auto simp: unchanged_def intro: same_on_trans)

lemma unchanged_mono: "unchanged L w w' \<Longrightarrow> L \<subseteq> M \<Longrightarrow> unchanged M w w'"
  by (auto simp: unchanged_def same_on_def)

lemma unchanged_same_on: "unchanged L w w' \<Longrightarrow> L \<inter> M = {} \<Longrightarrow> same_on M w w'"
  unfolding unchanged_def by (elim conjE) (erule same_on_subset, auto)

lemma unchanged_old: "unchanged L w w' \<Longrightarrow> M \<subseteq> old w \<Longrightarrow> M \<subseteq> old w'"
  using old_mono unfolding unchanged_def by blast

text \<open>The queues are no location.\<close>

lemma schedule_simps [simp]:
  "heap (schedule k t w) = heap w" "refs (schedule k t w) = refs w" "impl (schedule k t w) = impl w"
  "user (schedule k t w) = user w" "next_addr (schedule k t w) = next_addr w" "next_sid (schedule k t w) = next_sid w"
  "queues (schedule k t w) = (queues w)(k := queues w k @ [t])"
  "wf_world (schedule k t w) \<longleftrightarrow> wf_world w" "old (schedule k t w) = old w"
  by (simp_all add: schedule_def wf_world_def old_def cong: loc.case_cong)

lemma schedule_user [simp]: "(schedule k t w)\<lparr>user := u\<rparr> = schedule k t (w\<lparr>user := u\<rparr>)"
  by (simp add: schedule_def)

lemma set_queues_simps [simp]:
  "wf_world (w\<lparr>queues := q\<rparr>) \<longleftrightarrow> wf_world w" "old (w\<lparr>queues := q\<rparr>) = old w"
  by (simp_all add: wf_world_def old_def cong: loc.case_cong)

lemma same_on_queues [simp]:
  "same_on L w (w'\<lparr>queues := q\<rparr>) \<longleftrightarrow> same_on L w w'" "same_on L (w\<lparr>queues := q\<rparr>) w' \<longleftrightarrow> same_on L w w'"
  "same_on L w (schedule k t w') \<longleftrightarrow> same_on L w w'" "same_on L (schedule k t w) w' \<longleftrightarrow> same_on L w w'"
  by (simp_all add: same_on_alt schedule_def)

lemma unchanged_queues [simp]:
  "unchanged L w (w'\<lparr>queues := q\<rparr>) \<longleftrightarrow> unchanged L w w'" "unchanged L (w\<lparr>queues := q\<rparr>) w' \<longleftrightarrow> unchanged L w w'"
  "unchanged L w (schedule k t w') \<longleftrightarrow> unchanged L w w'" "unchanged L (schedule k t w) w' \<longleftrightarrow> unchanged L w w'"
  by (simp_all add: unchanged_def)

section \<open>Moves of an activity\<close>

text \<open>
  An activity that owns the locations \<open>U\<close> may allocate more and change its own; what it owns then
  is \<open>U'\<close>.
\<close>

definition moves :: "loc set \<Rightarrow> loc set \<Rightarrow> ('v, 'u) world \<Rightarrow> ('v, 'u) world \<Rightarrow> bool" where
  "moves U U' w w' \<longleftrightarrow> unchanged U' w w' \<and> wf_world w' \<and> U \<subseteq> U' \<and> U' \<subseteq> old w' \<and> U' \<inter> old w \<subseteq> U"

lemma moves_queues [simp]:
  "moves U U' (w\<lparr>queues := q\<rparr>) w' \<longleftrightarrow> moves U U' w w'" "moves U U' w (w'\<lparr>queues := q\<rparr>) \<longleftrightarrow> moves U U' w w'"
  "moves U U' (schedule k t w) w' \<longleftrightarrow> moves U U' w w'" "moves U U' w (schedule k t w') \<longleftrightarrow> moves U U' w w'"
  by (simp_all add: moves_def)

lemma moves_refl: "wf_world w \<Longrightarrow> U \<subseteq> old w \<Longrightarrow> moves U U w w"
  by (simp add: moves_def)

lemma moves_trans:
  assumes "moves U U' w w'" and "moves U' U'' w' w''"
  shows "moves U U'' w w''"
proof -
  have "unchanged U'' w w''"
    using assms by (auto simp: moves_def intro: unchanged_trans unchanged_mono)
  moreover have "old w \<subseteq> old w'" using assms(1) unchanged_old [of U' w w' "old w"] by (simp add: moves_def)
  ultimately show ?thesis using assms by (auto simp: moves_def)
qed

lemma moves_same_except: "moves U U' w w' \<Longrightarrow> same_except U' w' w'' \<Longrightarrow> moves U U' w w''"
  using wf_world_same_except [of w' U' w''] same_except_old [of U' w' w'' U']
    unchanged_trans [of U' w w' w''] same_except_unchanged [of U' w' w'' U'] by (simp add: moves_def)

lemma moves_created: "same_except U w w' \<Longrightarrow> U \<inter> old w = {} \<Longrightarrow> U \<subseteq> old w' \<Longrightarrow> wf_world w' \<Longrightarrow> moves {} U w w'"
  by (simp add: moves_def same_except_unchanged)

lemma moves_user: "moves U U' w w' \<Longrightarrow> UserState \<notin> U \<Longrightarrow> UserState \<notin> U' \<and> user w' = user w"
proof -
  assume m: "moves U U' w w'" and "UserState \<notin> U"
  then have "UserState \<notin> U'" using old_simps(3) [of w] unfolding moves_def by blast
  then show ?thesis using m unchanged_same_on [of U' w w' "{UserState}"] by (simp add: moves_def)
qed

text \<open>Another party with locations \<open>X\<close> stays as it is, and the frames compose.\<close>

lemma moves_apart: "moves U U' w w' \<Longrightarrow> X \<subseteq> old w \<Longrightarrow> X \<inter> U = {} \<Longrightarrow> X \<inter> U' = {} \<and> X \<subseteq> old w' \<and> same_on X w w'"
proof -
  assume m: "moves U U' w w'" and X: "X \<subseteq> old w" "X \<inter> U = {}"
  then have "X \<inter> U' = {}" by (auto simp: moves_def)
  then show ?thesis using m X(1) unchanged_same_on [of U' w w' X] unchanged_old [of U' w w' X] by (auto simp: moves_def)
qed

lemma moves_widen: "moves U U' w w' \<Longrightarrow> X \<subseteq> old w \<Longrightarrow> moves (U \<union> X) (U' \<union> X) w w'"
  using unchanged_mono [of U' w w' "U' \<union> X"] unchanged_old [of U' w w' X] by (auto simp: moves_def)

section \<open>Where a task leads\<close>

text \<open>Situations as in \<open>w\<close> for an activity with the locations \<open>U\<close>.\<close>

definition seen_as :: "loc set \<Rightarrow> ('v, 'u) world \<Rightarrow> ('v, 'u) world \<Rightarrow> bool" where
  "seen_as U w w' \<longleftrightarrow> same_on U w w' \<and> wf_world w' \<and> U \<subseteq> old w'"

lemma seen_as_trans: "same_on U w w' \<Longrightarrow> seen_as U w' w'' \<Longrightarrow> seen_as U w w''"
  unfolding seen_as_def by (meson same_on_trans)

lemma seen_as_refl: "wf_world w \<Longrightarrow> U \<subseteq> old w \<Longrightarrow> seen_as U w w"
  by (simp add: seen_as_def)

definition enqueued :: "worker_id \<Rightarrow> ('v, 'u) task \<Rightarrow> ('v, 'u) world \<Rightarrow> ('v, 'u) world \<Rightarrow> bool" where
  "enqueued k T w w' \<longleftrightarrow> queues w' = (queues w)(k := queues w k @ [T])"

lemma enqueued_schedule [simp]: "queues w' = queues w \<Longrightarrow> enqueued k T w (schedule k T w')"
  by (simp add: enqueued_def)

text \<open>
  Task \<open>T\<close> leads, over \<open>n\<close> tasks one after the other, to a task for which \<open>H\<close> holds.
\<close>

primrec leads_to ::
  "nat \<Rightarrow> (loc set \<Rightarrow> ('v, 'u) task \<Rightarrow> ('v, 'u) world \<Rightarrow> bool) \<Rightarrow> loc set \<Rightarrow> ('v, 'u) task \<Rightarrow> ('v, 'u) world \<Rightarrow> bool" where
  "leads_to 0 H U T w \<longleftrightarrow> (\<forall>w1. seen_as U w w1 \<longrightarrow> H U T w1)"
| "leads_to (Suc n) H U T w \<longleftrightarrow> (\<forall>w1. seen_as U w w1 \<longrightarrow>
     (\<exists>U' w2 k' T'. run_task exec T w1 = ret w2 \<and> moves U U' w1 w2 \<and> enqueued k' T' w1 w2 \<and> leads_to n H U' T' w2))"

lemma leads_to_now: "(\<And>w1. seen_as U w w1 \<Longrightarrow> H U T w1) \<Longrightarrow> leads_to 0 H U T w"
  by simp

lemma leads_to_step:
  "(\<And>w1. seen_as U w w1 \<Longrightarrow> \<exists>U' w2 k' T'. run_task exec T w1 = ret w2 \<and> moves U U' w1 w2 \<and> enqueued k' T' w1 w2
      \<and> leads_to n H U' T' w2) \<Longrightarrow> leads_to (Suc n) H U T w"
  unfolding leads_to.simps by blast

lemma leads_to_stable: "leads_to n H U T w \<Longrightarrow> same_on U w w' \<Longrightarrow> leads_to n H U T w'"
  by (cases n) (auto dest: seen_as_trans simp del: run_task.simps)

lemma scheduled_step:
  assumes "r = ret (schedule k T w2)" and "moves U U' w w2" and "queues w2 = queues w" and "leads_to n H U' T w2"
  shows "\<exists>U' w2 k' T'. r = ret w2 \<and> moves U U' w w2 \<and> enqueued k' T' w w2 \<and> leads_to n H U' T' w2"
  using assms leads_to_stable [OF assms(4), of "schedule k T w2"]
  by (intro exI [of _ U'] exI [of _ "schedule k T w2"] exI [of _ k] exI [of _ T]) simp

lemma leads_to_trans:
  "leads_to n (\<lambda>U T w1. \<exists>U' w2 k' T'. run_task exec T w1 = ret w2 \<and> moves U U' w1 w2 \<and> enqueued k' T' w1 w2
      \<and> leads_to m H U' T' w2) U T w \<Longrightarrow> leads_to (n + Suc m) H U T w"
proof (induction n arbitrary: U T w)
  case 0
  then show ?case by (simp del: run_task.simps)
next
  case (Suc n)
  then show ?case unfolding add_Suc leads_to.simps(2) by meson
qed

text \<open>A party next to the activity, with locations \<open>X\<close> and an invariant that depends on these only.\<close>

lemma leads_to_extend_if:
  fixes w :: "('v, 'u) world"
  assumes "leads_to n H U T w" and "I w" and "X \<subseteq> old w" "X \<inter> U = {}" and "UserState \<in> U \<Longrightarrow> A"
    and stable: "\<And>w w' :: ('v, 'u) world. I w \<Longrightarrow> same_on X w w' \<Longrightarrow> I w'"
    and last: "\<And>U T w1. H U T w1 \<Longrightarrow> I w1 \<Longrightarrow> wf_world w1 \<Longrightarrow> U \<union> X \<subseteq> old w1 \<Longrightarrow> X \<inter> U = {} \<Longrightarrow>
      (UserState \<in> U \<Longrightarrow> A) \<Longrightarrow> H' (U \<union> X) T w1"
  shows "leads_to n H' (U \<union> X) T w"
  using assms(1-5)
proof (induction n arbitrary: U T w)
  case 0
  show ?case
  proof (rule leads_to_now)
    fix w1 assume s: "seen_as (U \<union> X) w w1"
    then have "H U T w1" "I w1" using 0(1) stable [OF 0(2)] by (simp_all add: seen_as_def)
    then show "H' (U \<union> X) T w1" by (rule last) (use s 0(4,5) in \<open>simp_all add: seen_as_def\<close>)
  qed
next
  case (Suc n)
  show ?case
  proof (rule leads_to_step)
    fix w1 assume "seen_as (U \<union> X) w w1"
    then have s: "seen_as U w w1" "X \<subseteq> old w1" "I w1" using stable [OF Suc(3)] by (simp_all add: seen_as_def)
    obtain U' w2 k' T' where 2: "run_task exec T w1 = ret w2" "moves U U' w1 w2" "enqueued k' T' w1 w2" "leads_to n H U' T' w2"
      using Suc(2) s(1) by (auto simp del: run_task.simps)
    have apart: "X \<inter> U' = {}" "X \<subseteq> old w2" "same_on X w1 w2" using moves_apart [OF 2(2) s(2) Suc.prems(4)] by auto
    have "leads_to n H' (U' \<union> X) T' w2"
      by (rule Suc.IH [OF 2(4) stable [OF s(3) apart(3)] apart(2,1)])
        (use Suc.prems(5) moves_user [OF 2(2)] in blast)
    with 2 moves_widen [OF 2(2) s(2)] show "\<exists>U' w2 k' T'. run_task exec T w1 = ret w2 \<and> moves (U \<union> X) U' w1 w2
        \<and> enqueued k' T' w1 w2 \<and> leads_to n H' U' T' w2" by blast
  qed
qed

lemma leads_to_extend:
  fixes w :: "('v, 'u) world"
  assumes "leads_to n H U T w" and "I w" and "X \<subseteq> old w" "X \<inter> U = {}"
    and "\<And>w w' :: ('v, 'u) world. I w \<Longrightarrow> same_on X w w' \<Longrightarrow> I w'"
    and "\<And>U T w1. H U T w1 \<Longrightarrow> I w1 \<Longrightarrow> wf_world w1 \<Longrightarrow> U \<union> X \<subseteq> old w1 \<Longrightarrow> X \<inter> U = {} \<Longrightarrow> H' (U \<union> X) T w1"
  shows "leads_to n H' (U \<union> X) T w"
  by (rule leads_to_extend_if [where A = True and I = I, OF assms(1-4) TrueI]) (rule assms(5) assms(6); assumption)+

lemma leads_to_imp:
  assumes "leads_to n H U T w" and imp: "\<And>U T w1. H U T w1 \<Longrightarrow> wf_world w1 \<Longrightarrow> U \<subseteq> old w1 \<Longrightarrow> H' U T w1"
  shows "leads_to n H' U T w"
  using leads_to_extend [OF assms(1), of "\<lambda>_. True" "{}" H'] imp by simp

end
