(* ===== verification/Async_Contract.thy ===== *)
theory Async_Contract
  imports Task_Runs
begin

text \<open>
  The contract of a stream that answers a request with a task: \<open>asks\<close> for the stream seen from its
  subscriber, \<open>serves\<close> for the upstream seen from an \<open>AsyncStream\<close>, which may be a stream that
  rests between two requests or again an asynchronous one. \<open>AsyncStream\<close> turns the second into the
  first, and \<open>ChainingStream\<close> keeps the first.
\<close>

section \<open>The contract\<close>

text \<open>Task \<open>T\<close> delivers the terminal event, and then the stream destroys itself.\<close>

definition last_event :: "addr \<Rightarrow> sid \<Rightarrow> Status \<Rightarrow> loc set \<Rightarrow> ('v, 'u) task \<Rightarrow> ('v, 'u) world \<Rightarrow> bool" where
  "last_event d s t U T w \<longleftrightarrow> (\<exists>U' wm. moves U U' w wm \<and> queues wm = queues w \<and>
     (\<forall>w2. quiet_next d s U' (StatusRepr t) wm w2 \<longrightarrow>
       (\<exists>w3. run_task exec T w = exec (Destroy d) w3 \<and> same_except U' w2 w3 \<and> (\<forall>l\<in>U'. blank_at w3 l))))"

text \<open>A request only schedules a task, which leads to \<open>H\<close>.\<close>

definition asks ::
  "nat \<Rightarrow> sid \<Rightarrow> loc set \<Rightarrow> (loc set \<Rightarrow> ('v, 'u) task \<Rightarrow> ('v, 'u) world \<Rightarrow> bool) \<Rightarrow> ('v, 'u) world \<Rightarrow> bool" where
  "asks n s U H w \<longleftrightarrow> (\<forall>w1. seen_as U w w1 \<longrightarrow> impl w1 s \<noteq> None \<and>
     (\<exists>k T. Subscription_Request exec s 1 w1 = ret (schedule k T w1) \<and> leads_to n H U T w1))"

lemma asks_stable: "asks n s U H w \<Longrightarrow> same_on U w w' \<Longrightarrow> asks n s U H w'"
  unfolding asks_def by (meson seen_as_trans)

lemma asksD:
  assumes "asks n s U H w" and "seen_as U w w1"
  obtains k T where "impl w1 s \<noteq> None" and "Subscription_Request exec s 1 w1 = ret (schedule k T w1)" and "leads_to n H U T w1"
  using assms unfolding asks_def by blast

text \<open>Task \<open>T\<close> delivers the next of the values \<open>vs\<close>, or \<open>t\<close> after the last of them.\<close>

primrec awaits ::
  "addr \<Rightarrow> sid \<Rightarrow> Status \<Rightarrow> 'v val list \<Rightarrow> loc set \<Rightarrow> ('v, 'u) task \<Rightarrow> ('v, 'u) world \<Rightarrow> bool" where
  "awaits d s t [] U T w \<longleftrightarrow> last_event d s t U T w"
| "awaits d s t (v # vs) U T w \<longleftrightarrow> (\<exists>U' wm n. run_task exec T w = exec (OnNext d s (ValueRepr v)) wm \<and> moves U U' w wm
     \<and> queues wm = queues w \<and> asks n s U' (awaits d s t vs) wm)"

primrec serves ::
  "addr \<Rightarrow> sid \<Rightarrow> Status \<Rightarrow> 'v val list \<Rightarrow> loc set \<Rightarrow> ('v, 'u) task \<Rightarrow> ('v, 'u) world \<Rightarrow> bool" where
  "serves d s t [] U T w \<longleftrightarrow> last_event d s t U T w"
| "serves d s t (v # vs) U T w \<longleftrightarrow> (\<exists>U' wm n. moves U U' w wm \<and> queues wm = queues w \<and>
     (\<forall>w2. quiet_next d s U' (ValueRepr v) wm w2 \<longrightarrow>
       (\<exists>w3. run_task exec T w = ret w3 \<and> same_except U' w2 w3 \<and> leads_to n (serves d s t vs) U' (TaskRequest 1 s) w3)))"

text \<open>Task \<open>T\<close> tells the subscriber its subscription.\<close>

definition announces :: "nat \<Rightarrow> addr \<Rightarrow> Status \<Rightarrow> 'v val list \<Rightarrow> loc set \<Rightarrow> ('v, 'u) task \<Rightarrow> ('v, 'u) world \<Rightarrow> bool" where
  "announces n d t vs U T w \<longleftrightarrow> (\<exists>s U' wm. run_task exec T w = exec (OnSubscribe d s) wm \<and> moves U U' w wm
     \<and> queues wm = queues w \<and> asks n s U' (awaits d s t vs) wm)"

text \<open>A publisher whose streams are of this kind.\<close>

definition pub_async :: "nat \<Rightarrow> nat \<Rightarrow> ('v, 'u) pub \<Rightarrow> Status \<Rightarrow> 'v val list \<Rightarrow> bool" where
  "pub_async n m p t vs \<longleftrightarrow> (\<forall>d (w :: ('v, 'u) world). wf_world w \<and> d < next_addr w \<longrightarrow>
     (\<exists>k T U w2. exec (DoSubscribe p d) w = ret (schedule k T w2) \<and> same_except U w w2 \<and> U \<inter> old w = {}
       \<and> U \<subseteq> old w2 \<and> wf_world w2 \<and> leads_to n (announces m d t vs) U T w2))"

section \<open>Streams as upstreams of an asynchronous one\<close>

text \<open>A stream that rests delivers within the task of the request.\<close>

lemma resumable_serves: "resumable d s U t vs w \<Longrightarrow> leads_to 0 (serves d s t vs) U (TaskRequest 1 s) w"
proof (induction vs arbitrary: w)
  case Nil
  show ?case
  proof (rule leads_to_now)
    fix w1 assume seen: "seen_as U w w1"
    then have r: "resumable d s U t [] w1" "wf_world w1" "U \<subseteq> old w1"
      using resumable_stable [OF Nil] by (simp_all add: seen_as_def del: resumable.simps)
    obtain wm where wm: "same_except U w1 wm" and step: "\<And>w2. quiet_next d s U (StatusRepr t) wm w2 \<Longrightarrow>
        \<exists>w3. Subscription_Request exec s 1 w1 = exec (Destroy d) w3 \<and> same_except U w2 w3 \<and> (\<forall>l\<in>U. blank_at w3 l)"
      using resumable_NilD [OF r] by auto
    have "moves U U w1 wm" by (rule moves_same_except [OF moves_refl [OF r(2,3)] wm])
    then show "serves d s t [] U (TaskRequest 1 s) w1"
      using step resumable_live [OF r] same_exceptD(7) [OF wm] unfolding serves.simps last_event_def by auto
  qed
next
  case (Cons v vs)
  show ?case
  proof (rule leads_to_now)
    fix w1 assume seen: "seen_as U w w1"
    then have r: "resumable d s U t (v # vs) w1" "wf_world w1" "U \<subseteq> old w1"
      using resumable_stable [OF Cons.prems] by (simp_all add: seen_as_def del: resumable.simps)
    obtain wm where wm: "same_except U w1 wm" and step: "\<And>w2. quiet_next d s U (ValueRepr v) wm w2 \<Longrightarrow>
        \<exists>w3. Subscription_Request exec s 1 w1 = ret w3 \<and> same_except U w2 w3 \<and> resumable d s U t vs w3"
      using resumable_ConsD [OF r] by auto
    have "moves U U w1 wm" by (rule moves_same_except [OF moves_refl [OF r(2,3)] wm])
    moreover have "run_task exec (TaskRequest 1 s) w1 = Subscription_Request exec s 1 w1"
      using resumable_live [OF r] by simp
    ultimately show "serves d s t (v # vs) U (TaskRequest 1 s) w1"
      using step Cons.IH same_exceptD(7) [OF wm] unfolding serves.simps by metis
  qed
qed

text \<open>An asynchronous stream delivers within a later task.\<close>

lemma asks_leads_to:
  assumes "asks n s U H w" and "\<And>U T w1. H U T w1 \<Longrightarrow> H' U T w1"
  shows "leads_to (Suc n) H' U (TaskRequest 1 s) w"
proof (rule leads_to_step)
  fix w1 assume seen: "seen_as U w w1"
  obtain k T where 1: "impl w1 s \<noteq> None" "Subscription_Request exec s 1 w1 = ret (schedule k T w1)" "leads_to n H U T w1"
    by (rule asksD [OF assms(1) seen])
  have "leads_to n H' U T w1" by (rule leads_to_imp [OF 1(3) assms(2)])
  with 1 seen show "\<exists>U' w2 k' T'. run_task exec (TaskRequest 1 s) w1 = ret w2 \<and> moves U U' w1 w2 \<and> enqueued k' T' w1 w2
      \<and> leads_to n H' U' T' w2"
    by (intro scheduled_step) (simp_all add: moves_refl seen_as_def)
qed

lemma awaits_serves: "awaits d s t vs U T w \<Longrightarrow> serves d s t vs U T w"
proof (induction vs arbitrary: U T w)
  case Nil
  then show ?case by simp
next
  case (Cons v vs)
  then obtain U' wm n where m: "run_task exec T w = exec (OnNext d s (ValueRepr v)) wm" "moves U U' w wm"
    "queues wm = queues w" "asks n s U' (awaits d s t vs) wm" by auto
  have "\<exists>w3. run_task exec T w = ret w3 \<and> same_except U' w2 w3 \<and> leads_to (Suc n) (serves d s t vs) U' (TaskRequest 1 s) w3"
    if q: "quiet_next d s U' (ValueRepr v) wm w2" for w2
    using asks_leads_to [OF asks_stable [OF m(4)] Cons.IH, of w2] q m(1) by (auto simp: quiet_next_def)
  with m show ?case unfolding serves.simps by blast
qed

lemma asks_serves: "asks n s U (awaits d s t vs) w \<Longrightarrow> leads_to (Suc n) (serves d s t vs) U (TaskRequest 1 s) w"
  by (rule asks_leads_to [OF _ awaits_serves])

section \<open>The asynchronous stream\<close>

definition async_at ::
  "addr \<Rightarrow> sid \<Rightarrow> addr option \<Rightarrow> worker_id \<Rightarrow> worker_id \<Rightarrow> sid option \<Rightarrow> ('v, 'u) world \<Rightarrow> bool" where
  "async_at a sa d kp kc up w \<longleftrightarrow>
     heap w a = Some (AsyncStream \<lparr>as_produce_on = kp, as_consume_on = kc, as_subscriber = d, as_sid = sa,
       as_upstream_subscription = up\<rparr>) \<and> refs w a = 0 \<and> impl w sa = Some a"

lemma async_at_same_on:
  "async_at a sa d kp kc up w \<Longrightarrow> same_on {Cell a, Sub sa} w w' \<Longrightarrow> async_at a sa d kp kc up w'"
  by (auto simp: async_at_def)

lemma async_request:
  "async_at a sa d kp kc (Some s) w \<Longrightarrow> Subscription_Request exec sa 1 w = ret (schedule kp (TaskRequest 1 s) w)"
  by (simp add: async_at_def Subscription_live exec_Request AsyncStream_Request_def get_simps)

lemma async_next:
  assumes "async_at a sa (Some d) kp kc (Some s) w"
  shows "exec (OnNext a s (ValueRepr v)) w = ret (schedule kc (TaskOnNext (ValueRepr v) a sa) w)"
    and "code t \<noteq> OK \<Longrightarrow> exec (OnNext a s (StatusRepr t)) w =
      ret (schedule kc (TaskOnNextLast (StatusRepr t) sa (Some d)) (put a (AsyncStream \<lparr>as_produce_on = kp,
        as_consume_on = kc, as_subscriber = None, as_sid = sa, as_upstream_subscription = Some s\<rparr>) w))"
  using assms by (simp_all add: async_at_def exec_OnNext AsyncStream_OnNext_def get_simps AsyncOnNextHelper_def)

text \<open>A value passes the stream: the task that delivers it to the stream leads to one that delivers it to \<open>d\<close>.\<close>

lemma async_passes_value:
  fixes w :: "('v, 'u) world"
  assumes s: "serves a s t (v # vs) U T w" and at: "async_at a sa (Some d) kp kc (Some s) w"
    and own: "{Cell a, Sub sa} \<subseteq> old w" "{Cell a, Sub sa} \<inter> U = {}"
    and IH: "\<And>n U (w :: ('v, 'u) world). leads_to n (serves a s t vs) U (TaskRequest 1 s) w \<Longrightarrow> async_at a sa (Some d) kp kc (Some s) w \<Longrightarrow>
      {Cell a, Sub sa} \<inter> U = {} \<Longrightarrow> asks (n + 1) sa (U \<union> {Cell a, Sub sa}) (awaits d sa t vs) w"
  shows "\<exists>U' w2 k' T'. run_task exec T w = ret w2 \<and> moves (U \<union> {Cell a, Sub sa}) U' w w2 \<and> enqueued k' T' w w2
    \<and> leads_to 0 (awaits d sa t (v # vs)) U' T' w2"
proof -
  let ?X = "{Cell a, Sub sa}" and ?T = "TaskOnNext (ValueRepr v) a sa"
  obtain U' wm n where m: "moves U U' w wm" "queues wm = queues w"
    and step: "\<And>w2. quiet_next a s U' (ValueRepr v) wm w2 \<Longrightarrow>
      \<exists>w3. run_task exec T w = ret w3 \<and> same_except U' w2 w3 \<and> leads_to n (serves a s t vs) U' (TaskRequest 1 s) w3"
    using s by auto
  have apart: "?X \<inter> U' = {}" "?X \<subseteq> old wm" "same_on ?X w wm" using moves_apart [OF m(1) own] by auto
  have atm: "async_at a sa (Some d) kp kc (Some s) wm" by (rule async_at_same_on [OF at apart(3)])
  let ?w2 = "schedule kc ?T wm"
  have wfm: "wf_world wm" using m(1) by (simp add: moves_def)
  then have "quiet_next a s U' (ValueRepr v) wm ?w2" using async_next(1) [OF atm] by (simp add: quiet_next_def)
  then obtain w3 where 3: "run_task exec T w = ret w3" "same_except U' ?w2 w3"
    "leads_to n (serves a s t vs) U' (TaskRequest 1 s) w3"
    using step by blast
  have at3: "async_at a sa (Some d) kp kc (Some s) w3"
    by (rule async_at_same_on [OF atm]) (use same_exceptD [OF 3(2)] apart(1) in simp)
  have m3: "moves U U' w w3" by (rule moves_same_except [OF _ 3(2)]) (use m(1) in simp)
  have "leads_to 0 (awaits d sa t (v # vs)) (U' \<union> ?X) ?T w3"
  proof (rule leads_to_now)
    fix w4 assume seen: "seen_as (U' \<union> ?X) w3 w4"
    then have at4: "async_at a sa (Some d) kp kc (Some s) w4" using async_at_same_on [OF at3] by (simp add: seen_as_def)
    have "leads_to n (serves a s t vs) U' (TaskRequest 1 s) w4"
      by (rule leads_to_stable [OF 3(3)]) (use seen in \<open>simp add: seen_as_def\<close>)
    then have "asks (n + 1) sa (U' \<union> ?X) (awaits d sa t vs) w4" using at4 apart(1) by (rule IH)
    moreover have "run_task exec ?T w4 = exec (OnNext d sa (ValueRepr v)) w4"
      using at4 by (simp add: async_at_def get_simps)
    moreover have "moves (U' \<union> ?X) (U' \<union> ?X) w4 w4" by (rule moves_refl) (use seen in \<open>simp_all add: seen_as_def\<close>)
    ultimately show "awaits d sa t (v # vs) (U' \<union> ?X) ?T w4"
      using seen unfolding awaits.simps seen_as_def by blast
  qed
  moreover have "moves (U \<union> ?X) (U' \<union> ?X) w w3" by (rule moves_widen [OF m3 own(1)])
  moreover have "enqueued kc ?T w w3" using same_exceptD(7) [OF 3(2)] m(2) by (simp add: enqueued_def)
  ultimately show ?thesis using 3(1) by blast
qed

text \<open>The terminal event takes the subscriber along, and the stream is destroyed before it arrives.\<close>

lemma async_passes_last:
  fixes w :: "('v, 'u) world"
  assumes s: "last_event a s t U T w" and at: "async_at a sa (Some d) kp kc (Some s) w" and t: "code t \<noteq> OK"
    and own: "{Cell a, Sub sa} \<subseteq> old w" "{Cell a, Sub sa} \<inter> U = {}"
  shows "\<exists>U' w2 k' T'. run_task exec T w = ret w2 \<and> moves (U \<union> {Cell a, Sub sa}) U' w w2 \<and> enqueued k' T' w w2
    \<and> leads_to 0 (awaits d sa t []) U' T' w2"
proof -
  let ?X = "{Cell a, Sub sa}" and ?T = "TaskOnNextLast (StatusRepr t) sa (Some d)"
  obtain U' wm where m: "moves U U' w wm" "queues wm = queues w"
    and step: "\<And>w2. quiet_next a s U' (StatusRepr t) wm w2 \<Longrightarrow>
      \<exists>w3. run_task exec T w = exec (Destroy a) w3 \<and> same_except U' w2 w3 \<and> (\<forall>l\<in>U'. blank_at w3 l)"
    using s by (auto simp: last_event_def)
  have apart: "?X \<inter> U' = {}" "?X \<subseteq> old wm" "same_on ?X w wm" using moves_apart [OF m(1) own] by auto
  have atm: "async_at a sa (Some d) kp kc (Some s) wm" by (rule async_at_same_on [OF at apart(3)])
  define wp where "wp = put a (AsyncStream \<lparr>as_produce_on = kp, as_consume_on = kc, as_subscriber = None,
    as_sid = sa, as_upstream_subscription = Some s\<rparr>) wm"
  let ?w2 = "schedule kc ?T wp"
  have wfm: "wf_world wm" using m(1) by (simp add: moves_def)
  have wp: "same_except ?X wm wp" "wf_world wp" using wfm apart(2) by (simp_all add: wp_def)
  have "quiet_next a s U' (StatusRepr t) wm ?w2"
    using async_next(2) [OF atm t] wp apart(1) by (simp add: quiet_next_def wp_def)
  then obtain w3 where 3: "run_task exec T w = exec (Destroy a) w3" "same_except U' ?w2 w3" "\<forall>l\<in>U'. blank_at w3 l"
    using step by blast
  have at3: "async_at a sa None kp kc (Some s) w3"
    using same_exceptD [OF 3(2)] apart(1) atm by (simp add: async_at_def wp_def)
  let ?w4 = "free a (clear_subscription sa w3)"
  have run: "run_task exec T w = ret ?w4"
    using 3(1) at3 by (simp add: async_at_def exec_Destroy AsyncStream_destroy_def)
  have mw: "moves (U \<union> ?X) (U' \<union> ?X) w ?w4"
  proof -
    have "moves (U \<union> ?X) (U' \<union> ?X) w wm" by (rule moves_widen [OF m(1) own(1)])
    then have "moves (U \<union> ?X) (U' \<union> ?X) w wp"
      by (rule moves_same_except) (rule same_except_mono [OF wp(1)], simp)
    then have "moves (U \<union> ?X) (U' \<union> ?X) w ?w2" by simp
    then show ?thesis
      by (rule moves_same_except) (use same_except_widen [OF 3(2), of ?X] in simp)
  qed
  have blank: "\<forall>l\<in>U' \<union> ?X. blank_at ?w4 l"
  proof
    fix l assume l: "l \<in> U' \<union> ?X"
    show "blank_at ?w4 l"
    proof (cases "l \<in> U'")
      case True
      then have "blank_at w3 l" using 3(3) by blast
      then show ?thesis by (cases l) simp_all
    next
      case False
      then show ?thesis using l at3 by (auto simp: async_at_def)
    qed
  qed
  have "leads_to 0 (awaits d sa t []) (U' \<union> ?X) ?T ?w4"
  proof (rule leads_to_now)
    fix w5 assume seen: "seen_as (U' \<union> ?X) ?w4 w5"
    have "moves (U' \<union> ?X) (U' \<union> ?X) w5 w5" by (rule moves_refl) (use seen in \<open>simp_all add: seen_as_def\<close>)
    moreover have "run_task exec ?T w5 = exec (Destroy d) w2 \<and> same_except (U' \<union> ?X) w2 w2 \<and> (\<forall>l\<in>U' \<union> ?X. blank_at w2 l)"
      if q: "quiet_next d sa (U' \<union> ?X) (StatusRepr t) w5 w2" for w2
    proof (intro conjI)
      have "same_on (U' \<union> ?X) ?w4 w2"
        using seen q same_on_trans by (auto simp: seen_as_def quiet_next_def simp del: same_on_insert)
      then show "\<forall>l\<in>U' \<union> ?X. blank_at w2 l" using blank by (blast intro: blank_at_same_on)
    qed (use q in \<open>simp_all add: quiet_next_def\<close>)
    ultimately show "awaits d sa t [] (U' \<union> ?X) ?T w5"
      using seen unfolding awaits.simps last_event_def seen_as_def by blast
  qed
  moreover have "enqueued kc ?T w ?w4"
    using same_exceptD(7) [OF 3(2)] m(2) by (simp add: enqueued_def wp_def)
  ultimately show ?thesis using run mw by blast
qed

lemma async_asks_if:
  fixes w :: "('v, 'u) world"
  assumes passes: "\<And>U T (w :: ('v, 'u) world). H U T w \<Longrightarrow> async_at a sa d kp kc (Some s) w \<Longrightarrow>
      {Cell a, Sub sa} \<subseteq> old w \<Longrightarrow> {Cell a, Sub sa} \<inter> U = {} \<Longrightarrow>
      \<exists>U' w2 k' T'. run_task exec T w = ret w2 \<and> moves (U \<union> {Cell a, Sub sa}) U' w w2 \<and> enqueued k' T' w w2
        \<and> leads_to 0 H' U' T' w2"
    and l: "leads_to n H U (TaskRequest 1 s) w" and at: "async_at a sa d kp kc (Some s) w" and own: "{Cell a, Sub sa} \<inter> U = {}"
  shows "asks (n + 1) sa (U \<union> {Cell a, Sub sa}) H' w"
  unfolding asks_def
proof (intro allI impI conjI)
  let ?X = "{Cell a, Sub sa}"
  fix w1 assume w1: "seen_as (U \<union> ?X) w w1"
  have at1: "async_at a sa d kp kc (Some s) w1" by (rule async_at_same_on [OF at]) (use w1 in \<open>simp add: seen_as_def\<close>)
  then show "impl w1 sa \<noteq> None" by (simp add: async_at_def)
  have l1: "leads_to n H U (TaskRequest 1 s) w1" by (rule leads_to_stable [OF l]) (use w1 in \<open>simp add: seen_as_def\<close>)
  have "leads_to (n + Suc 0) H' (U \<union> ?X) (TaskRequest 1 s) w1"
  proof (rule leads_to_trans, rule leads_to_extend [OF l1])
    show "async_at a sa d kp kc (Some s) w1" "?X \<subseteq> old w1" "?X \<inter> U = {}" using at1 w1 own by (auto simp: seen_as_def)
  next
    fix U T and w2 :: "('v, 'u) world"
    assume "H U T w2" "async_at a sa d kp kc (Some s) w2" "U \<union> ?X \<subseteq> old w2" "?X \<inter> U = {}"
    then show "\<exists>U' w3 k' T'. run_task exec T w2 = ret w3 \<and> moves (U \<union> ?X) U' w2 w3 \<and> enqueued k' T' w2 w3 \<and> leads_to 0 H' U' T' w3"
      by (intro passes) blast+
  qed (rule async_at_same_on)
  then show "\<exists>k T. Subscription_Request exec sa 1 w1 = ret (schedule k T w1) \<and> leads_to (n + 1) H' (U \<union> ?X) T w1"
    using async_request [OF at1] by (simp only: One_nat_def) blast
qed

lemma async_asks:
  assumes t: "code t \<noteq> OK" and "leads_to n (serves a s t vs) U (TaskRequest 1 s) w"
    and "async_at a sa (Some d) kp kc (Some s) w" and "{Cell a, Sub sa} \<inter> U = {}"
  shows "asks (n + 1) sa (U \<union> {Cell a, Sub sa}) (awaits d sa t vs) w"
  using assms(2-4)
proof (induction vs arbitrary: n U w)
  case Nil
  show ?case
    by (rule async_asks_if [OF _ Nil]) (rule async_passes_last [OF _ _ t], simp_all)
next
  case (Cons v vs)
  show ?case
    by (rule async_asks_if [OF _ Cons.prems]) (rule async_passes_value [OF _ _ _ _ Cons.IH])
qed

section \<open>Map and StaticCast over an asynchronous stream\<close>

lemma chain_asks_if:
  fixes w :: "('v, 'u) world"
  assumes f: "forwarding f g"
    and passes: "\<And>U T (w :: ('v, 'u) world). H U T w \<Longrightarrow> chain_at a s' d f (Some s) w \<Longrightarrow> {Cell a, Sub s'} \<subseteq> old w \<Longrightarrow>
      {Cell a, Sub s'} \<inter> U = {} \<Longrightarrow> H' (U \<union> {Cell a, Sub s'}) T w"
    and r: "asks n s U H w" and at: "chain_at a s' d f (Some s) w" and own: "{Cell a, Sub s'} \<inter> U = {}"
  shows "asks n s' (U \<union> {Cell a, Sub s'}) H' w"
  unfolding asks_def
proof (intro allI impI conjI)
  let ?X = "{Cell a, Sub s'}"
  fix w1 assume w1: "seen_as (U \<union> ?X) w w1"
  have at1: "chain_at a s' d f (Some s) w1"
    by (rule chain_at_same_on [OF at, of "U \<union> ?X"]) (use w1 in \<open>simp_all add: seen_as_def\<close>)
  then show "impl w1 s' \<noteq> None" by (simp add: chain_at_def)
  have seen: "seen_as U w w1" using w1 by (simp add: seen_as_def)
  obtain k T where 1: "Subscription_Request exec s 1 w1 = ret (schedule k T w1)" "leads_to n H U T w1"
    by (rule asksD [OF r seen])
  have "leads_to n H' (U \<union> ?X) T w1"
  proof (rule leads_to_extend [OF 1(2)])
    show "chain_at a s' d f (Some s) w1" "?X \<subseteq> old w1" "?X \<inter> U = {}" using at1 w1 own by (auto simp: seen_as_def)
  next
    fix w w' :: "('v, 'u) world"
    assume "chain_at a s' d f (Some s) w" "same_on ?X w w'"
    then show "chain_at a s' d f (Some s) w'" by (rule chain_at_same_on) simp_all
  qed (rule passes, auto)
  then show "\<exists>k T. Subscription_Request exec s' 1 w1 = ret (schedule k T w1) \<and> leads_to n H' (U \<union> ?X) T w1"
    using 1(1) chain_request [OF f at1] by auto
qed

lemma chain_passes_value:
  fixes w :: "('v, 'u) world"
  assumes f: "forwarding f g" and aw: "awaits a s t (v # vs) U T w" and at: "chain_at a s' d f (Some s) w"
    and own: "{Cell a, Sub s'} \<subseteq> old w" "{Cell a, Sub s'} \<inter> U = {}"
    and IH: "\<And>n U (w :: ('v, 'u) world). asks n s U (awaits a s t vs) w \<Longrightarrow> chain_at a s' d f (Some s) w \<Longrightarrow>
      {Cell a, Sub s'} \<inter> U = {} \<Longrightarrow> asks n s' (U \<union> {Cell a, Sub s'}) (awaits d s' t (map g vs)) w"
  shows "awaits d s' t (map g (v # vs)) (U \<union> {Cell a, Sub s'}) T w"
proof -
  let ?X = "{Cell a, Sub s'}"
  obtain U' wm n where m: "run_task exec T w = exec (OnNext a s (ValueRepr v)) wm" "moves U U' w wm" "queues wm = queues w"
    "asks n s U' (awaits a s t vs) wm"
    using aw by auto
  have apart: "?X \<inter> U' = {}" "same_on ?X w wm" using moves_apart [OF m(2) own] by auto
  have atm: "chain_at a s' d f (Some s) wm" by (rule chain_at_same_on [OF at apart(2)]) simp_all
  have "exec (OnNext a s (ValueRepr v)) wm = exec (OnNext d s' (ValueRepr (g v))) wm"
    using atm f by (simp add: chain_at_def exec_OnNext ChainingStream_OnNext_def get_simps forwarding_def)
  moreover have "moves (U \<union> ?X) (U' \<union> ?X) w wm" by (rule moves_widen [OF m(2) own(1)])
  moreover have "asks n s' (U' \<union> ?X) (awaits d s' t (map g vs)) wm" by (rule IH [OF m(4) atm apart(1)])
  ultimately show ?thesis using m(1,3) unfolding list.map awaits.simps by metis
qed

lemma chain_passes_last:
  fixes w :: "('v, 'u) world"
  assumes f: "forwarding f g" and e: "last_event a s t U T w" and at: "chain_at a s' d f (Some s) w"
    and own: "{Cell a, Sub s'} \<subseteq> old w" "{Cell a, Sub s'} \<inter> U = {}" and t: "code t \<noteq> OK"
  shows "last_event d s' t (U \<union> {Cell a, Sub s'}) T w"
proof -
  let ?X = "{Cell a, Sub s'}"
  obtain U' wm where m: "moves U U' w wm" "queues wm = queues w"
    and step: "\<And>w2. quiet_next a s U' (StatusRepr t) wm w2 \<Longrightarrow>
      \<exists>w3. run_task exec T w = exec (Destroy a) w3 \<and> same_except U' w2 w3 \<and> (\<forall>l\<in>U'. blank_at w3 l)"
    using e by (auto simp: last_event_def)
  have apart: "?X \<inter> U' = {}" "same_on ?X w wm" using moves_apart [OF m(1) own] by auto
  have atm: "chain_at a s' d f (Some s) wm" by (rule chain_at_same_on [OF at apart(2)]) simp_all
  have "\<exists>w3. run_task exec T w = exec (Destroy d) w3 \<and> same_except (U' \<union> ?X) w2 w3 \<and> (\<forall>l\<in>U' \<union> ?X. blank_at w3 l)"
    if q: "quiet_next d s' (U' \<union> ?X) (StatusRepr t) wm w2" for w2
  proof -
    obtain w3 where 3: "run_task exec T w = exec (Destroy a) w3" "same_except U' w2 w3" "\<forall>l\<in>U'. blank_at w3 l"
      using step [OF chain_quiet(2) [OF f atm t q]] by blast
    have "chain_at a s' d f (Some s) w2" using atm q by (simp add: chain_at_def quiet_next_def)
    then have at3: "chain_at a s' d f (Some s) w3" using same_exceptD [OF 3(2)] apart(1) by (simp add: chain_at_def)
    let ?w = "free a (clear_subscription s' w3)"
    have "run_task exec T w = exec (Destroy d) ?w"
      using 3(1) at3 by (simp add: chain_at_def exec_Destroy ChainingStream_destroy_def)
    moreover have "same_except (U' \<union> ?X) w2 ?w" using same_except_widen [OF 3(2), of ?X] by simp
    moreover have "blank_at ?w l" if "l \<in> U' \<union> ?X" for l
      using that at3 3(3) by (cases "l \<in> U'"; cases l) (auto simp: chain_at_def)
    ultimately show ?thesis by blast
  qed
  moreover have "moves (U \<union> ?X) (U' \<union> ?X) w wm" by (rule moves_widen [OF m(1) own(1)])
  ultimately show ?thesis using m(2) unfolding last_event_def by blast
qed

lemma chain_asks:
  assumes f: "forwarding f g" and t: "code t \<noteq> OK" and "asks n s U (awaits a s t vs) w"
    and "chain_at a s' d f (Some s) w" and "{Cell a, Sub s'} \<inter> U = {}"
  shows "asks n s' (U \<union> {Cell a, Sub s'}) (awaits d s' t (map g vs)) w"
  using assms(3-5)
proof (induction vs arbitrary: n U w)
  case Nil
  show ?case
    by (rule chain_asks_if [OF f _ Nil]) (simp only: awaits.simps list.map, rule chain_passes_last [OF f _ _ _ _ t])
next
  case (Cons v vs)
  show ?case
    by (rule chain_asks_if [OF f _ Cons.prems]) (rule chain_passes_value [OF f _ _ _ _ Cons.IH])
qed

end
