(* ===== verification/Async_Pipelines.thy ===== *)
theory Async_Pipelines
  imports Async_Contract Flow_Control_Contract
begin

text \<open>
  Pipelines with \<open>Async\<close> in any places: subscribing to them, and the whole run of a subscriber with
  automatic flow control, whatever workers the operators use and in whatever order the workers run.
\<close>

section \<open>Subscribing through Async\<close>

text \<open>The stream hears from its upstream, and passes the subscription on.\<close>

lemma async_announces:
  assumes at: "async_at a sa (Some d) kp kc None w" and l: "leads_to n (serves a s t vs) U (TaskRequest 1 s) w"
    and t: "code t \<noteq> OK" and own: "{Cell a, Sub sa} \<inter> U = {}"
  shows "\<exists>w2. exec (OnSubscribe a s) w = ret (schedule kc (TaskOnSubscribe sa d) w2) \<and> same_except {Cell a, Sub sa} w w2
    \<and> leads_to 0 (announces (n + 1) d t vs) (U \<union> {Cell a, Sub sa}) (TaskOnSubscribe sa d) w2"
proof -
  let ?X = "{Cell a, Sub sa}" and ?T = "TaskOnSubscribe sa d"
  define w2 where "w2 = put a (AsyncStream \<lparr>as_produce_on = kp, as_consume_on = kc, as_subscriber = Some d,
    as_sid = sa, as_upstream_subscription = Some s\<rparr>) w"
  have at2: "async_at a sa (Some d) kp kc (Some s) w2" using at by (simp add: async_at_def w2_def)
  have l2: "leads_to n (serves a s t vs) U (TaskRequest 1 s) w2"
    by (rule leads_to_stable [OF l]) (use own in \<open>simp add: w2_def\<close>)
  have asks: "asks (n + 1) sa (U \<union> ?X) (awaits d sa t vs) w2" by (rule async_asks [OF t l2 at2 own])
  have "leads_to 0 (announces (n + 1) d t vs) (U \<union> ?X) ?T w2"
  proof (rule leads_to_now)
    fix w3 assume seen: "seen_as (U \<union> ?X) w2 w3"
    have "asks (n + 1) sa (U \<union> ?X) (awaits d sa t vs) w3"
      by (rule asks_stable [OF asks]) (use seen in \<open>simp add: seen_as_def\<close>)
    moreover have "run_task exec ?T w3 = exec (OnSubscribe d sa) w3"
      using at2 seen by (simp add: seen_as_def async_at_def)
    moreover have "moves (U \<union> ?X) (U \<union> ?X) w3 w3" by (rule moves_refl) (use seen in \<open>simp_all add: seen_as_def\<close>)
    ultimately show "announces (n + 1) d t vs (U \<union> ?X) ?T w3"
      using seen unfolding announces_def seen_as_def by blast
  qed
  moreover have "exec (OnSubscribe a s) w = ret (schedule kc ?T w2)"
    using at by (simp add: async_at_def exec_OnSubscribe AsyncStream_OnSubscribe_def get_simps w2_def)
  moreover have "same_except ?X w w2" by (simp add: w2_def)
  ultimately show ?thesis by blast
qed

text \<open>The task that creates the stream.\<close>

lemma async_subscribe_task:
  fixes w :: "('v, 'u) world"
  assumes wf: "wf_world w"
  obtains w1 where "run_task exec (TaskSubscribe (Some p) d kp kc) w = exec (DoSubscribe p (next_addr w)) w1"
    and "async_at (next_addr w) (next_sid w) (Some d) kp kc None w1" and "wf_world w1"
    and "same_except {Cell (next_addr w), Sub (next_sid w)} w w1" and "{Cell (next_addr w), Sub (next_sid w)} \<subseteq> old w1"
    and "moves {} {Cell (next_addr w), Sub (next_sid w)} w w1"
proof
  let ?a = "next_addr w" and ?sa = "next_sid w"
  let ?w1 = "new_subscription_state ?a (alloc (AsyncStream \<lparr>as_produce_on = kp, as_consume_on = kc,
    as_subscriber = Some d, as_sid = ?sa, as_upstream_subscription = None\<rparr>) w)"
  show "run_task exec (TaskSubscribe (Some p) d kp kc) w = exec (DoSubscribe p ?a) ?w1" by (simp add: Let_def)
  show "async_at ?a ?sa (Some d) kp kc None ?w1" using wf by (simp add: async_at_def wf_worldD)
  show "wf_world ?w1" "same_except {Cell ?a, Sub ?sa} w ?w1" "{Cell ?a, Sub ?sa} \<subseteq> old ?w1" using wf by simp_all
  then show "moves {} {Cell ?a, Sub ?sa} w ?w1" by (intro moves_created) simp_all
qed

text \<open>The upstream may announce itself at once, or with a task of its own.\<close>

lemma async_subscribes_resting:
  fixes p :: "('v, 'u) pub" and w :: "('v, 'u) world"
  assumes p: "pub_resumable p t vs" and t: "code t \<noteq> OK" and wf: "wf_world w"
  shows "\<exists>U' w2 k' T'. run_task exec (TaskSubscribe (Some p) d kp kc) w = ret w2 \<and> moves {} U' w w2 \<and> enqueued k' T' w w2
    \<and> leads_to 0 (announces 1 d t vs) U' T' w2"
proof -
  let ?a = "next_addr w" and ?sa = "next_sid w"
  let ?X = "{Cell ?a, Sub ?sa}"
  obtain w1 where 1: "run_task exec (TaskSubscribe (Some p) d kp kc) w = exec (DoSubscribe p ?a) w1"
    "async_at ?a ?sa (Some d) kp kc None w1" "wf_world w1" "same_except ?X w w1" "?X \<subseteq> old w1" "moves {} ?X w w1"
    by (rule async_subscribe_task [OF wf, of p d kp kc])
  obtain s U wm where m: "exec (DoSubscribe p ?a) w1 = exec (OnSubscribe ?a s) wm" "same_except U w1 wm"
    "U \<inter> old w1 = {}" "U \<subseteq> old wm" "wf_world wm" "resumable ?a s U t vs wm"
    using p 1(3,5) unfolding pub_resumable_def by (meson insert_subset old_simps(1))
  have own: "?X \<inter> U = {}" using m(3) 1(5) by auto
  have "async_at ?a ?sa (Some d) kp kc None wm"
    by (rule async_at_same_on [OF 1(2)]) (use same_except_same_on [OF m(2), of ?X] own in blast)
  from async_announces [OF this resumable_serves [OF m(6)] t own, unfolded add_0] obtain w2 where
    2: "exec (OnSubscribe ?a s) wm = ret (schedule kc (TaskOnSubscribe ?sa d) w2)" "same_except ?X wm w2"
      "leads_to 0 (announces 1 d t vs) (U \<union> ?X) (TaskOnSubscribe ?sa d) w2"
    by blast
  have "moves {} U w1 wm" by (rule moves_created [OF m(2-5)])
  from moves_widen [OF this 1(5)] have "moves ?X (U \<union> ?X) w1 wm" by simp
  with 1(6) have "moves {} (U \<union> ?X) w wm" by (rule moves_trans)
  then have "moves {} (U \<union> ?X) w w2" by (rule moves_same_except) (rule same_except_mono [OF 2(2)], simp)
  moreover have "queues w2 = queues w"
    using same_exceptD(7) [OF 1(4)] same_exceptD(7) [OF m(2)] same_exceptD(7) [OF 2(2)] by simp
  ultimately show ?thesis using 1(1) m(1) 2(1,3) by (intro scheduled_step) (simp_all del: run_task.simps)
qed

lemma async_subscribes_async:
  fixes p :: "('v, 'u) pub" and w :: "('v, 'u) world"
  assumes p: "pub_async n m p t vs"
    and t: "code t \<noteq> OK" and wf: "wf_world w"
  shows "\<exists>U' w2 k' T'. run_task exec (TaskSubscribe (Some p) d kp kc) w = ret w2 \<and> moves {} U' w w2 \<and> enqueued k' T' w w2
    \<and> leads_to (n + 1) (announces (Suc m + 1) d t vs) U' T' w2"
proof -
  let ?a = "next_addr w" and ?sa = "next_sid w"
  let ?X = "{Cell ?a, Sub ?sa}"
  obtain w1 where 1: "run_task exec (TaskSubscribe (Some p) d kp kc) w = exec (DoSubscribe p ?a) w1"
    "async_at ?a ?sa (Some d) kp kc None w1" "wf_world w1" "same_except ?X w w1" "?X \<subseteq> old w1" "moves {} ?X w w1"
    by (rule async_subscribe_task [OF wf, of p d kp kc])
  obtain k T U wm where m: "exec (DoSubscribe p ?a) w1 = ret (schedule k T wm)" "same_except U w1 wm"
    "U \<inter> old w1 = {}" "U \<subseteq> old wm" "wf_world wm" "leads_to n (announces m ?a t vs) U T wm"
    using p 1(3,5) unfolding pub_async_def by (meson insert_subset old_simps(1))
  have own: "?X \<inter> U = {}" using m(3) 1(5) by auto
  have at: "async_at ?a ?sa (Some d) kp kc None wm"
    by (rule async_at_same_on [OF 1(2)]) (use same_except_same_on [OF m(2), of ?X] own in blast)
  have old: "?X \<subseteq> old wm" by (rule same_except_old [OF m(2) 1(5)])
  have "leads_to (n + Suc 0) (announces (Suc m + 1) d t vs) (U \<union> ?X) T wm"
  proof (rule leads_to_trans, rule leads_to_extend [where I = "async_at ?a ?sa (Some d) kp kc None", OF m(6) at old own])
    fix U T and w5 :: "('v, 'u) world"
    assume ann: "announces m ?a t vs U T w5" and at5: "async_at ?a ?sa (Some d) kp kc None w5"
      and "U \<union> ?X \<subseteq> old w5" and own5: "?X \<inter> U = {}"
    then have X: "?X \<subseteq> old w5" by blast
    obtain s U' w6 where 6: "run_task exec T w5 = exec (OnSubscribe ?a s) w6" "moves U U' w5 w6" "queues w6 = queues w5"
      "asks m s U' (awaits ?a s t vs) w6"
      using ann by (auto simp: announces_def)
    have apart: "?X \<inter> U' = {}" "same_on ?X w5 w6" using moves_apart [OF 6(2) X own5] by auto
    from async_announces [OF async_at_same_on [OF at5 apart(2)] asks_serves [OF 6(4)] t apart(1)] obtain w7 where
      7: "exec (OnSubscribe ?a s) w6 = ret (schedule kc (TaskOnSubscribe ?sa d) w7)" "same_except ?X w6 w7"
        "leads_to 0 (announces (Suc m + 1) d t vs) (U' \<union> ?X) (TaskOnSubscribe ?sa d) w7"
      by blast
    have "moves (U \<union> ?X) (U' \<union> ?X) w5 w7"
      by (rule moves_same_except [OF moves_widen [OF 6(2) X]]) (rule same_except_mono [OF 7(2)], simp)
    then show "\<exists>U' w2 k' T'. run_task exec T w5 = ret w2 \<and> moves (U \<union> ?X) U' w5 w2 \<and> enqueued k' T' w5 w2
        \<and> leads_to 0 (announces (Suc m + 1) d t vs) U' T' w2"
      using 6(1,3) 7(1) same_exceptD(7) [OF 7(2)]
      by (intro scheduled_step [OF _ _ _ 7(3)]) (simp_all del: run_task.simps)
  qed (rule async_at_same_on)
  moreover have "moves {} U w1 wm" by (rule moves_created [OF m(2-5)])
  from moves_widen [OF this 1(5)] have "moves ?X (U \<union> ?X) w1 wm" by simp
  with 1(6) have "moves {} (U \<union> ?X) w wm" by (rule moves_trans)
  moreover have "queues wm = queues w" using same_exceptD(7) [OF 1(4)] same_exceptD(7) [OF m(2)] by simp
  ultimately show ?thesis using 1(1) m(1)
    by (intro scheduled_step) (simp_all del: run_task.simps)
qed

lemma async_pub_async:
  fixes p :: "('v, 'u) pub"
  assumes "\<And>d (w :: ('v, 'u) world). wf_world w \<Longrightarrow>
      \<exists>U' w2 k' T'. run_task exec (TaskSubscribe (Some p) d kp kc) w = ret w2 \<and> moves {} U' w w2 \<and> enqueued k' T' w w2
        \<and> leads_to n (announces m d t vs) U' T' w2"
  shows "pub_async (Suc n) m (AsyncPublisher kp kc (Some p)) t vs"
  unfolding pub_async_def
proof (intro allI impI, elim conjE)
  fix d and w :: "('v, 'u) world"
  assume wf: "wf_world w"
  let ?T = "TaskSubscribe (Some p) d kp kc"
  have "leads_to (Suc n) (announces m d t vs) {} ?T w"
    by (rule leads_to_step, rule assms) (simp add: seen_as_def)
  moreover have "exec (DoSubscribe (AsyncPublisher kp kc (Some p)) d) w = ret (schedule kp ?T w)"
    by (simp add: exec_DoSubscribe AsyncPublisher_Subscribe_def)
  ultimately show "\<exists>k T U w2. exec (DoSubscribe (AsyncPublisher kp kc (Some p)) d) w = ret (schedule k T w2)
      \<and> same_except U w w2 \<and> U \<inter> old w = {} \<and> U \<subseteq> old w2 \<and> wf_world w2 \<and> leads_to (Suc n) (announces m d t vs) U T w2"
    using wf by (intro exI [of _ kp] exI [of _ ?T] exI [of _ "{}"] exI [of _ w]) simp
qed

text \<open>A stream of \<open>ChainingPublisher\<close> is asynchronous when its upstream is.\<close>

lemma chain_pub_async:
  fixes p :: "('v, 'u) pub"
  assumes base: "pub_async n m p t vs" and f: "forwarding f g" and t: "code t \<noteq> OK"
  shows "pub_async n m (ChainingPublisher p f) t (map g vs)"
  unfolding pub_async_def
proof (intro allI impI, elim conjE)
  fix d and w :: "('v, 'u) world"
  assume wf: "wf_world w" and d: "d < next_addr w"
  let ?a = "next_addr w" and ?s' = "next_sid w"
  let ?X = "{Cell ?a, Sub ?s'}"
  define w1 where "w1 = new_subscription_state ?a (alloc (ChainingStream \<lparr>cs_func = f, cs_subscriber = d,
    cs_sid = ?s', cs_base_subscription = None\<rparr>) w)"
  have at1: "chain_at ?a ?s' d f None w1" using wf by (simp add: chain_at_def w1_def wf_worldD)
  have w1: "wf_world w1" "?a < next_addr w1" "same_except ?X w w1" "?X \<subseteq> old w1" using wf by (simp_all add: w1_def)
  obtain k T U wm where m: "exec (DoSubscribe p ?a) w1 = ret (schedule k T wm)" "same_except U w1 wm"
    "U \<inter> old w1 = {}" "U \<subseteq> old wm" "wf_world wm" "leads_to n (announces m ?a t vs) U T wm"
    using base w1(1,2) unfolding pub_async_def by blast
  have own: "?X \<inter> U = {}" using m(3) by (auto simp: w1_def)
  have at: "chain_at ?a ?s' d f None wm" using at1 same_exceptD [OF m(2)] own by (simp add: chain_at_def)
  have old: "?X \<subseteq> old wm" by (rule same_except_old [OF m(2) w1(4)])
  have "leads_to n (announces m d t (map g vs)) (U \<union> ?X) T wm"
  proof (rule leads_to_extend [where I = "chain_at ?a ?s' d f None", OF m(6) at old own])
    fix w w' :: "('v, 'u) world"
    assume "chain_at ?a ?s' d f None w" "same_on ?X w w'"
    then show "chain_at ?a ?s' d f None w'" by (rule chain_at_same_on) simp_all
  next
    fix U T and w5 :: "('v, 'u) world"
    assume ann: "announces m ?a t vs U T w5" and at5: "chain_at ?a ?s' d f None w5"
      and "U \<union> ?X \<subseteq> old w5" and own5: "?X \<inter> U = {}"
    then have X: "?X \<subseteq> old w5" by blast
    obtain s U' w6 where 6: "run_task exec T w5 = exec (OnSubscribe ?a s) w6" "moves U U' w5 w6" "queues w6 = queues w5"
      "asks m s U' (awaits ?a s t vs) w6"
      using ann by (auto simp: announces_def)
    have apart: "?X \<inter> U' = {}" "same_on ?X w5 w6" using moves_apart [OF 6(2) X own5] by auto
    have at6: "chain_at ?a ?s' d f None w6" by (rule chain_at_same_on [OF at5 apart(2)]) simp_all
    define w7 where "w7 = put ?a (ChainingStream \<lparr>cs_func = f, cs_subscriber = d, cs_sid = ?s',
      cs_base_subscription = Some s\<rparr>) w6"
    have "run_task exec T w5 = exec (OnSubscribe d ?s') w7"
      using 6(1) at6 by (simp add: chain_at_def exec_OnSubscribe ChainingStream_OnSubscribe_def get_simps w7_def)
    moreover have "moves (U \<union> ?X) (U' \<union> ?X) w5 w7"
      by (rule moves_same_except [OF moves_widen [OF 6(2) X]]) (simp add: w7_def)
    moreover have "asks m ?s' (U' \<union> ?X) (awaits d ?s' t (map g vs)) w7"
    proof (rule chain_asks [OF f t _ _ apart(1)])
      show "asks m s U' (awaits ?a s t vs) w7"
        by (rule asks_stable [OF 6(4)]) (use apart(1) in \<open>simp add: w7_def\<close>)
      show "chain_at ?a ?s' d f (Some s) w7" using at6 by (simp add: chain_at_def w7_def)
    qed
    moreover have "queues w7 = queues w5" using 6(3) by (simp add: w7_def)
    ultimately show "announces m d t (map g vs) (U \<union> ?X) T w5" unfolding announces_def by blast
  qed
  moreover have "exec (DoSubscribe (ChainingPublisher p f) d) w = ret (schedule k T wm)"
    using m(1) by (simp add: exec_DoSubscribe ChainingPublisher_Subscribe_def Let_def w1_def [symmetric])
  moreover have "same_except (U \<union> ?X) w wm"
    using same_except_trans [OF same_except_mono [OF w1(3)] same_except_widen [OF m(2)], of ?X] by simp
  moreover have "(U \<union> ?X) \<inter> old w = {}" using m(3) by (auto simp: w1_def)
  moreover have "U \<union> ?X \<subseteq> old wm" using m(4) old by simp
  ultimately show "\<exists>k T U w2. exec (DoSubscribe (ChainingPublisher p f) d) w = ret (schedule k T w2)
      \<and> same_except U w w2 \<and> U \<inter> old w = {} \<and> U \<subseteq> old w2 \<and> wf_world w2 \<and> leads_to n (announces m d t (map g vs)) U T w2"
    using m(5) by blast
qed

section \<open>Asynchronous pipelines\<close>

text \<open>\<open>Async\<close> over a generator under maps and casts, and any further \<open>Async\<close>, maps and casts.\<close>

inductive arrives :: "('v, 'u) pub \<Rightarrow> 'v val list \<Rightarrow> Status \<Rightarrow> bool" where
  arrives_rests: "rests p vs t \<Longrightarrow> arrives (AsyncPublisher kp kc (Some p)) vs t"
| arrives_async: "arrives p vs t \<Longrightarrow> arrives (AsyncPublisher kp kc (Some p)) vs t"
| arrives_map: "arrives p vs t \<Longrightarrow> (\<And>v u. f v u = (ValueRepr (g v), u)) \<Longrightarrow>
    arrives (ChainingPublisher p (MapFn f)) (map g vs) t"
| arrives_cast: "arrives p vs t \<Longrightarrow> arrives (ChainingPublisher p (CastFn g)) (map g vs) t"

lemma arrives_terminal: "arrives p vs t \<Longrightarrow> code t \<noteq> OK"
  by (induction rule: arrives.induct) (auto dest: rests_terminal)

lemma arrives_pub_async: "arrives p vs t \<Longrightarrow> \<exists>n m. pub_async n m p t vs"
proof (induction rule: arrives.induct)
  case (arrives_rests p vs t kp kc)
  then have "pub_async (Suc 0) 1 (AsyncPublisher kp kc (Some p)) t vs"
    by (intro async_pub_async async_subscribes_resting rests_resumable rests_terminal)
  then show ?case by blast
next
  case (arrives_async p vs t kp kc)
  then obtain n m where "pub_async n m p t vs" by blast
  then have "pub_async (Suc (n + 1)) (Suc m + 1) (AsyncPublisher kp kc (Some p)) t vs"
    using arrives_terminal [OF arrives_async.hyps] by (intro async_pub_async async_subscribes_async)
  then show ?case by blast
next
  case (arrives_map p vs t f g)
  then show ?case using chain_pub_async [OF _ forwarding_Map] arrives_terminal by metis
next
  case (arrives_cast p vs t g)
  then show ?case using chain_pub_async [OF _ forwarding_Cast] arrives_terminal by metis
qed

end
