(* ===== verification/Interleavings.thy ===== *)
theory Interleavings
  imports Main "HOL-Library.Multiset"
begin

text \<open>
  Interleavings of finitely many sequences, as the orders in which concurrent activities can act on
  a shared state.
\<close>

inductive interleaving :: "'a list multiset \<Rightarrow> 'a list \<Rightarrow> bool" where
  interleaving_Nil: "interleaving {#} []"
| interleaving_end: "interleaving M ys \<Longrightarrow> interleaving (add_mset [] M) ys"
| interleaving_step: "interleaving (add_mset xs M) ys \<Longrightarrow> interleaving (add_mset (x # xs) M) (x # ys)"

text \<open>Nothing is lost or made up.\<close>

lemma interleaving_mset: "interleaving M ys \<Longrightarrow> mset ys = (\<Sum>xs\<in>#M. mset xs)"
  by (induction rule: interleaving.induct) auto

text \<open>One sequence has one interleaving.\<close>

lemma interleaving_empty: "interleaving {#} ys \<longleftrightarrow> ys = []"
  using interleaving_mset [of "{#}" ys] interleaving_Nil by auto

lemma interleaving_single: "interleaving M ys \<Longrightarrow> M = {#xs#} \<Longrightarrow> ys = xs"
proof (induction arbitrary: xs rule: interleaving.induct)
  case (interleaving_end M ys)
  then show ?case by (auto simp: interleaving_empty)
qed auto

text \<open>Running functions one after the other; what commutes may run in any order.\<close>

definition run_all :: "('u \<Rightarrow> 'u) list \<Rightarrow> 'u \<Rightarrow> 'u" where
  "run_all gs u = fold (\<lambda>g. g) gs u"

lemma run_all_simps [simp]: "run_all [] u = u" "run_all (g # gs) u = run_all gs (g u)"
  by (simp_all add: run_all_def)

lemma run_all_append [simp]: "run_all (gs @ hs) u = run_all hs (run_all gs u)"
  by (simp add: run_all_def)

lemma run_all_interleaving:
  assumes "interleaving (mset gss) ys"
    and comm: "\<And>g h. g \<in> set (concat gss) \<Longrightarrow> h \<in> set (concat gss) \<Longrightarrow> g \<circ> h = h \<circ> g"
  shows "run_all ys = run_all (concat gss)"
proof -
  have "mset ys = mset (concat gss)" using interleaving_mset [OF assms(1)] by (simp add: mset_concat flip: mset_map sum_mset_sum_list)
  moreover from this have "set ys = set (concat gss)" by (metis set_mset_mset)
  ultimately have "fold (\<lambda>g. g) ys = fold (\<lambda>g. g) (concat gss)" using comm by (intro fold_multiset_equiv) auto
  then show ?thesis by (simp add: run_all_def fun_eq_iff)
qed

end
