(* ===== verification/Async_Processes.thy ===== *)
theory Async_Processes
  imports Async_Pipelines Interleavings
begin

text \<open>
  A subscription with automatic flow control to an asynchronous pipeline, as a process that acts on
  the user's state: one task is queued at a time, and some of its tasks apply the subscriber's
  function to the next event.
\<close>

section \<open>Processes\<close>

text \<open>
  Task \<open>T\<close> applies the first of the functions \<open>gs\<close> to the user's state, and further tasks the
  others; when the last one has been applied, everything the process owns is freed.
\<close>

primrec acts :: "('u \<Rightarrow> 'u) list \<Rightarrow> loc set \<Rightarrow> ('v, 'u) task \<Rightarrow> ('v, 'u) world \<Rightarrow> bool" where
  "acts [] U T w \<longleftrightarrow> False"
| "acts (g # gs) U T w \<longleftrightarrow> (\<exists>U' w2. run_task exec T w = ret w2 \<and> user w2 = g (user w) \<and> moves U U' w (w2\<lparr>user := user w\<rparr>)
     \<and> (if gs = [] then queues w2 = queues w \<and> (\<forall>l\<in>U'. blank_at w2 l)
        else \<exists>n k' T'. enqueued k' T' w w2 \<and> leads_to n (acts gs) U' T' w2))"

text \<open>What a subscriber does with the events it receives.\<close>

definition reactions :: "('v event \<Rightarrow> 'u \<Rightarrow> 'u) \<Rightarrow> 'v val list \<Rightarrow> Status \<Rightarrow> ('u \<Rightarrow> 'u) list" where
  "reactions f vs t = map (\<lambda>v. f (ValueRepr v)) vs @ [f (StatusRepr t)]"

lemma reactions_simps [simp]:
  "reactions f [] t = [f (StatusRepr t)]" "reactions f (v # vs) t = f (ValueRepr v) # reactions f vs t"
  "reactions f vs t \<noteq> []"
  by (simp_all add: reactions_def)

lemma run_reactions: "run_all (reactions f vs t) u = received f vs t u"
  by (induction vs arbitrary: u) (simp_all add: received_def)

section \<open>The subscriber\<close>

abbreviation subscriber_at :: "addr \<Rightarrow> ('v event \<Rightarrow> 'u \<Rightarrow> 'u) \<Rightarrow> ('v, 'u) world \<Rightarrow> bool" where
  "subscriber_at d f w \<equiv> flow_control_at d f (user w) w"

lemma subscriber_at_same_on: "subscriber_at d f w \<Longrightarrow> same_on {Cell d} w w' \<Longrightarrow> subscriber_at d f w'"
  by (simp add: flow_control_at_def)

lemma subscriber_at_user: "subscriber_at d f w \<Longrightarrow> subscriber_at d f (w\<lparr>user := u\<rparr>)"
  by (simp add: flow_control_at_def)

text \<open>What the subscriber does with an event.\<close>

lemma flow_control_events:
  assumes "flow_control_at d f u w"
  shows "exec (OnSubscribe d s) w = Subscription_Request exec s 1 w"
    and "exec (OnNext d s (ValueRepr v)) w = Subscription_Request exec s 1 (w\<lparr>user := f (ValueRepr v) u\<rparr>)"
    and "code t \<noteq> OK \<Longrightarrow> exec (OnNext d s (StatusRepr t)) w = ret (w\<lparr>user := f (StatusRepr t) u\<rparr>)"
    and "exec (Destroy d) w = ret (free d w)"
  using assms by (simp_all add: flow_control_at_def exec_OnSubscribe FunctionalSubscriber_OnSubscribe_def exec_OnNext
      FunctionalSubscriber_OnNext_def flow_control_next_def exec_Destroy)

text \<open>What the stream and the subscriber change together is a move, but for the user's state.\<close>

lemma subscriber_moves:
  assumes "moves U U' w w'" and "UserState \<notin> U" and "Cell d \<in> old w"
  shows "moves (U \<union> {Cell d}) (U' \<union> {Cell d}) w (w'\<lparr>user := u\<rparr>\<lparr>user := user w\<rparr>)"
proof -
  have u: "user w = user w'" using moves_user [OF assms(1,2)] by simp
  show ?thesis using moves_widen [OF assms(1), of "{Cell d}"] assms(3) by (simp add: u)
qed

section \<open>The process of a subscription\<close>

lemma subscriber_requests:
  fixes w :: "('v, 'u) world"
  assumes a: "asks n s U H w" and at: "subscriber_at d f w" and seen: "wf_world w" "U \<union> {Cell d} \<subseteq> old w" "Cell d \<notin> U" "UserState \<notin> U"
    and rest: "\<And>U T (w :: ('v, 'u) world). H U T w \<Longrightarrow> subscriber_at d f w \<Longrightarrow> wf_world w \<Longrightarrow> U \<union> {Cell d} \<subseteq> old w \<Longrightarrow> Cell d \<notin> U \<Longrightarrow>
      UserState \<notin> U \<Longrightarrow> H' (U \<union> {Cell d}) T w"
  shows "\<exists>k T. Subscription_Request exec s 1 w = ret (schedule k T w) \<and> leads_to n H' (U \<union> {Cell d}) T (schedule k T w)"
proof -
  obtain k T where 1: "Subscription_Request exec s 1 w = ret (schedule k T w)" "leads_to n H U T w"
    by (rule asksD [OF a seen_as_refl]) (use seen in simp_all)
  have "leads_to n H' (U \<union> {Cell d}) T w"
  proof (rule leads_to_extend_if [where A = False and I = "subscriber_at d f", OF 1(2) at])
    fix U T and w1 :: "('v, 'u) world"
    assume "H U T w1" "subscriber_at d f w1" "wf_world w1" "U \<union> {Cell d} \<subseteq> old w1" "{Cell d} \<inter> U = {}" "UserState \<in> U \<Longrightarrow> False"
    then show "H' (U \<union> {Cell d}) T w1" by (intro rest) blast+
  qed (use seen in \<open>auto intro: subscriber_at_same_on\<close>)
  then have "leads_to n H' (U \<union> {Cell d}) T (schedule k T w)" by (rule leads_to_stable) simp
  with 1(1) show ?thesis by blast
qed

lemma awaits_acts:
  assumes t: "code t \<noteq> OK" and "awaits d s t vs U T w" and "subscriber_at d f w" and "wf_world w" and "U \<union> {Cell d} \<subseteq> old w"
    and "Cell d \<notin> U" and "UserState \<notin> U"
  shows "acts (reactions f vs t) (U \<union> {Cell d}) T w"
  using assms(2-7)
proof (induction vs arbitrary: U T w)
  case Nil
  let ?D = "{Cell d}"
  obtain U' wm where m: "moves U U' w wm" "queues wm = queues w"
    and step: "\<And>w2. quiet_next d s U' (StatusRepr t) wm w2 \<Longrightarrow>
      \<exists>w3. run_task exec T w = exec (Destroy d) w3 \<and> same_except U' w2 w3 \<and> (\<forall>l\<in>U'. blank_at w3 l)"
    using Nil(1) by (auto simp: last_event_def)
  have apart: "Cell d \<notin> U'" "same_on ?D w wm" "UserState \<notin> U'" "user wm = user w" "wf_world wm" "U' \<union> ?D \<subseteq> old wm"
    using moves_apart [OF m(1), of ?D] moves_user [OF m(1) Nil(6)] m(1) Nil(4,5) by (auto simp: moves_def)
  have at: "subscriber_at d f wm" by (rule subscriber_at_same_on [OF Nil(2) apart(2)])
  let ?w2 = "wm\<lparr>user := f (StatusRepr t) (user w)\<rparr>"
  have "quiet_next d s U' (StatusRepr t) wm ?w2"
    using flow_control_events(3) [OF at t] apart(3-5) by (auto simp: quiet_next_def intro: same_except_same_on [of "{UserState}"])
  then obtain w3 where 3: "run_task exec T w = exec (Destroy d) w3" "same_except U' ?w2 w3" "\<forall>l\<in>U'. blank_at w3 l"
    using step by blast
  have at3: "subscriber_at d f w3" "user w3 = f (StatusRepr t) (user w)"
    using same_exceptD [OF 3(2)] subscriber_at_user [OF at] apart(1,3) by (simp_all add: flow_control_at_def)
  have "run_task exec T w = ret (free d w3)" using 3(1) flow_control_events(4) [OF at3(1)] by simp
  moreover have "moves (U \<union> ?D) (U' \<union> ?D) w (free d w3\<lparr>user := user w\<rparr>)"
  proof -
    have "moves (U \<union> ?D) (U' \<union> ?D) w (?w2\<lparr>user := user w\<rparr>)"
      by (rule subscriber_moves [OF m(1) Nil(6)]) (use Nil(4) in simp)
    moreover have "same_except (U' \<union> ?D) (?w2\<lparr>user := user w\<rparr>) (free d w3\<lparr>user := user w\<rparr>)"
      using same_exceptD [OF 3(2)] by (auto simp: same_except_alt)
    ultimately show ?thesis by (rule moves_same_except)
  qed
  moreover have "blank_at (free d w3) l" if "l \<in> U' \<union> ?D" for l
    using that 3(3) at3(1) by (cases "l = Cell d"; cases l) (auto simp: flow_control_at_def)
  ultimately show ?case unfolding reactions_simps acts.simps
    using at3(2) same_exceptD(7) [OF 3(2)] m(2)
    by (intro exI [of _ "U' \<union> ?D"] exI [of _ "free d w3"]) (simp del: run_task.simps)
next
  case (Cons v vs)
  let ?D = "{Cell d}"
  obtain U' wm n where m: "run_task exec T w = exec (OnNext d s (ValueRepr v)) wm" "moves U U' w wm"
    "queues wm = queues w" "asks n s U' (awaits d s t vs) wm"
    using Cons.prems(1) by auto
  have apart: "Cell d \<notin> U'" "same_on ?D w wm" "UserState \<notin> U'" "user wm = user w" "wf_world wm" "U' \<union> ?D \<subseteq> old wm"
    using moves_apart [OF m(2), of ?D] moves_user [OF m(2) Cons.prems(6)] m(2) Cons.prems(4,5) by (auto simp: moves_def)
  have at: "subscriber_at d f wm" by (rule subscriber_at_same_on [OF Cons.prems(2) apart(2)])
  let ?w = "wm\<lparr>user := f (ValueRepr v) (user w)\<rparr>"
  have asks: "asks n s U' (awaits d s t vs) ?w"
    by (rule asks_stable [OF m(4)], rule same_except_same_on [of "{UserState}"]) (use apart(3) in simp_all)
  have "\<exists>k T. Subscription_Request exec s 1 ?w = ret (schedule k T ?w) \<and> leads_to n (acts (reactions f vs t)) (U' \<union> ?D) T (schedule k T ?w)"
    by (rule subscriber_requests [OF asks subscriber_at_user [OF at]]) (use apart Cons.IH in simp_all)
  then obtain k T' where 1: "Subscription_Request exec s 1 ?w = ret (schedule k T' ?w)"
    "leads_to n (acts (reactions f vs t)) (U' \<union> ?D) T' (schedule k T' ?w)" by blast
  have "run_task exec T w = ret (schedule k T' ?w)" using m(1) 1(1) flow_control_events(2) [OF at] apart(4) by simp
  moreover have "moves (U \<union> ?D) (U' \<union> ?D) w (schedule k T' ?w\<lparr>user := user w\<rparr>)"
    using subscriber_moves [OF m(2) Cons.prems(6), of d] Cons.prems(4) by simp
  moreover have "enqueued k T' w (schedule k T' ?w)" using m(3) by simp
  ultimately show ?case using 1(2) unfolding reactions_simps acts.simps
    by (intro exI [of _ "U' \<union> ?D"] exI [of _ "schedule k T' ?w"]) (simp del: run_task.simps, blast)
qed

lemma announces_acts:
  fixes w :: "('v, 'u) world"
  assumes t: "code t \<noteq> OK" and l: "leads_to n (announces m d t vs) U T w" and at: "subscriber_at d f w"
    and own: "Cell d \<in> old w" "Cell d \<notin> U" "UserState \<notin> U"
  shows "leads_to (n + Suc m) (acts (reactions f vs t)) (U \<union> {Cell d}) T w"
proof (rule leads_to_trans, rule leads_to_extend_if [where A = False and I = "subscriber_at d f", OF l at])
  let ?D = "{Cell d}"
  fix U T and w :: "('v, 'u) world"
  assume ann: "announces m d t vs U T w" and at: "subscriber_at d f w" and wf: "wf_world w" "U \<union> ?D \<subseteq> old w"
    and own: "?D \<inter> U = {}" and user: "UserState \<in> U \<Longrightarrow> False"
  obtain s U' wm where 1: "run_task exec T w = exec (OnSubscribe d s) wm" "moves U U' w wm" "queues wm = queues w"
    "asks m s U' (awaits d s t vs) wm"
    using ann by (auto simp: announces_def)
  have apart: "Cell d \<notin> U'" "same_on ?D w wm" "UserState \<notin> U'" "wf_world wm" "U' \<union> ?D \<subseteq> old wm"
    using moves_apart [OF 1(2), of ?D] moves_user [OF 1(2)] user 1(2) wf own by (auto simp: moves_def)
  have atm: "subscriber_at d f wm" by (rule subscriber_at_same_on [OF at apart(2)])
  have "\<exists>k T. Subscription_Request exec s 1 wm = ret (schedule k T wm)
      \<and> leads_to m (acts (reactions f vs t)) (U' \<union> ?D) T (schedule k T wm)"
    by (rule subscriber_requests [OF 1(4) atm apart(4,5,1,3)]) (rule awaits_acts [OF t])
  then obtain k T' where 2: "Subscription_Request exec s 1 wm = ret (schedule k T' wm)"
    "leads_to m (acts (reactions f vs t)) (U' \<union> ?D) T' (schedule k T' wm)" by blast
  have "run_task exec T w = ret (schedule k T' wm)" using 1(1) 2(1) flow_control_events(1) [OF atm] by simp
  moreover have "moves (U \<union> ?D) (U' \<union> ?D) w (schedule k T' wm)" using moves_widen [OF 1(2), of ?D] wf(2) by simp
  moreover have "enqueued k T' w (schedule k T' wm)" using 1(3) by simp
  ultimately show "\<exists>U' w2 k' T'. run_task exec T w = ret w2 \<and> moves (U \<union> ?D) U' w w2 \<and> enqueued k' T' w w2
      \<and> leads_to m (acts (reactions f vs t)) U' T' w2"
    using 2(2) by blast
qed (use own in \<open>auto intro: subscriber_at_same_on\<close>)

text \<open>Subscribing queues the first task of a new process.\<close>

lemma subscription_starts:
  fixes w :: "('v, 'u) world"
  assumes "arrives p vs t" and wf: "wf_world w"
  shows "\<exists>w1 n U k T. Publisher_Subscribe_flow_control exec (Some p) f w = ret w1 \<and> moves {} U w w1 \<and> enqueued k T w w1
    \<and> leads_to n (acts (reactions f vs t)) U T w1"
proof -
  let ?d = "next_addr w" and ?w0 = "Subscriber_MakeWithFlowControl f w"
  let ?D = "{Cell ?d}"
  have w0: "subscriber_at ?d f ?w0" "wf_world ?w0" "?d < next_addr ?w0" "same_except ?D w ?w0" "queues ?w0 = queues w"
    using wf by (simp_all add: flow_control_at_def Subscriber_MakeWithFlowControl_def Subscriber_Make_def wf_worldD)
  obtain n m where p: "pub_async n m p t vs" using arrives_pub_async [OF assms(1)] by blast
  obtain k T U w2 where 2: "exec (DoSubscribe p ?d) ?w0 = ret (schedule k T w2)" "same_except U ?w0 w2"
    "U \<inter> old ?w0 = {}" "U \<subseteq> old w2" "wf_world w2" "leads_to n (announces m ?d t vs) U T w2"
    using p w0(2,3) unfolding pub_async_def by blast
  have own: "Cell ?d \<notin> U" "UserState \<notin> U" using 2(3) w0(3) old_simps by blast+
  have at: "subscriber_at ?d f w2"
    by (rule subscriber_at_same_on [OF w0(1)], rule same_except_same_on [OF 2(2)]) (use own in simp)
  have d: "Cell ?d \<in> old w2" using same_except_old [OF 2(2), of ?D] w0(3) by simp
  have "leads_to (n + Suc m) (acts (reactions f vs t)) (U \<union> ?D) T w2"
    by (rule announces_acts [OF arrives_terminal [OF assms(1)] 2(6) at d own])
  then have "leads_to (n + Suc m) (acts (reactions f vs t)) (U \<union> ?D) T (schedule k T w2)" by (rule leads_to_stable) simp
  moreover have "moves {} (U \<union> ?D) w (schedule k T w2)"
  proof -
    have "moves {} ?D w ?w0" by (rule moves_created) (use w0 in simp_all)
    moreover have "moves {} U ?w0 w2" by (rule moves_created [OF 2(2-5)])
    then have "moves ?D (U \<union> ?D) ?w0 w2" using moves_widen [of "{}" U ?w0 w2 ?D] w0(3) by simp
    ultimately show ?thesis using moves_trans by fastforce
  qed
  moreover have "Publisher_Subscribe_flow_control exec (Some p) f w = ret (schedule k T w2)"
    using 2(1) by (simp add: Publisher_Subscribe_flow_control_def)
  moreover have "enqueued k T w (schedule k T w2)" using same_exceptD(7) [OF 2(2)] w0(5) by simp
  ultimately show ?thesis by blast
qed

end
