(* ===== verification/Concurrency.thy ===== *)
theory Concurrency
  imports Async_Processes
begin

text \<open>
  Any number of processes at once: the queues of the workers hold one task of each, the workers run
  them in any order, and no process disturbs another. The processes share the user's state only.
\<close>

section \<open>Pools of processes\<close>

record ('v, 'u) process =
  on :: worker_id
  next_task :: "('v, 'u) task"
  steps_left :: nat
  to_come :: "('u \<Rightarrow> 'u) list"
  owns :: "loc set"

definition process_ok :: "('v, 'u) world \<Rightarrow> ('v, 'u) process \<Rightarrow> bool" where
  "process_ok w x \<longleftrightarrow> leads_to (steps_left x) (acts (to_come x)) (owns x) (next_task x) w
     \<and> owns x \<subseteq> old w \<and> UserState \<notin> owns x"

text \<open>The processes \<open>xs\<close>, by the age of their tasks, were started in the world \<open>w0\<close>, and all else is as it was.\<close>

definition process_pool :: "('v, 'u) world \<Rightarrow> ('v, 'u) process list \<Rightarrow> ('v, 'u) world \<Rightarrow> bool" where
  "process_pool w0 xs w \<longleftrightarrow> wf_world w \<and> (\<forall>k. queues w k = map next_task (filter (\<lambda>x. on x = k) xs))
     \<and> (\<forall>x\<in>set xs. process_ok w x \<and> owns x \<inter> old w0 = {}) \<and> sorted_wrt (\<lambda>x y. owns x \<inter> owns y = {}) xs
     \<and> old w0 \<subseteq> old w \<and> (\<forall>l. l \<noteq> UserState \<and> (\<forall>x\<in>set xs. l \<notin> owns x) \<longrightarrow> content w l = content w0 l)"

lemma process_ok_same_on:
  "process_ok w x \<Longrightarrow> same_on (owns x) w w' \<Longrightarrow> owns x \<subseteq> old w' \<Longrightarrow> process_ok w' x"
  by (auto simp: process_ok_def intro: leads_to_stable)

lemma process_ok_apart:
  assumes "process_ok w x" and "moves U U' w (w'\<lparr>user := u\<rparr>)" and "owns x \<inter> U = {}"
  shows "process_ok w' x \<and> owns x \<inter> U' = {}"
proof -
  have x: "owns x \<subseteq> old w" "UserState \<notin> owns x" using assms(1) by (simp_all add: process_ok_def)
  from moves_apart [OF assms(2) x(1) assms(3)] have 1: "owns x \<inter> U' = {}" "owns x \<subseteq> old w'" "same_on (owns x) w (w'\<lparr>user := u\<rparr>)"
    by (simp_all add: old_def cong: loc.case_cong)
  have "same_except {UserState} (w'\<lparr>user := u\<rparr>) w'" by (simp add: same_except_alt)
  then have "same_on (owns x) (w'\<lparr>user := u\<rparr>) w'" by (rule same_except_same_on) (use x(2) in simp)
  then show ?thesis using 1 assms(1) same_on_trans process_ok_same_on by blast
qed

lemma pool_nil: "process_pool w0 [] w \<Longrightarrow> queues w = (\<lambda>_. []) \<and> heap w = heap w0 \<and> refs w = refs w0 \<and> impl w = impl w0"
proof -
  assume p: "process_pool w0 [] w"
  then have c: "l \<noteq> UserState \<Longrightarrow> content w l = content w0 l" for l by (simp add: process_pool_def)
  have "heap w a = heap w0 a \<and> refs w a = refs w0 a" for a using c [of "Cell a"] by simp
  moreover have "impl w s = impl w0 s" for s using c [of "Sub s"] by simp
  ultimately show ?thesis using p by (auto simp: process_pool_def)
qed

lemma pool_idle: "process_pool w0 xs w \<Longrightarrow> queues w = (\<lambda>_. []) \<Longrightarrow> xs = []"
proof (cases xs)
  case (Cons x xs')
  moreover assume "process_pool w0 xs w" "queues w = (\<lambda>_. [])"
  ultimately have "map next_task (filter (\<lambda>y. on y = on x) (x # xs')) = []" unfolding process_pool_def by metis
  then show ?thesis by simp
qed simp

lemma pool_start: "wf_world w \<Longrightarrow> queues w = (\<lambda>_. []) \<Longrightarrow> process_pool w [] w"
  by (simp add: process_pool_def)

text \<open>A process joins.\<close>

lemma pool_join:
  assumes p: "process_pool w0 xs w" and m: "moves {} U w w'" and q: "enqueued k T w w'" and l: "leads_to n (acts gs) U T w'"
  shows "process_pool w0 (xs @ [\<lparr>on = k, next_task = T, steps_left = n, to_come = gs, owns = U\<rparr>]) w'"
proof -
  let ?x = "\<lparr>on = k, next_task = T, steps_left = n, to_come = gs, owns = U\<rparr>"
  have u: "UserState \<notin> U" using moves_user [OF m] by simp
  have fresh: "U \<inter> old w = {}" using m by (simp add: moves_def)
  have old: "old w0 \<subseteq> old w" "old w \<subseteq> old w'"
    using p m unchanged_old [of U w w' "old w"] by (simp_all add: process_pool_def moves_def)
  have others: "process_ok w' y \<and> owns y \<inter> U = {}" if "y \<in> set xs" for y
    using process_ok_apart [where u = "user w'" and w = w and w' = w' and x = y and U = "{}" and U' = U] p m that by (simp add: process_pool_def)
  have "same_on (- U) w w'" using m by (simp add: moves_def unchanged_def)
  then have c: "l \<notin> U \<Longrightarrow> content w' l = content w l" for l by (simp add: same_on_def)
  show ?thesis
    unfolding process_pool_def
  proof (intro conjI ballI allI impI)
    show "wf_world w'" "old w0 \<subseteq> old w'" using m old by (auto simp: moves_def)
    show "queues w' k' = map next_task (filter (\<lambda>x. on x = k') (xs @ [?x]))" for k'
      using p q by (simp add: process_pool_def enqueued_def)
    show "sorted_wrt (\<lambda>x y. owns x \<inter> owns y = {}) (xs @ [?x])" using p others by (simp add: process_pool_def sorted_wrt_append)
    show "process_ok w' y" "owns y \<inter> old w0 = {}" if "y \<in> set (xs @ [?x])" for y
      using that others p fresh old(1) m u l by (auto simp: process_pool_def process_ok_def moves_def)
  qed (use p c in \<open>auto simp: process_pool_def\<close>)
qed

text \<open>The oldest task of a worker is the task of one process.\<close>

lemma first_of:
  assumes "map h (filter P xs) = t # ts"
  obtains as x bs where "xs = as @ x # bs" and "P x" and "h x = t" and "filter P as = []" and "ts = map h (filter P bs)"
proof -
  obtain x zs where z: "filter P xs = x # zs" "h x = t" "ts = map h zs" using assms by auto
  then obtain as bs where "xs = as @ x # bs" "\<forall>u\<in>set as. \<not> P u" "P x" "zs = filter P bs" by (auto simp: filter_eq_Cons_iff)
  with z show thesis by (intro that) (auto simp: filter_empty_conv)
qed

text \<open>It leaves, and comes back with its next task or never.\<close>

lemma pool_move:
  assumes p: "process_pool w0 (as @ x # bs) w" and m: "moves (owns x) U' w (w'\<lparr>user := user w\<rparr>)"
  shows "\<forall>y\<in>set (as @ bs). process_ok w' y \<and> owns y \<inter> old w0 = {} \<and> owns y \<inter> U' = {}"
    and "sorted_wrt (\<lambda>x y. owns x \<inter> owns y = {}) (as @ bs)"
    and "wf_world w'" "old w0 \<subseteq> old w'" "U' \<subseteq> old w'" "U' \<inter> old w0 = {}" "UserState \<notin> U'" "owns x \<subseteq> U'"
    and "\<And>l. l \<noteq> UserState \<Longrightarrow> l \<notin> U' \<Longrightarrow> content w' l = content w l"
proof -
  have x: "process_ok w x" "owns x \<inter> old w0 = {}" using p by (simp_all add: process_pool_def)
  show "sorted_wrt (\<lambda>x y. owns x \<inter> owns y = {}) (as @ bs)" using p by (simp add: process_pool_def sorted_wrt_append)
  have "owns y \<inter> owns x = {}" if "y \<in> set (as @ bs)" for y
    using p that by (auto simp: process_pool_def sorted_wrt_append)
  then show "\<forall>y\<in>set (as @ bs). process_ok w' y \<and> owns y \<inter> old w0 = {} \<and> owns y \<inter> U' = {}"
    using process_ok_apart [OF _ m] p unfolding process_pool_def by simp
  show "wf_world w'" "U' \<subseteq> old w'" "owns x \<subseteq> U'" using m by (auto simp: moves_def old_def wf_world_def cong: loc.case_cong)
  have "old w \<subseteq> old (w'\<lparr>user := user w\<rparr>)" using m unfolding moves_def by (elim conjE) (erule unchanged_old, rule subset_refl)
  then show "old w0 \<subseteq> old w'" using p by (auto simp: process_pool_def old_def cong: loc.case_cong)
  show "U' \<inter> old w0 = {}" using m x(2) p by (auto simp: moves_def process_pool_def)
  show "UserState \<notin> U'" using moves_user [OF m] x(1) by (simp add: process_ok_def)
  fix l assume l: "l \<noteq> UserState" "l \<notin> U'"
  have "same_on (- U') w (w'\<lparr>user := user w\<rparr>)" using m by (simp add: moves_def unchanged_def)
  then have "content (w'\<lparr>user := user w\<rparr>) l = content w l" using l by (simp add: same_on_def)
  with l(1) show "content w' l = content w l" by (cases l) simp_all
qed

lemma blank_content: "blank_at w l \<Longrightarrow> blank_at w' l \<Longrightarrow> content w l = content w' l"
  by (cases l) simp_all

lemma wf_world_blank: "wf_world w \<Longrightarrow> l \<notin> old w \<Longrightarrow> blank_at w l"
  by (cases l) (simp_all add: wf_worldD)

lemma pool_leave:
  assumes p: "process_pool w0 (as @ x # bs) w" and m: "moves (owns x) U' w (w'\<lparr>user := user w\<rparr>)"
    and q: "\<And>k. queues w' k = map next_task (filter (\<lambda>y. on y = k) (as @ bs))" and blank: "\<forall>l\<in>U'. blank_at w' l"
    and wf0: "wf_world w0"
  shows "process_pool w0 (as @ bs) w'"
proof -
  note move = pool_move [OF p m]
  have "content w' l = content w0 l" if "l \<noteq> UserState" "\<forall>y\<in>set (as @ bs). l \<notin> owns y" for l
  proof (cases "l \<in> U'")
    case True
    with move(6) have "blank_at w0 l" by (intro wf_world_blank [OF wf0]) auto
    with True blank show ?thesis by (intro blank_content) simp_all
  next
    case False
    then have "content w l = content w0 l" using p that move(8) unfolding process_pool_def by auto
    with move(9) [OF that(1) False] show ?thesis by simp
  qed
  then show ?thesis using move(1-4) q unfolding process_pool_def by blast
qed

lemma pool_return:
  assumes p: "process_pool w0 (as @ x # bs) w" and m: "moves (owns x) U' w (w'\<lparr>user := user w\<rparr>)"
    and q: "\<And>k'. queues w' k' = map next_task (filter (\<lambda>y. on y = k') (as @ bs)) @ (if k' = k then [T] else [])"
    and l: "leads_to n (acts gs) U' T w'"
  shows "process_pool w0 (as @ bs @ [\<lparr>on = k, next_task = T, steps_left = n, to_come = gs, owns = U'\<rparr>]) w'"
proof -
  let ?x = "\<lparr>on = k, next_task = T, steps_left = n, to_come = gs, owns = U'\<rparr>"
  note move = pool_move [OF p m]
  have x: "process_ok w' ?x" using l move(5,7) by (simp add: process_ok_def)
  have "content w' l = content w0 l" if "l \<noteq> UserState" "\<forall>y\<in>set (as @ bs @ [?x]). l \<notin> owns y" for l
  proof -
    have "l \<notin> U'" using that by simp
    moreover from this have "content w l = content w0 l" using p that move(8) unfolding process_pool_def by auto
    ultimately show ?thesis using move(9) [OF that(1)] by simp
  qed
  moreover have "sorted_wrt (\<lambda>x y. owns x \<inter> owns y = {}) (as @ bs @ [?x])"
    using move(1,2) by (simp add: sorted_wrt_append)
  moreover have "\<forall>y\<in>set (as @ bs @ [?x]). process_ok w' y \<and> owns y \<inter> old w0 = {}" using move(1,6) x by auto
  moreover have "queues w' k' = map next_task (filter (\<lambda>y. on y = k') (as @ bs @ [?x]))" for k' using q by simp
  ultimately show ?thesis using move(3,4) unfolding process_pool_def by blast
qed

section \<open>Steps of the workers\<close>

text \<open>The tasks of one worker, and what is added to the queues.\<close>

definition tasks_for :: "worker_id \<Rightarrow> (worker_id \<times> 't) list \<Rightarrow> 't list" where
  "tasks_for k ts = map snd (filter (\<lambda>(k', t). k' = k) ts)"

definition appended :: "(worker_id \<times> ('v, 'u) task) list \<Rightarrow> ('v, 'u) world \<Rightarrow> ('v, 'u) world \<Rightarrow> bool" where
  "appended ts w w' \<longleftrightarrow> (\<forall>k. queues w' k = queues w k @ tasks_for k ts)"

lemma enqueued_appended: "enqueued k T w w' \<Longrightarrow> appended [(k, T)] w w'"
  by (simp add: enqueued_def appended_def tasks_for_def)

text \<open>
  A step of a worker is a step of one process: it comes nearer to its next action, or it acts on the
  user's state, with the first of its functions, and goes on or is over.
\<close>

inductive process_step ::
  "('v, 'u) process \<Rightarrow> ('u \<Rightarrow> 'u) list \<Rightarrow> ('v, 'u) process option \<Rightarrow> bool" where
  process_walks: "steps_left x = Suc (steps_left y) \<Longrightarrow> to_come x = to_come y \<Longrightarrow> process_step x [] (Some y)"
| process_acts: "to_come x = g # to_come y \<Longrightarrow> process_step x [g] (Some y)"
| process_ends: "to_come x = [g] \<Longrightarrow> process_step x [g] None"

lemma set_queues_user: "w\<lparr>queues := q, user := u\<rparr> = w\<lparr>user := u\<rparr>\<lparr>queues := q\<rparr>"
  by simp

lemma pool_worker_step:
  assumes p: "process_pool w0 xs w" and k: "queues w k = t # ts" and wf0: "wf_world w0"
  shows "\<exists>as x bs w' gs y us. xs = as @ x # bs \<and> run_task exec t (w\<lparr>queues := (queues w)(k := ts)\<rparr>) = ret w'
    \<and> appended us (w\<lparr>queues := (queues w)(k := ts)\<rparr>) w' \<and> process_step x gs y
    \<and> process_pool w0 (as @ bs @ (case y of None \<Rightarrow> [] | Some y \<Rightarrow> [y])) w' \<and> user w' = run_all gs (user w)"
proof -
  have q: "queues w k' = map next_task (filter (\<lambda>x. on x = k') xs)" for k' using p by (simp add: process_pool_def)
  obtain as x bs where x: "xs = as @ x # bs" "on x = k" "next_task x = t" "filter (\<lambda>x. on x = k) as = []"
    "ts = map next_task (filter (\<lambda>x. on x = k) bs)"
    using first_of [of next_task "\<lambda>x. on x = k" xs t ts] k q by metis
  let ?w = "w\<lparr>queues := (queues w)(k := ts)\<rparr>"
  have q1: "queues ?w k' = map next_task (filter (\<lambda>x. on x = k') (as @ bs))" for k'
    using q x by auto
  have ok: "process_ok w x" using p x(1) by (simp add: process_pool_def)
  have seen: "seen_as (owns x) w ?w" using ok p by (simp add: seen_as_def process_ok_def process_pool_def)
  note p = p [unfolded x(1)]
  have acts: ?thesis if a: "acts (to_come x) (owns x) t ?w"
  proof -
    obtain g gs where g: "to_come x = g # gs" using a by (cases "to_come x") auto
    then obtain U' w' where w': "run_task exec t ?w = ret w'" "user w' = g (user w)" "moves (owns x) U' w (w'\<lparr>user := user w\<rparr>)"
      and cases: "if gs = [] then queues w' = queues ?w \<and> (\<forall>l\<in>U'. blank_at w' l)
        else \<exists>n k' T'. enqueued k' T' ?w w' \<and> leads_to n (acts gs) U' T' w'"
      using a by (auto simp del: run_task.simps)
    show ?thesis
    proof (cases "gs = []")
      case True
      then have "process_pool w0 (as @ bs) w'" using cases q1 by (intro pool_leave [OF p w'(3) _ _ wf0]) simp_all
      moreover have "process_step x [g] None" using g True by (simp add: process_ends)
      moreover have "appended [] ?w w'" using cases True by (simp add: appended_def tasks_for_def)
      ultimately show ?thesis using x(1) w'(1,2)
        by (intro exI [of _ as] exI [of _ x] exI [of _ bs] exI [of _ w'] exI [of _ "[g]"] exI [of _ None] exI [of _ "[]"]) simp
    next
      case False
      then obtain n k' T' where l: "enqueued k' T' ?w w'" "leads_to n (acts gs) U' T' w'" using cases by auto
      let ?y = "\<lparr>on = k', next_task = T', steps_left = n, to_come = gs, owns = U'\<rparr>"
      have "process_pool w0 (as @ bs @ [?y]) w'"
        by (rule pool_return [OF p w'(3) _ l(2)]) (use l(1) q1 in \<open>simp add: enqueued_def\<close>)
      moreover have "process_step x [g] (Some ?y)" using g by (simp add: process_acts)
      ultimately show ?thesis using x(1) w'(1,2) enqueued_appended [OF l(1)]
        by (intro exI [of _ as] exI [of _ x] exI [of _ bs] exI [of _ w'] exI [of _ "[g]"] exI [of _ "Some ?y"] exI [of _ "[(k', T')]"]) simp
    qed
  qed
  show ?thesis
  proof (cases "steps_left x")
    case 0
    then show ?thesis using ok seen x(3) by (intro acts) (simp add: process_ok_def)
  next
    case (Suc n)
    then have "leads_to (Suc n) (acts (to_come x)) (owns x) t w" using ok x(3) by (simp add: process_ok_def)
    then obtain U' w' k' T' where w': "run_task exec t ?w = ret w'" "moves (owns x) U' ?w w'" "enqueued k' T' ?w w'"
      "leads_to n (acts (to_come x)) U' T' w'"
      using seen unfolding leads_to.simps by blast
    let ?y = "\<lparr>on = k', next_task = T', steps_left = n, to_come = to_come x, owns = U'\<rparr>"
    have u: "user w' = user w" using moves_user [OF w'(2)] ok by (simp add: process_ok_def)
    have m: "moves (owns x) U' w (w'\<lparr>user := user w\<rparr>)" using w'(2) by (simp add: u [symmetric])
    have "process_pool w0 (as @ bs @ [?y]) w'"
      by (rule pool_return [OF p m _ w'(4)]) (use w'(3) q1 in \<open>simp add: enqueued_def\<close>)
    moreover have "process_step x [] (Some ?y)" using Suc by (simp add: process_walks)
    ultimately show ?thesis using x(1) w'(1) u enqueued_appended [OF w'(3)]
      by (intro exI [of _ as] exI [of _ x] exI [of _ bs] exI [of _ w'] exI [of _ "[]"] exI [of _ "Some ?y"] exI [of _ "[(k', T')]"]) simp
  qed
qed

section \<open>Subscribing while the workers run\<close>

text \<open>
  A client that subscribes to one publisher after the other, while the workers run: between any two
  steps of the workers, and between any two subscriptions.
\<close>

type_synonym ('v, 'u) client = "(('v, 'u) publisher \<times> ('v event \<Rightarrow> 'u \<Rightarrow> 'u)) list \<times> ('v, 'u) world"

inductive concurrent_step :: "('v, 'u) client \<Rightarrow> ('v, 'u) client res \<Rightarrow> bool" where
  client_subscribes: "concurrent_step ((p, f) # js, w) (bnd (Publisher_Subscribe_flow_control exec p f w) (\<lambda>w. ret (js, w)))"
| worker_runs: "worker_step w r \<Longrightarrow> concurrent_step (js, w) (bnd r (\<lambda>w. ret (js, w)))"

inductive concurrent_steps :: "('v, 'u) client \<Rightarrow> ('v, 'u) client res \<Rightarrow> bool" where
  no_more: "concurrent_steps s (ret s)"
| one_more: "concurrent_step s (ret s') \<Longrightarrow> concurrent_steps s' r \<Longrightarrow> concurrent_steps s r"
| one_fails: "concurrent_step s r \<Longrightarrow> \<not> returns r \<Longrightarrow> concurrent_steps s r"

text \<open>What is still to be done, and how far it is.\<close>

type_synonym ('v, 'u) order = "('v, 'u) pub \<times> ('v event \<Rightarrow> 'u \<Rightarrow> 'u) \<times> 'v val list \<times> Status"

definition ordered :: "('v, 'u) order list \<Rightarrow> (('v, 'u) publisher \<times> ('v event \<Rightarrow> 'u \<Rightarrow> 'u)) list" where
  "ordered = map (\<lambda>(p, f, vs, t). (Some p, f))"

definition actions :: "('v, 'u) order list \<Rightarrow> ('u \<Rightarrow> 'u) list list" where
  "actions = map (\<lambda>(p, f, vs, t). reactions f vs t)"

lemma order_simps [simp]:
  "ordered [] = []" "ordered ((p, f, vs, t) # ss) = (Some p, f) # ordered ss"
  "actions [] = []" "actions ((p, f, vs, t) # ss) = reactions f vs t # actions ss"
  by (simp_all add: ordered_def actions_def)

abbreviation distance_order :: "((nat \<times> nat) \<times> nat \<times> nat) set" where
  "distance_order \<equiv> less_than <*lex*> less_than"

definition distance :: "('v, 'u) process list \<Rightarrow> ('v, 'u) order list \<Rightarrow> (nat \<times> nat) multiset" where
  "distance xs ss = mset (map (\<lambda>x. (length (to_come x), steps_left x)) xs) + mset (map (\<lambda>gs. (Suc (length gs), 0)) (actions ss))"

definition remaining :: "('v, 'u) process list \<Rightarrow> ('v, 'u) order list \<Rightarrow> ('u \<Rightarrow> 'u) list multiset" where
  "remaining xs ss = mset (map to_come xs) + mset (actions ss)"

lemma process_step_distance:
  assumes "process_step x gs y"
  shows "(distance (as @ bs @ (case y of None \<Rightarrow> [] | Some y \<Rightarrow> [y])) ss, distance (as @ x # bs) ss) \<in> mult distance_order"
proof -
  let ?I = "distance (as @ bs) ss" and ?d = "\<lambda>x. (length (to_come x), steps_left x)"
  have "(?I + (case y of None \<Rightarrow> {#} | Some y \<Rightarrow> {#?d y#}), ?I + {#?d x#}) \<in> mult distance_order"
    by (rule one_step_implies_mult) (use assms in \<open>auto elim!: process_step.cases\<close>)
  then show ?thesis by (cases y) (simp_all add: distance_def)
qed

lemma process_step_remaining:
  assumes "process_step x gs y" and "interleaving (remaining (as @ bs @ (case y of None \<Rightarrow> [] | Some y \<Rightarrow> [y])) ss) ys"
  shows "interleaving (remaining (as @ x # bs) ss) (gs @ ys)"
proof -
  have "interleaving (add_mset (case y of None \<Rightarrow> [] | Some y \<Rightarrow> to_come y) (remaining (as @ bs) ss)) ys"
    using assms(2) by (cases y) (simp_all add: remaining_def interleaving_end)
  then have "interleaving (add_mset (to_come x) (remaining (as @ bs) ss)) (gs @ ys)"
    using assms(1) by (auto elim!: process_step.cases intro: interleaving_step)
  then show ?thesis by (simp add: remaining_def)
qed

section \<open>The run\<close>

text \<open>The orders \<open>ss\<close> are still to be placed, the processes \<open>xs\<close> run.\<close>

definition running ::
  "('v, 'u) world \<Rightarrow> ('v, 'u) process list \<Rightarrow> ('v, 'u) order list \<Rightarrow> ('v, 'u) client \<Rightarrow> bool" where
  "running w0 xs ss s \<longleftrightarrow> fst s = ordered ss \<and> process_pool w0 xs (snd s) \<and> (\<forall>(p, f, vs, t)\<in>set ss. arrives p vs t)"

lemma running_step:
  assumes run: "running w0 xs ss s" and step: "concurrent_step s r" and wf0: "wf_world w0"
  shows "\<exists>xs' ss' s' gs. r = ret s' \<and> running w0 xs' ss' s' \<and> (distance xs' ss', distance xs ss) \<in> mult distance_order
    \<and> user (snd s') = run_all gs (user (snd s)) \<and> length xs' + length ss' \<le> length xs + length ss
    \<and> (\<forall>ys. interleaving (remaining xs' ss') ys \<longrightarrow> interleaving (remaining xs ss) (gs @ ys))"
  using step
proof cases
  case (client_subscribes p f js w)
  then obtain p' vs t ss' where ss: "ss = (p', f, vs, t) # ss'" "p = Some p'" "js = ordered ss'" "arrives p' vs t"
    using run by (cases ss) (auto simp: running_def)
  have p: "process_pool w0 xs w" using run client_subscribes by (simp add: running_def)
  then have "wf_world w" by (simp add: process_pool_def)
  from subscription_starts [OF ss(4) this] obtain w1 n U k T where
    1: "Publisher_Subscribe_flow_control exec p f w = ret w1" "moves {} U w w1" "enqueued k T w w1"
      "leads_to n (acts (reactions f vs t)) U T w1"
    unfolding ss(2) by blast
  let ?x = "\<lparr>on = k, next_task = T, steps_left = n, to_come = reactions f vs t, owns = U\<rparr>"
  have "running w0 (xs @ [?x]) ss' (js, w1)"
    using pool_join [OF p 1(2-4)] run ss by (simp add: running_def)
  moreover have "(distance xs ss' + {#(length (reactions f vs t), n)#}, distance xs ss' + {#(Suc (length (reactions f vs t)), 0)#})
      \<in> mult distance_order"
    by (rule one_step_implies_mult) simp_all
  then have "(distance (xs @ [?x]) ss', distance xs ss) \<in> mult distance_order" by (simp add: distance_def ss(1))
  moreover have "user w1 = user w" using moves_user [OF 1(2)] by simp
  moreover have "remaining (xs @ [?x]) ss' = remaining xs ss" "length (xs @ [?x]) + length ss' \<le> length xs + length ss"
    by (simp_all add: remaining_def ss(1))
  ultimately show ?thesis using client_subscribes 1(1)
    by (intro exI [of _ "xs @ [?x]"] exI [of _ ss'] exI [of _ "(js, w1)"] exI [of _ "[]"]) simp
next
  case (worker_runs w r' js)
  have p: "process_pool w0 xs w" using run worker_runs by (simp add: running_def)
  from worker_runs(3) obtain k t ts where k: "queues w k = t # ts" "r' = run_task exec t (w\<lparr>queues := (queues w)(k := ts)\<rparr>)"
    by (auto simp: worker_step.simps simp del: run_task.simps)
  then obtain as x bs w' gs y where 1: "xs = as @ x # bs" "r' = ret w'" "process_step x gs y"
    "process_pool w0 (as @ bs @ (case y of None \<Rightarrow> [] | Some y \<Rightarrow> [y])) w'" "user w' = run_all gs (user w)"
    using pool_worker_step [OF p k(1) wf0] by (elim exE conjE) (rule that; simp del: run_task.simps)
  let ?xs = "as @ bs @ (case y of None \<Rightarrow> [] | Some y \<Rightarrow> [y])"
  have "running w0 ?xs ss (js, w')" using run worker_runs(1) 1(4) by (simp add: running_def)
  moreover have "(distance ?xs ss, distance xs ss) \<in> mult distance_order" unfolding 1(1) by (rule process_step_distance [OF 1(3)])
  moreover have "\<forall>ys. interleaving (remaining ?xs ss) ys \<longrightarrow> interleaving (remaining xs ss) (gs @ ys)"
    unfolding 1(1) using process_step_remaining [OF 1(3)] by blast
  moreover have "length ?xs + length ss \<le> length xs + length ss" by (simp add: 1(1) split: option.splits)
  ultimately show ?thesis using worker_runs(1,2) 1(2,5)
    by (intro exI [of _ ?xs] exI [of _ ss] exI [of _ "(js, w')"] exI [of _ gs]) simp
qed

text \<open>A step of the client and the execution of a task only append to the queues.\<close>

lemma running_subscribes:
  assumes run: "running w0 xs ss ((p, f) # js, w)"
  shows "\<exists>w' us. Publisher_Subscribe_flow_control exec p f w = ret w' \<and> appended us w w'"
proof -
  obtain p' vs t ss' where ss: "p = Some p'" "arrives p' vs t" using run by (cases ss) (auto simp: running_def)
  have "wf_world w" using run by (simp add: running_def process_pool_def)
  from subscription_starts [OF ss(2) this] ss(1) show ?thesis using enqueued_appended by blast
qed

lemma running_executes:
  assumes run: "running w0 xs ss (js, w)" and wf0: "wf_world w0" and k: "queues w k = t # ts"
  shows "\<exists>w' us. run_task exec t (w\<lparr>queues := (queues w)(k := ts)\<rparr>) = ret w'
    \<and> appended us (w\<lparr>queues := (queues w)(k := ts)\<rparr>) w'"
proof -
  have "process_pool w0 xs w" using run by (simp add: running_def)
  from pool_worker_step [OF this k wf0] show ?thesis by blast
qed

lemma wf_distance: "wf (mult distance_order)"
  by (intro wf_mult wf_lex_prod wf_less_than)

lemma running_terminates:
  assumes "running w0 xs ss s" and "wf_world w0"
  shows "Wellfounded.accp (\<lambda>s2 s1. concurrent_step s1 (ret s2)) s"
  using assms(1)
proof (induction "distance xs ss" arbitrary: xs ss s rule: wf_induct_rule [OF wf_distance])
  case 1
  show ?case
  proof (rule accpI)
    fix s2 assume "concurrent_step s (ret s2)"
    from running_step [OF 1(2) this assms(2)] obtain xs' ss' where
      "running w0 xs' ss' s2" "(distance xs' ss', distance xs ss) \<in> mult distance_order" by auto
    then show "Wellfounded.accp (\<lambda>s2 s1. concurrent_step s1 (ret s2)) s2" using 1(1) by blast
  qed
qed

lemma running_steps:
  assumes "concurrent_steps s r" and "running w0 xs ss s" and wf0: "wf_world w0"
  shows "\<exists>xs' ss' s' gs. r = ret s' \<and> running w0 xs' ss' s' \<and> user (snd s') = run_all gs (user (snd s))
    \<and> length xs' + length ss' \<le> length xs + length ss
    \<and> (\<forall>ys. interleaving (remaining xs' ss') ys \<longrightarrow> interleaving (remaining xs ss) (gs @ ys))"
  using assms(1,2)
proof (induction arbitrary: xs ss rule: concurrent_steps.induct)
  case (no_more s)
  then show ?case by (intro exI [of _ xs] exI [of _ ss] exI [of _ s] exI [of _ "[]"]) simp
next
  case (one_more s s1 r)
  obtain xs1 ss1 gs1 where 1: "running w0 xs1 ss1 s1" "user (snd s1) = run_all gs1 (user (snd s))"
    "length xs1 + length ss1 \<le> length xs + length ss"
    "\<forall>ys. interleaving (remaining xs1 ss1) ys \<longrightarrow> interleaving (remaining xs ss) (gs1 @ ys)"
    using running_step [OF one_more.prems one_more.hyps(1) wf0] by auto
  obtain xs' ss' s' gs where 2: "r = ret s'" "running w0 xs' ss' s'" "user (snd s') = run_all gs (user (snd s1))"
    "length xs' + length ss' \<le> length xs1 + length ss1"
    "\<forall>ys. interleaving (remaining xs' ss') ys \<longrightarrow> interleaving (remaining xs1 ss1) (gs @ ys)"
    using one_more.IH [OF 1(1)] by blast
  show ?case using 1(2-4) 2
    by (intro exI [of _ xs'] exI [of _ ss'] exI [of _ s'] exI [of _ "gs1 @ gs"]) simp
next
  case (one_fails s r)
  then show ?case using running_step [OF one_fails.prems one_fails.hyps(1) wf0] by auto
qed

definition over :: "('v, 'u) client \<Rightarrow> bool" where
  "over s \<longleftrightarrow> fst s = [] \<and> queues (snd s) = (\<lambda>_. [])"

lemma concurrent_progress: "over s \<or> (\<exists>r. concurrent_step s r)"
proof (cases s)
  case (Pair js w)
  consider "js \<noteq> []" | k where "queues w k \<noteq> []" | "js = []" "\<And>k. queues w k = []" by blast
  then show ?thesis
  proof cases
    case 1
    then show ?thesis using Pair client_subscribes by (cases js) (auto split: prod.splits, blast)
  next
    case 2
    then obtain t ts where "queues w k = t # ts" by (cases "queues w k") auto
    then show ?thesis using Pair worker_runs oldest_task by blast
  next
    case 3
    then show ?thesis using Pair by (auto simp: over_def)
  qed
qed

lemma running_finishes:
  assumes "running w0 xs ss s" and "wf_world w0"
  shows "\<exists>s'. concurrent_steps s (ret s') \<and> over s'"
  using running_terminates [OF assms] assms(1)
proof (induction arbitrary: xs ss rule: Wellfounded.accp.induct)
  case (accI s)
  show ?case
  proof (cases "over s")
    case True
    then show ?thesis using no_more by blast
  next
    case False
    then obtain r where r: "concurrent_step s r" using concurrent_progress by blast
    obtain xs' ss' s' where s': "r = ret s'" "running w0 xs' ss' s'" using running_step [OF accI.prems r assms(2)] by blast
    then show ?thesis using accI.IH [of s' xs' ss'] r one_more by blast
  qed
qed

lemma running_over:
  assumes "running w0 xs ss s" and "over s"
  shows "xs = [] \<and> ss = []"
  using assms pool_idle [of w0 xs "snd s"] by (cases ss) (auto simp: running_def over_def)

lemma running_start:
  "wf_world w \<Longrightarrow> queues w = (\<lambda>_. []) \<Longrightarrow> \<forall>(p, f, vs, t)\<in>set ss. arrives p vs t \<Longrightarrow> running w [] ss (ordered ss, w)"
  by (simp add: running_def pool_start)

text \<open>One step after the other, for the workers only.\<close>

lemma worker_steps_concurrent: "worker_steps w r \<Longrightarrow> concurrent_steps (js, w) (bnd r (\<lambda>w. ret (js, w)))"
proof (induction rule: worker_steps.induct)
  case (no_step w)
  then show ?case using concurrent_steps.no_more by simp
next
  case (more_steps w w' r)
  then show ?case using worker_runs [OF more_steps.hyps(1), of js] one_more by fastforce
next
  case (step_fails w r)
  then have "\<not> returns (bnd r (\<lambda>w. ret (js, w)))" by (auto simp: returns_iff bnd_eq_ret)
  then show ?case by (rule one_fails [OF worker_runs [OF step_fails.hyps(1)]])
qed

lemma concurrent_worker_steps:
  "concurrent_steps s r \<Longrightarrow> fst s = [] \<Longrightarrow> r = ret s' \<Longrightarrow> worker_steps (snd s) (ret (snd s'))"
proof (induction rule: concurrent_steps.induct)
  case (no_more s)
  then show ?case by (auto intro: no_step)
next
  case (one_more s s1 r)
  from one_more.hyps(1) one_more.prems(1) obtain r1 where "worker_step (snd s) r1" "bnd r1 (\<lambda>w. ret ([], w)) = ret s1"
    by cases auto
  then have "worker_step (snd s) (ret (snd s1))" "fst s1 = []" by auto
  with one_more show ?case by (blast intro: more_steps)
qed simp

lemma concurrent_terminates_workers:
  "Wellfounded.accp (\<lambda>s2 s1. concurrent_step s1 (ret s2)) s \<Longrightarrow> Wellfounded.accp (\<lambda>w2 w1. worker_step w1 (ret w2)) (snd s)"
proof (induction rule: Wellfounded.accp.induct)
  case (accI s)
  show ?case
  proof (rule accpI)
    fix w2 assume "worker_step (snd s) (ret w2)"
    from worker_runs [OF this, of "fst s"] have "concurrent_step s (ret (fst s, w2))" by simp
    from accI.IH [OF this] show "Wellfounded.accp (\<lambda>w2 w1. worker_step w1 (ret w2)) w2" by simp
  qed
qed

text \<open>What holds at every moment, and what holds in the end.\<close>

lemma concurrent_outcome:
  assumes run: "concurrent_steps (ordered ss, w) r" and orders: "\<forall>(p, f, vs, t)\<in>set ss. arrives p vs t"
    and wf: "wf_world w" "queues w = (\<lambda>_. [])"
  shows "\<exists>js w' ts. r = ret (js, w') \<and> length ts + length js \<le> length ss
    \<and> (\<forall>k. queues w' k = tasks_for k ts)
    \<and> (over (js, w') \<longrightarrow> (\<exists>gs. interleaving (mset (actions ss)) gs \<and> user w' = run_all gs (user w))
         \<and> heap w' = heap w \<and> refs w' = refs w \<and> impl w' = impl w)"
proof -
  obtain xs ss' js w' gs where 1: "r = ret (js, w')" "running w xs ss' (js, w')" "user w' = run_all gs (user w)"
    "length xs + length ss' \<le> length ss" "\<forall>ys. interleaving (remaining xs ss') ys \<longrightarrow> interleaving (remaining [] ss) (gs @ ys)"
    using running_steps [OF run running_start [OF wf orders] wf(1)] by auto
  let ?ts = "map (\<lambda>x. (on x, next_task x)) xs"
  have "queues w' k = tasks_for k ?ts" for k
    using 1(2) by (simp add: running_def process_pool_def tasks_for_def filter_map comp_def)
  moreover have "length ?ts + length js \<le> length ss" using 1(2,4) by (simp add: running_def ordered_def)
  moreover have "(\<exists>gs. interleaving (mset (actions ss)) gs \<and> user w' = run_all gs (user w))
      \<and> heap w' = heap w \<and> refs w' = refs w \<and> impl w' = impl w" if "over (js, w')"
  proof -
    have e: "xs = []" "ss' = []" using running_over [OF 1(2) that] by simp_all
    then have "interleaving (mset (actions ss)) gs"
      using 1(5) [rule_format, of "[]"] interleaving_Nil by (simp add: remaining_def)
    then show ?thesis using 1(2,3) e pool_nil [of w w'] by (auto simp: running_def)
  qed
  ultimately show ?thesis using 1(1) by blast
qed

section \<open>The properties\<close>

text \<open>
  C2: with automatic flow control, a pipeline with \<open>Async\<close> in any places (over a generator, and with
  maps and casts before, between and after) delivers exactly what it delivers synchronously: in every
  interleaving of the workers, which may be the same ones, no check fails and no freed object is used,
  at most one task is queued on all workers together, so that no two calls ever run concurrently, the
  tasks run out after finitely many steps, and then the subscriber has received every value in order
  and the terminal status once, and everything allocated is freed.
\<close>

theorem Publisher_Async_delivers:
  fixes w :: "('v, 'u) world"
  assumes "arrives p vs t" and "wf_world w" and "queues w = (\<lambda>_. [])"
  shows "\<exists>w1. Publisher_Subscribe_flow_control exec (Some p) f w = ret w1
    \<and> Wellfounded.accp (\<lambda>w3 w2. worker_step w2 (ret w3)) w1
    \<and> (\<exists>w'. worker_steps w1 (ret w') \<and> queues w' = (\<lambda>_. []))
    \<and> (\<forall>r. worker_steps w1 r \<longrightarrow> (\<exists>w'. r = ret w'
        \<and> (queues w' = (\<lambda>_. []) \<or> (\<exists>k t. queues w' = (\<lambda>_. [])(k := [t])))
        \<and> (queues w' = (\<lambda>_. []) \<longrightarrow>
            user w' = received f vs t (user w) \<and> heap w' = heap w \<and> refs w' = refs w \<and> impl w' = impl w)))"
proof -
  let ?ss = "[(p, f, vs, t)]"
  have orders: "\<forall>(p, f, vs, t)\<in>set ?ss. arrives p vs t" using assms(1) by simp
  obtain w1 where 1: "Publisher_Subscribe_flow_control exec (Some p) f w = ret w1"
    using subscription_starts [OF assms(1,2)] by blast
  then have step: "concurrent_step (ordered ?ss, w) (ret ([], w1))" using client_subscribes [of "Some p" f "[]" w] by simp
  obtain xs' ss' where "running w xs' ss' ([], w1)"
    using running_step [OF running_start [OF assms(2,3) orders] step assms(2)] by auto
  note ends = running_terminates [OF this assms(2)] running_finishes [OF this assms(2)]
  have "Wellfounded.accp (\<lambda>w3 w2. worker_step w2 (ret w3)) w1" using concurrent_terminates_workers [OF ends(1)] by simp
  moreover have "\<exists>w'. worker_steps w1 (ret w') \<and> queues w' = (\<lambda>_. [])"
    using ends(2) concurrent_worker_steps [where s = "([], w1)", OF _ _ refl] by (fastforce simp: over_def)
  moreover have "\<exists>w'. r = ret w' \<and> (queues w' = (\<lambda>_. []) \<or> (\<exists>k t. queues w' = (\<lambda>_. [])(k := [t])))
      \<and> (queues w' = (\<lambda>_. []) \<longrightarrow> user w' = received f vs t (user w) \<and> heap w' = heap w \<and> refs w' = refs w \<and> impl w' = impl w)"
    if r: "worker_steps w1 r" for r
  proof -
    have "concurrent_steps (ordered ?ss, w) (bnd r (\<lambda>w. ret ([], w)))"
      using one_more [OF step] worker_steps_concurrent [OF r] by blast
    from concurrent_outcome [OF this orders assms(2,3)] obtain js w' ts where
      1: "bnd r (\<lambda>w. ret ([] :: (('v, 'u) publisher \<times> ('v event \<Rightarrow> 'u \<Rightarrow> 'u)) list, w)) = ret (js, w')"
        "length ts + length js \<le> length ?ss" and 2: "\<forall>k. queues w' k = tasks_for k ts"
        "over (js, w') \<longrightarrow> (\<exists>gs. interleaving (mset (actions ?ss)) gs \<and> user w' = run_all gs (user w))
           \<and> heap w' = heap w \<and> refs w' = refs w \<and> impl w' = impl w"
      by (elim exE conjE) (rule that)
    from 1 have 3: "r = ret w'" "js = []" "length ts \<le> 1" by auto
    have "queues w' = (\<lambda>_. []) \<or> (\<exists>k t. queues w' = (\<lambda>_. [])(k := [t]))"
    proof (cases ts)
      case (Cons x ts')
      then have "queues w' = (\<lambda>_. [])(fst x := [snd x])" using 2(1) 3(3) by (auto simp: fun_eq_iff tasks_for_def split: prod.splits)
      then show ?thesis by blast
    qed (use 2(1) in \<open>auto simp: tasks_for_def\<close>)
    then show ?thesis using 3(1,2) 2(2) by (auto simp: over_def run_reactions dest!: interleaving_single [OF _ refl])
  qed
  ultimately show ?thesis using 1 by blast
qed

text \<open>
  C4: concurrent subscriptions with automatic flow control to such pipelines, whatever workers
  they use: in every interleaving of the workers' tasks with each other and with the further
  subscriptions, no check fails and no freed object is used, everything comes to an end, and then each
  subscriber has received every value of its pipeline in order and its terminal status once; their
  effects on the user's state, which they may share, are those of some interleaving of these sequences,
  and every object is freed.
\<close>

theorem Publisher_Async_concurrently:
  fixes w :: "('v, 'u) world"
  assumes "\<forall>(p, f, vs, t)\<in>set ss. arrives p vs t" and "wf_world w" and "queues w = (\<lambda>_. [])"
  shows "Wellfounded.accp (\<lambda>s2 s1. concurrent_step s1 (ret s2)) (ordered ss, w)
    \<and> (\<exists>s. concurrent_steps (ordered ss, w) (ret s) \<and> over s)
    \<and> (\<forall>r. concurrent_steps (ordered ss, w) r \<longrightarrow> (\<exists>js w'. r = ret (js, w') \<and> (over (js, w') \<longrightarrow>
        (\<exists>gs. interleaving (mset (actions ss)) gs \<and> user w' = run_all gs (user w))
        \<and> heap w' = heap w \<and> refs w' = refs w \<and> impl w' = impl w)))"
proof (intro conjI allI impI)
  note run = running_start [OF assms(2,3,1)]
  show "Wellfounded.accp (\<lambda>s2 s1. concurrent_step s1 (ret s2)) (ordered ss, w)" by (rule running_terminates [OF run assms(2)])
  show "\<exists>s. concurrent_steps (ordered ss, w) (ret s) \<and> over s" by (rule running_finishes [OF run assms(2)])
  fix r assume "concurrent_steps (ordered ss, w) r"
  from concurrent_outcome [OF this assms] show "\<exists>js w'. r = ret (js, w') \<and> (over (js, w') \<longrightarrow>
      (\<exists>gs. interleaving (mset (actions ss)) gs \<and> user w' = run_all gs (user w))
      \<and> heap w' = heap w \<and> refs w' = refs w \<and> impl w' = impl w)" by blast
qed

text \<open>
  A generator of 1, 2 under \<open>Async\<close> from worker 0 to worker 1, a cast that adds ten, and \<open>Async\<close> from
  worker 1 to worker 2.
\<close>

theorem Publisher_Async_delivers_witness:
  "\<exists>p w1 w'. bnd (Publisher_Async 0 1 (Some (CreateValuePublisher [Val (1 :: nat), Val 2]))) (\<lambda>q.
       bnd (Publisher_StaticCast (case_val (Val \<circ> (+) 10) SizeVal TriggerVal Vec Variant) q) (Publisher_Async 1 2)) = ret p
     \<and> Publisher_Subscribe_flow_control exec p buffering_next (empty_world ([], [])) = ret w1
     \<and> worker_steps w1 (ret w') \<and> user w' = ([Val 11, Val 12], [Done]) \<and> heap w' = Map.empty"
proof -
  let ?w = "empty_world ([], []) :: (nat, nat val list \<times> Status list) world"
  let ?g = "case_val (Val \<circ> (+) 10) SizeVal TriggerVal Vec Variant"
  let ?p = "AsyncPublisher 1 2 (Some (ChainingPublisher
    (AsyncPublisher 0 1 (Some (CreateValuePublisher [Val (1 :: nat), Val 2]))) (CastFn ?g)))"
  have "arrives ?p (map ?g [Val (1 :: nat), Val 2]) Done"
    by (intro arrives_async arrives_cast arrives_rests rests_values) simp
  then have 0: "arrives ?p [Val (11 :: nat), Val 12] Done" "wf_world ?w" "queues ?w = (\<lambda>_. [])"
    by (simp_all add: wf_world_def empty_world_def)
  from Publisher_Async_delivers [where f = buffering_next, OF 0] obtain w1 w' where
    1: "Publisher_Subscribe_flow_control exec (Some ?p) buffering_next ?w = ret w1"
    and w': "worker_steps w1 (ret w')" "queues w' = (\<lambda>_. [])"
    and all: "\<forall>r. worker_steps w1 r \<longrightarrow> (\<exists>w'. r = ret w'
        \<and> (queues w' = (\<lambda>_. []) \<or> (\<exists>k t. queues w' = (\<lambda>_. [])(k := [t])))
        \<and> (queues w' = (\<lambda>_. []) \<longrightarrow> user w' = received buffering_next [Val 11, Val 12] Done (user ?w)
          \<and> heap w' = heap ?w \<and> refs w' = refs ?w \<and> impl w' = impl ?w))"
    by (elim exE conjE) (rule that)
  with all have "user w' = ([Val 11, Val 12], [Done])" "heap w' = Map.empty"
    by (auto simp: empty_world_def received_def buffering_next_def)
  then show ?thesis using 1 w'(1)
    by (intro exI [of _ "Some ?p"] exI [of _ w1] exI [of _ w'])
      (simp add: Publisher_Async_def Publisher_StaticCast_def)
qed

text \<open>Two pipelines with a common worker; the user's state counts the events of both.\<close>

theorem Publisher_Async_concurrently_witness:
  "\<exists>w'. concurrent_steps ([(Some (AsyncPublisher 0 1 (Some (CreateValuePublisher [Val (7 :: nat), Val 8]))), \<lambda>e. Suc),
      (Some (AsyncPublisher 1 2 (Some (CreateValuePublisher [Val 9]))), \<lambda>e. Suc)], empty_world 0) (ret ([], w'))
    \<and> user w' = 5 \<and> heap w' = Map.empty"
proof -
  let ?p = "AsyncPublisher 0 1 (Some (CreateValuePublisher [Val (7 :: nat), Val 8])) :: (nat, nat) pub"
  let ?q = "AsyncPublisher 1 2 (Some (CreateValuePublisher [Val (9 :: nat)])) :: (nat, nat) pub"
  let ?ss = "[(?p, \<lambda>e. Suc, [Val 7, Val 8], Done), (?q, \<lambda>e. Suc, [Val 9], Done)]"
  let ?w = "empty_world 0 :: (nat, nat) world"
  have "arrives ?p [Val 7, Val 8] Done" "arrives ?q [Val 9] Done" by (intro arrives_rests rests_values; simp)+
  then have 0: "\<forall>(p, f, vs, t)\<in>set ?ss. arrives p vs t" "wf_world ?w" "queues ?w = (\<lambda>_. [])"
    by (simp_all add: wf_world_def empty_world_def)
  note run = Publisher_Async_concurrently [OF 0]
  then obtain js w' where 1: "concurrent_steps (ordered ?ss, ?w) (ret (js, w'))" "over (js, w')" by auto
  with run obtain gs where 2: "interleaving (mset (actions ?ss)) gs" "user w' = run_all gs 0" "heap w' = Map.empty"
    by (fastforce simp: empty_world_def)
  have "run_all gs = run_all (concat (actions ?ss))" by (rule run_all_interleaving [OF 2(1)]) auto
  then have "user w' = 5" using 2(2) by simp
  then show ?thesis using 1 2(3) by (auto simp: over_def)
qed

end
