(* ===== verification/Stateful_FlatMap.thy ===== *)
theory Stateful_FlatMap
  imports Pipelines
begin

text \<open>
  \<open>FlatMap\<close> with a continuation that reads and changes the user's state, consumed with automatic
  flow control. The relation \<open>flat_serves\<close> says in which order the effects happen: for each value
  of the base in turn, the continuation runs once on the state as the subscriber left it, and then
  the subscriber sees the values of the publisher it returned.
\<close>

definition deliver_values :: "('v event \<Rightarrow> 'u \<Rightarrow> 'u) \<Rightarrow> 'v val list \<Rightarrow> 'u \<Rightarrow> 'u" where
  "deliver_values f ws u = fold (\<lambda>v. f (ValueRepr v)) ws u"

lemma deliver_values_simps [simp]:
  "deliver_values f [] u = u" "deliver_values f (w # ws) u = deliver_values f ws (f (ValueRepr w) u)"
  by (simp_all add: deliver_values_def)

lemma received_deliver: "received f vs t u = f (StatusRepr t) (deliver_values f vs u)"
  by (simp add: received_def deliver_values_def)

inductive flat_serves ::
  "('v val \<Rightarrow> 'u \<Rightarrow> ('v, 'u) publisher \<times> 'u) \<Rightarrow> ('v event \<Rightarrow> 'u \<Rightarrow> 'u) \<Rightarrow> 'v val list \<Rightarrow> 'u \<Rightarrow> 'u \<Rightarrow> bool"
  for kf f where
  serves_none: "flat_serves kf f [] u u"
| serves_value: "kf v u = (Some p, u1) \<Longrightarrow> emits 1 p ws tc \<Longrightarrow> code tc = OUT_OF_RANGE \<Longrightarrow>
    flat_serves kf f vs (deliver_values f ws u1) u2 \<Longrightarrow> flat_serves kf f (v # vs) u u2"

inductive_cases serves_noneE [elim!]: "flat_serves kf f [] u u2"
inductive_cases serves_valueE: "flat_serves kf f (v # vs) u u2"

section \<open>The subscriber takes the values of one continuation\<close>

lemma flow_control_ready_then:
  assumes "flow_control_at d f u w"
    and "\<And>w'. flow_control_at d f (deliver_values f ws u) w' \<Longrightarrow> R 0 w'"
  shows "ready_then d s {Cell d, UserState} 1 R ws 0 w"
  using assms
proof (induction ws arbitrary: u w)
  case (Cons v ws)
  show ?case unfolding ready_then.simps
  proof (intro conjI allI impI)
    fix w1 U and Up :: "nat \<Rightarrow> ('a, 'b) world \<Rightarrow> bool"
    assume del: "delivering s {Cell d, UserState} U Up 1 0 w w1"
    obtain w3 where 3: "exec (OnNext d s (ValueRepr v)) w1 = ret w3"
      "same_except ({Cell d, UserState} \<union> U) w1 w3" "Up (Suc 0) w3" "flow_control_at d f (f (ValueRepr v) u) w3"
      using flow_control_value [OF Cons.prems(1) del] by blast
    have "ready_then d s {Cell d, UserState} 1 R ws 0 w3"
      by (rule Cons.IH [OF 3(4)]) (use Cons.prems(2) in simp)
    with 3 show "\<exists>w'' j'. exec (OnNext d s (ValueRepr v)) w1 = ret w''
        \<and> same_except ({Cell d, UserState} \<union> U) w1 w'' \<and> Up (Suc j') w''
        \<and> ready_then d s {Cell d, UserState} 1 R ws j' w''"
      by blast
  qed simp
qed simp

lemma flow_control_flat_ready:
  assumes "flat_serves kf f vs u u'" and "flow_control_at d f u w" and t: "code t \<noteq> OK"
  shows "flat_ready_to kf d s {Cell d, UserState} 1
    (\<lambda>w. heap w d = None \<and> refs w d = 0 \<and> user w = f (StatusRepr t) u') t vs 0 w"
  using assms(1,2)
proof (induction arbitrary: w rule: flat_serves.induct)
  case (serves_none u)
  then show ?case using flow_control_ready [OF serves_none t, of s "[]"] by (simp add: received_deliver)
next
  case (serves_value v u p u1 ws tc vs u2)
  let ?R = "flat_ready_to kf d s {Cell d, UserState} 1
    (\<lambda>w. heap w d = None \<and> refs w d = 0 \<and> user w = f (StatusRepr t) u2) t vs"
  have "\<exists>p u1 ws tc. kf v (user w') = (Some p, u1) \<and> (UserState \<in> {Cell d, UserState} \<or> u1 = user w')
      \<and> code tc = OUT_OF_RANGE \<and> pub_ok 1 p tc ws
      \<and> ready_then d s {Cell d, UserState} 1 ?R ws 0 (w'\<lparr>user := u1\<rparr>)"
    if "same_on {Cell d, UserState} w w'" for w'
  proof (intro exI conjI)
    show "kf v (user w') = (Some p, u1)" using that serves_value by (simp add: flow_control_at_def)
    show "pub_ok 1 p tc ws" using serves_value.hyps by (intro emits_pub_ok)
    have "flow_control_at d f u1 (w'\<lparr>user := u1\<rparr>)"
      using that serves_value.prems by (simp add: flow_control_at_def)
    then show "ready_then d s {Cell d, UserState} 1 ?R ws 0 (w'\<lparr>user := u1\<rparr>)"
      by (rule flow_control_ready_then) (rule serves_value.IH)
  qed (use serves_value.hyps in simp_all)
  then show ?case unfolding flat_ready_to.simps by blast
qed

lemma flow_control_flat_start:
  assumes "flat_serves kf f vs u u'" and "flow_control_at d f u w" and "code t \<noteq> OK"
  shows "flat_start kf d {Cell d, UserState} 1
    (\<lambda>w. heap w d = None \<and> refs w d = 0 \<and> user w = f (StatusRepr t) u') t vs w"
  unfolding flat_start_def
proof (intro allI impI, elim conjE)
  fix w1 s assume "same_on {Cell d, UserState} w w1"
  then have at1: "flow_control_at d f u w1" using assms(2) by (simp add: flow_control_at_def)
  then have "exec (OnSubscribe d s) w1 = Subscription_Request exec s (of_nat (Suc 0)) w1"
    by (simp add: flow_control_at_def exec_OnSubscribe FunctionalSubscriber_OnSubscribe_def)
  then show "\<exists>j w''. same_except {Cell d, UserState} w1 w'' \<and> flat_ready_to kf d s {Cell d, UserState} 1
      (\<lambda>w. heap w d = None \<and> refs w d = 0 \<and> user w = f (StatusRepr t) u') t vs j w''
      \<and> exec (OnSubscribe d s) w1 = Subscription_Request exec s (of_nat (Suc j)) w''"
    using flow_control_flat_ready [OF assms(1) at1 assms(3)] same_except_refl by blast
qed

text \<open>The subscription returns, with the user's state as \<open>flat_serves\<close> says, and leaves nothing behind.\<close>

definition runs_to_state ::
  "('v, 'u) publisher \<Rightarrow> ('v event \<Rightarrow> 'u \<Rightarrow> 'u) \<Rightarrow> 'u \<Rightarrow> ('v, 'u) world \<Rightarrow> bool" where
  "runs_to_state p f u' w \<longleftrightarrow>
     (\<exists>w'. Publisher_Subscribe_flow_control exec p f w = ret w' \<and> user w' = u'
       \<and> heap w' = heap w \<and> refs w' = refs w \<and> impl w' = impl w \<and> queues w' = queues w \<and> wf_world w')"

lemma flat_serves_runs:
  assumes "emits 1 p vs t" and "flat_serves kf f vs (user w) u'" and "wf_world w"
  shows "runs_to_state (Some (FlatMapPublisher p kf)) f (f (StatusRepr t) u') w"
  unfolding runs_to_state_def
proof (rule flow_control_subscribe [OF _ assms(3)])
  have t: "code t \<noteq> OK" using emits_terminal [OF assms(1)] .
  fix d and w1 :: "('a, 'b) world"
  assume at1: "flow_control_at d f (user w) w1" and wf: "wf_world w1" "{Cell d, UserState} \<subseteq> old w1"
  have "stable_on {Cell d, UserState} (\<lambda>w. heap w d = None \<and> refs w d = 0 \<and> user w = f (StatusRepr t) u')"
    by (simp add: stable_on_def)
  from flat_subscribe [OF emits_pub_ok [OF assms(1)] wf this flow_control_flat_start [OF assms(2) at1 t] t]
  show "\<exists>w'. exec (DoSubscribe (FlatMapPublisher p kf) d) w1 = ret w' \<and> same_except {Cell d, UserState} w1 w'
      \<and> heap w' d = None \<and> refs w' d = 0 \<and> user w' = f (StatusRepr t) u'"
    by simp
qed

section \<open>Property\<close>

text \<open>
  C10: \<open>FlatMap\<close> calls its continuation exactly once per value of the base and in order, after the
  subscriber has received everything the earlier continuations published, and the subscription runs
  to its end; so a continuation may keep state between calls.
\<close>

theorem Publisher_FlatMap_calls_in_order:
  assumes "emits 1 p vs t" and "flat_serves kf f vs (user w) u'" and "wf_world w"
  shows "\<exists>q. Publisher_FlatMap kf (Some p) = ret q \<and> runs_to_state q f (f (StatusRepr t) u') w"
  using flat_serves_runs [OF assms] by (simp add: Publisher_FlatMap_def)

text \<open>A continuation that numbers the values it sees.\<close>

definition numbering :: "nat val \<Rightarrow> nat \<times> 'r \<Rightarrow> (nat, nat \<times> 'r) publisher \<times> nat \<times> 'r" where
  "numbering v = (\<lambda>(n, r). (Some (CreateValuePublisher [Val n, v]), Suc n, r))"

definition record_next :: "nat event \<Rightarrow> nat \<times> nat val list \<Rightarrow> nat \<times> nat val list" where
  "record_next e = (\<lambda>(n, vs). (n, case e of ValueRepr v \<Rightarrow> vs @ [v] | StatusRepr _ \<Rightarrow> vs))"

theorem Publisher_FlatMap_calls_in_order_witness:
  "\<exists>q. Publisher_FlatMap numbering (Some (CreateValuePublisher [Val 5, Val 6])) = ret q
    \<and> runs_to_state q record_next (record_next (StatusRepr Done) (2, [Val 0, Val 5, Val 1, Val 6])) (empty_world (0, []))"
proof (rule Publisher_FlatMap_calls_in_order)
  show "emits 1 (CreateValuePublisher [Val 5, Val 6]) [Val 5, Val 6] Done" by (rule emits_values) simp_all
  have "flat_serves numbering record_next [Val 5, Val 6] (0, []) (2, [Val 0, Val 5, Val 1, Val 6])"
  proof (rule serves_value [where ws = "[Val 0, Val 5]" and tc = Done])
    show "flat_serves numbering record_next [Val 6] (deliver_values record_next [Val 0, Val 5] (Suc 0, []))
        (2, [Val 0, Val 5, Val 1, Val 6])"
    proof (rule serves_value [where ws = "[Val 1, Val 6]" and tc = Done])
      show "flat_serves numbering record_next [] (deliver_values record_next [Val 1, Val 6] (2, [Val 0, Val 5]))
          (2, [Val 0, Val 5, Val 1, Val 6])"
        by (simp add: record_next_def serves_none)
    qed (auto simp: numbering_def record_next_def intro: emits_values)
  qed (auto simp: numbering_def intro: emits_values)
  then show "flat_serves numbering record_next [Val 5, Val 6] (user (empty_world (0, []))) (2, [Val 0, Val 5, Val 1, Val 6])"
    by (simp add: empty_world_def)
qed simp

end
