(* ===== verification/Examples.thy ===== *)
theory Examples
  imports Stateful_FlatMap Asynchronous "HOL-Library.List_Lexorder" "HOL-Library.Char_ord"
begin

text \<open>
  The example programs (\<open>example/examples.cc\<close>): the helpers of the sieve of Eratosthenes, the state
  machines built on \<open>FlatMap\<close> with the coffee and the authentication machine, and activities. A
  machine object is shared by its pipeline and kept by reference, so its state is part of the user's
  state, paired with whatever the subscriber keeps. The doubles of the coffee machine are exact
  rationals, the ints of the sieve unbounded.
\<close>

section \<open>Basics\<close>

text \<open>The pipeline of the test \<open>Basic\<close>, and its run.\<close>

definition Basic_pub :: "(int, 'u) publisher res" where
  "Basic_pub =
     bnd (Publisher_Map (\<lambda>v u. (ValueRepr (case v of Val x \<Rightarrow> Val (x + 1) | _ \<Rightarrow> v), u))
       (Publisher_values [Val 1, Val 2, Val 3])) (Publisher_Buffer 2)"

lemma Basic:
  "map_option (map_sum id user)
      (bnd Basic_pub (\<lambda>p. Publisher_Subscribe_flow_control exec p buffering_next (empty_world ([], []))))
    = ret ([Vec [Val 2, Val 3], Vec [Val 4]], [Done])"
  by code_simp

section \<open>Sieve of Eratosthenes\<close>

definition From :: "int \<Rightarrow> (int, 'u) publisher" where
  "From n = Publisher_Generator (Val n)
     (\<lambda>st u. case st of Val k \<Rightarrow> (ValueRepr (Val k), Val (k + 1), u) | _ \<Rightarrow> (StatusRepr Done, st, u))"

text \<open>The predicate and the action may refer to the user's state.\<close>

definition Filter_cont :: "(int \<Rightarrow> 'u \<Rightarrow> bool) \<Rightarrow> int val \<Rightarrow> 'u \<Rightarrow> (int, 'u) publisher \<times> 'u" where
  "Filter_cont predicate v u =
     ((case v of Val x \<Rightarrow> if predicate x u then Publisher_value v else Publisher_empty | _ \<Rightarrow> Publisher_empty), u)"

definition Filter :: "(int, 'u) publisher \<Rightarrow> (int \<Rightarrow> 'u \<Rightarrow> bool) \<Rightarrow> (int, 'u) publisher res" where
  "Filter ints predicate = Publisher_FlatMap (Filter_cont predicate) ints"

definition Do :: "(int, 'u) publisher \<Rightarrow> (int \<Rightarrow> 'u \<Rightarrow> 'u) \<Rightarrow> (int, 'u) publisher res" where
  "Do ints action =
     Publisher_Map (\<lambda>v u. (ValueRepr v, case v of Val x \<Rightarrow> action x u | _ \<Rightarrow> u)) ints"

text \<open>The two closures of the sieve, over the evolving predicate.\<close>

definition is_candidate :: "int \<Rightarrow> (int \<Rightarrow> bool) \<times> 'r \<Rightarrow> bool" where
  "is_candidate i u = fst u i"

definition refine :: "int \<Rightarrow> (int \<Rightarrow> bool) \<times> 'r \<Rightarrow> (int \<Rightarrow> bool) \<times> 'r" where
  "refine prime u = (\<lambda>v. fst u v \<and> v mod prime \<noteq> 0, snd u)"

text \<open>
  The pipeline of the test \<open>SieveOfEratosthenes\<close>. The user's state is the predicate, and then the
  subscription and the elements that the subscriber keeps.
\<close>

type_synonym sieve_state = "(int \<Rightarrow> bool) \<times> sid \<times> int list"

definition primes :: "(int, sieve_state) publisher res" where
  "primes = bnd (Filter (From 2) is_candidate) (\<lambda>filtered. Do filtered refine)"

definition keep_subscription :: "sieve_state ustep" where
  "keep_subscription s ended = (\<lambda>(p, _, xs). ((p, s, xs), NoAction))"

definition keep_element :: "int event \<Rightarrow> sieve_state ustep" where
  "keep_element e s ended = (\<lambda>(p, q, xs). ((p, q, case e of ValueRepr (Val x) \<Rightarrow> xs @ [x] | _ \<Rightarrow> xs), NoAction))"

definition sieve_subscribe :: "(int, sieve_state) world res" where
  "sieve_subscribe = bnd primes (\<lambda>p. Publisher_Subscribe_functions exec p (SubscribeUser [keep_subscription])
     (NextUser (\<lambda>e. [keep_element e])) (empty_world (\<lambda>_. True, 0, [])))"

definition sieve_request :: "(int, sieve_state) world \<Rightarrow> (int, sieve_state) world res" where
  "sieve_request w = Subscription_Request exec (fst (snd (user w))) 1 w"

primrec sieve :: "nat \<Rightarrow> (int, sieve_state) world res" where
  "sieve 0 = sieve_subscribe"
| "sieve (Suc n) = bnd (sieve n) sieve_request"

text \<open>The run of the test: five requests, then \<open>Cancel\<close>, which frees every object.\<close>

lemma SieveOfEratosthenes:
  "map_option (map_sum id (\<lambda>w. (snd (snd (user w)), filter (\<lambda>a. heap w a \<noteq> None) [0..<next_addr w])))
      (bnd (sieve 5) (\<lambda>w. Subscription_Cancel exec (fst (snd (user w))) w))
    = ret ([2, 3, 5, 7, 11], [])"
  by code_simp

section \<open>State machines\<close>

text \<open>
  \<open>StateMachine::Apply\<close>: \<open>visit\<close> is the dispatch of \<open>absl::visit\<close> over the alternatives of an
  input, on the machine that the closure shares.
\<close>

definition StateMachine_Apply ::
  "('v val \<Rightarrow> 'm \<Rightarrow> ('v, 'm \<times> 'r) publisher \<times> 'm) \<Rightarrow> ('v, 'm \<times> 'r) publisher \<Rightarrow> ('v, 'm \<times> 'r) publisher res" where
  "StateMachine_Apply visit input =
     Publisher_FlatMap (\<lambda>elem (self, r). let (p, self) = visit elem self in (p, self, r)) input"

subsection \<open>The coffee machine\<close>

definition kCostPerOunce :: rat where
  "kCostPerOunce = 1 / 4"

datatype CoffeeInput = CoinInserted rat | CoffeeRequested rat
datatype CoffeeOutput = DispenseCoffee rat | NeedMoreMoney rat

text \<open>The values of the variant types \<open>CoffeeInput\<close> and \<open>CoffeeOutput\<close> in a stream.\<close>

fun coffee_input :: "CoffeeInput \<Rightarrow> rat val" where
  "coffee_input (CoinInserted x) = Variant 0 (Val x)"
| "coffee_input (CoffeeRequested x) = Variant 1 (Val x)"

fun coffee_output :: "CoffeeOutput \<Rightarrow> rat val" where
  "coffee_output (DispenseCoffee x) = Variant 0 (Val x)"
| "coffee_output (NeedMoreMoney x) = Variant 1 (Val x)"

record CoffeeMachine =
  deposit :: rat

definition CoffeeMachine_Create :: CoffeeMachine where
  "CoffeeMachine_Create = \<lparr>deposit = 0\<rparr>"

definition CoffeeMachine_CoinInserted :: "rat \<Rightarrow> CoffeeMachine \<Rightarrow> (rat, 'u) publisher \<times> CoffeeMachine" where
  "CoffeeMachine_CoinInserted coin m = (Publisher_empty, m\<lparr>deposit := deposit m + coin\<rparr>)"

definition CoffeeMachine_CoffeeRequested :: "rat \<Rightarrow> CoffeeMachine \<Rightarrow> (rat, 'u) publisher \<times> CoffeeMachine" where
  "CoffeeMachine_CoffeeRequested ounces m =
     (let cost = ounces * kCostPerOunce
      in if cost > deposit m then (Publisher_value (coffee_output (NeedMoreMoney (cost - deposit m))), m)
         else (Publisher_value (coffee_output (DispenseCoffee ounces)), m\<lparr>deposit := deposit m - cost\<rparr>))"

text \<open>A value of the input type is one of its two alternatives.\<close>

fun CoffeeMachine_visit :: "rat val \<Rightarrow> CoffeeMachine \<Rightarrow> (rat, 'u) publisher \<times> CoffeeMachine" where
  "CoffeeMachine_visit (Variant i (Val x)) m =
     (if i = 0 then CoffeeMachine_CoinInserted x m else CoffeeMachine_CoffeeRequested x m)"
| "CoffeeMachine_visit _ m = (None, m)"

subsection \<open>Finite state machines\<close>

text \<open>\<open>FiniteStateMachine::Apply\<close> dispatches on the machine's state and on the input.\<close>

record 's FiniteStateMachine =
  state :: 's

definition SwitchTo :: "'s \<Rightarrow> 's FiniteStateMachine \<Rightarrow> 's FiniteStateMachine" where
  "SwitchTo st m = m\<lparr>state := st\<rparr>"

definition FiniteStateMachine_Apply ::
  "('s \<Rightarrow> 'v val \<Rightarrow> 's FiniteStateMachine \<Rightarrow> ('v, 's FiniteStateMachine \<times> 'r) publisher \<times> 's FiniteStateMachine)
    \<Rightarrow> ('v, 's FiniteStateMachine \<times> 'r) publisher \<Rightarrow> ('v, 's FiniteStateMachine \<times> 'r) publisher res" where
  "FiniteStateMachine_Apply visit input =
     Publisher_FlatMap (\<lambda>elem (self, r). let (p, self) = visit (state self) elem self in (p, self, r)) input"

datatype AuthState = Unauthenticated | Authenticated
datatype AuthInput = Login | Logout | Privileged
datatype AuthOutput = Success | Failure

fun auth_input :: "AuthInput \<Rightarrow> unit val" where
  "auth_input Login = Variant 0 (Val ())"
| "auth_input Logout = Variant 1 (Val ())"
| "auth_input Privileged = Variant 2 (Val ())"

fun auth_output :: "AuthOutput \<Rightarrow> unit val" where
  "auth_output Success = Variant 0 (Val ())"
| "auth_output Failure = Variant 1 (Val ())"

type_synonym AuthMachine = "AuthState FiniteStateMachine"

definition AuthMachine_Create :: AuthMachine where
  "AuthMachine_Create = \<lparr>state = Unauthenticated\<rparr>"

fun AuthMachine_rule :: "AuthState \<Rightarrow> AuthInput \<Rightarrow> AuthMachine \<Rightarrow> (unit, 'u) publisher \<times> AuthMachine" where
  "AuthMachine_rule Unauthenticated Privileged m = (Publisher_value (auth_output Failure), m)"
| "AuthMachine_rule Unauthenticated Logout m = (Publisher_value (auth_output Failure), m)"
| "AuthMachine_rule Unauthenticated Login m = (Publisher_value (auth_output Success), SwitchTo Authenticated m)"
| "AuthMachine_rule Authenticated Privileged m = (Publisher_value (auth_output Success), m)"
| "AuthMachine_rule Authenticated Logout m = (Publisher_value (auth_output Success), SwitchTo Unauthenticated m)"
| "AuthMachine_rule Authenticated Login m = (Publisher_value (auth_output Failure), m)"

definition AuthMachine_visit :: "AuthState \<Rightarrow> unit val \<Rightarrow> AuthMachine \<Rightarrow> (unit, 'u) publisher \<times> AuthMachine" where
  "AuthMachine_visit st v m =
     (case v of Variant i _ \<Rightarrow> AuthMachine_rule st (if i = 0 then Login else if i = 1 then Logout else Privileged) m
      | _ \<Rightarrow> (None, m))"

section \<open>Activities\<close>

text \<open>
  An activity is a worker: scheduling on it schedules on its base worker, with the thread's
  \<open>current_\<close> set while the task runs (\<open>activity_task\<close>). \<open>task\<close> may use the current activity; it
  finds it through \<open>Activity_current\<close>.
\<close>

record Activity =
  base_worker :: worker_id

definition Activity_current :: "Activity option \<Rightarrow> Activity res" where
  "Activity_current cur = (case cur of None \<Rightarrow> fail (CheckFailed ''no current Activity'') | Some a \<Rightarrow> ret a)"

definition activity_task :: "Activity \<Rightarrow> (Activity option \<Rightarrow> 'w \<Rightarrow> 'w res) \<Rightarrow> Activity option \<Rightarrow> 'w \<Rightarrow> ('w \<times> Activity option) res" where
  "activity_task a task cur w =
     rx_check (cur = None) ''stale current Activity'' (bnd (task (Some a) w) (\<lambda>w. ret (w, None)))"

text \<open>
  The processor that \<open>Provide\<close> returns: its input is produced on the caller's worker and consumed on
  this activity's, its output the other way round.
\<close>

definition Activity_Provide ::
  "Activity \<Rightarrow> (('v, 'u) publisher \<Rightarrow> ('v, 'u) publisher res) \<Rightarrow> Activity option
    \<Rightarrow> (('v, 'u) publisher \<Rightarrow> ('v, 'u) publisher res) res" where
  "Activity_Provide a processor cur =
     bnd (Activity_current cur) (\<lambda>caller. ret (\<lambda>input.
       bnd (Publisher_Async (base_worker caller) (base_worker a) input) (\<lambda>p.
       bnd (processor p) (\<lambda>q.
       Publisher_Async (base_worker a) (base_worker caller) q))))"

text \<open>
  The words of a document as a multiset, here the sorted list of its elements; \<open>split\<close> is
  \<open>absl::StrSplit\<close> at spaces, without the empty pieces.
\<close>

definition CountWords ::
  "(string \<Rightarrow> string list) \<Rightarrow> (string, 'u) publisher \<Rightarrow> (string, 'u) publisher res" where
  "CountWords split docs =
     Publisher_Map (\<lambda>v u. (ValueRepr (Vec (case v of Val doc \<Rightarrow> map Val (sort (split doc)) | _ \<Rightarrow> [])), u)) docs"

section \<open>Machines as Mealy machines\<close>

text \<open>The outputs and the final state of a machine that reacts to one input at a time.\<close>

primrec mealy :: "('i \<Rightarrow> 's \<Rightarrow> 'o list \<times> 's) \<Rightarrow> 'i list \<Rightarrow> 's \<Rightarrow> 'o list \<times> 's" where
  "mealy react [] s = ([], s)"
| "mealy react (i # is) s =
     (let (os, s') = react i s; (os', s'') = mealy react is s' in (os @ os', s''))"

fun coffee_react :: "CoffeeInput \<Rightarrow> rat \<Rightarrow> CoffeeOutput list \<times> rat" where
  "coffee_react (CoinInserted x) d = ([], d + x)"
| "coffee_react (CoffeeRequested x) d =
     (if x / 4 > d then ([NeedMoreMoney (x / 4 - d)], d) else ([DispenseCoffee x], d - x / 4))"

fun auth_react :: "AuthInput \<Rightarrow> bool \<Rightarrow> AuthOutput list \<times> bool" where
  "auth_react Login authenticated = ([if authenticated then Failure else Success], True)"
| "auth_react Logout authenticated = ([if authenticated then Success else Failure], False)"
| "auth_react Privileged authenticated = ([if authenticated then Success else Failure], authenticated)"

text \<open>A handler that keeps its own state beside the machine's.\<close>

definition beside :: "('v event \<Rightarrow> 'r \<Rightarrow> 'r) \<Rightarrow> 'v event \<Rightarrow> 'm \<times> 'r \<Rightarrow> 'm \<times> 'r" where
  "beside g e = (\<lambda>(m, r). (m, g e r))"

lemma deliver_beside: "deliver_values (beside g) ws (m, r) = (m, deliver_values g ws r)"
  by (induction ws arbitrary: r) (simp_all add: beside_def)

lemma deliver_append: "deliver_values f (vs @ ws) u = deliver_values f ws (deliver_values f vs u)"
  by (simp add: deliver_values_def)

lemma emits_empty:
  assumes "Suc K < pending_limit"
  shows "emits K (GeneratingPublisher TriggerVal (\<lambda>st u. (StatusRepr Done, st, u))) [] Done"
  using emits_error [of Done K TriggerVal] assms by simp

text \<open>
  A continuation that implements a reaction on an abstraction of the machine's state serves the
  outputs of the Mealy machine.
\<close>

lemma mealy_serves:
  assumes step: "\<And>i m r. \<exists>p m'. kf (enc i) (m, r) = (Some p, m', r) \<and> view m' = snd (react i (view m))
      \<and> emits 1 p (map out (fst (react i (view m)))) Done"
  shows "\<exists>m'. view m' = snd (mealy react is (view m))
    \<and> flat_serves kf (beside g) (map enc is) (m, r) (m', deliver_values g (map out (fst (mealy react is (view m)))) r)"
proof (induction "is" arbitrary: m r)
  case Nil
  then show ?case by (auto intro: serves_none)
next
  case (Cons i "is")
  obtain os s' where react: "react i (view m) = (os, s')" by fastforce
  obtain p m1 where 1: "kf (enc i) (m, r) = (Some p, m1, r)" "view m1 = s'" "emits 1 p (map out os) Done"
    using step [of i m r] react by auto
  obtain m' where 2: "view m' = snd (mealy react is s')"
    "flat_serves kf (beside g) (map enc is) (m1, deliver_values g (map out os) r)
      (m', deliver_values g (map out (fst (mealy react is s'))) (deliver_values g (map out os) r))"
    using Cons.IH [of m1 "deliver_values g (map out os) r"] 1(2) by auto
  have "flat_serves kf (beside g) (enc i # map enc is) (m, r)
      (m', deliver_values g (map out (fst (mealy react is s'))) (deliver_values g (map out os) r))"
    by (rule serves_value [where p = p and ?u1.0 = "(m1, r)" and ws = "map out os" and tc = Done])
      (use 1 2(2) in \<open>simp_all add: deliver_beside\<close>)
  with 2(1) show ?case by (auto simp: react deliver_append split: prod.split)
qed

lemma machine_runs:
  assumes step: "\<And>i m r. \<exists>p m'. kf (enc i) (m, r) = (Some p, m', r) \<and> view m' = snd (react i (view m))
      \<and> emits 1 p (map out (fst (react i (view m)))) Done"
    and "length is < 2 ^ 64" and "wf_world w" and "user w = (m, r)"
  shows "\<exists>q m'. Publisher_FlatMap kf (Publisher_values (map enc is)) = ret q \<and> view m' = snd (mealy react is (view m))
    \<and> runs_to_state q (beside g) (m', received g (map out (fst (mealy react is (view m)))) Done r) w"
proof -
  obtain m' where m': "view m' = snd (mealy react is (view m))"
    "flat_serves kf (beside g) (map enc is) (m, r) (m', deliver_values g (map out (fst (mealy react is (view m)))) r)"
    using mealy_serves [where kf = kf and enc = enc and view = view and react = react and out = out, OF step] by blast
  have "emits 1 (CreateValuePublisher (map enc is)) (map enc is) Done"
    by (rule emits_values) (use assms(2) in simp_all)
  from flat_serves_runs [OF this _ assms(3), of kf "beside g"] m' assms(4) show ?thesis
    by (auto simp: Publisher_FlatMap_def Publisher_values_def received_deliver beside_def)
qed

lemma mealy_snoc:
  "mealy react (is @ [i]) s = (fst (mealy react is s) @ fst (react i (snd (mealy react is s))),
     snd (react i (snd (mealy react is s))))"
  by (induction "is" arbitrary: s) (auto split: prod.split)

section \<open>The coffee machine\<close>

lemma CoffeeMachine_step:
  "\<exists>p m'. (\<lambda>elem (self, r). let (p, self) = CoffeeMachine_visit elem self in (p, self, r)) (coffee_input i) (m, r)
      = (Some p, m', r)
    \<and> deposit m' = snd (coffee_react i (deposit m)) \<and> emits 1 p (map coffee_output (fst (coffee_react i (deposit m)))) Done"
  by (cases i) (auto simp: CoffeeMachine_CoinInserted_def CoffeeMachine_CoffeeRequested_def Publisher_empty_def
      Publisher_value_def Let_def kCostPerOunce_def intro!: emits_empty emits_values)

text \<open>
  A pipeline through the coffee machine delivers the outputs of the Mealy machine
  \<open>coffee_react\<close>: nothing for a coin, and for a request the coffee if the deposit covers it, else the
  amount that is missing; the machine ends with that machine's deposit.
\<close>

theorem CoffeeMachine_delivers:
  assumes "length is < 2 ^ 64" and "wf_world w" and "user w = (m, r)"
  shows "\<exists>q m'. StateMachine_Apply CoffeeMachine_visit (Publisher_values (map coffee_input is)) = ret q
    \<and> runs_to_state q (beside g) (m', received g (map coffee_output (fst (mealy coffee_react is (deposit m)))) Done r) w
    \<and> deposit m' = snd (mealy coffee_react is (deposit m))"
  using machine_runs [where enc = coffee_input and view = deposit and react = coffee_react and out = coffee_output,
      OF CoffeeMachine_step assms]
  unfolding StateMachine_Apply_def by blast

text \<open>The run of the test \<open>CoffeeMachine\<close>.\<close>

definition coffee_day :: "CoffeeInput list" where
  "coffee_day = [CoinInserted (1 / 4), CoffeeRequested 12, CoinInserted (11 / 4), CoffeeRequested 12, CoffeeRequested 6]"

theorem CoffeeMachine_delivers_witness:
  "\<exists>q m'. StateMachine_Apply CoffeeMachine_visit (Publisher_values (map coffee_input coffee_day)) = ret q
    \<and> runs_to_state q (beside buffering_next)
        (m', map coffee_output [NeedMoreMoney (11 / 4), DispenseCoffee 12, NeedMoreMoney (3 / 2)], [Done])
        (empty_world (CoffeeMachine_Create, [], []))"
  using CoffeeMachine_delivers [of coffee_day "empty_world (CoffeeMachine_Create, [], [])" CoffeeMachine_Create
      "([], [])" buffering_next]
  by (auto simp: coffee_day_def empty_world_def CoffeeMachine_Create_def received_buffering wf_world_def)

fun coin :: "CoffeeInput \<Rightarrow> rat" where
  "coin (CoinInserted x) = x"
| "coin (CoffeeRequested x) = 0"

fun poured :: "CoffeeOutput \<Rightarrow> rat" where
  "poured (DispenseCoffee x) = x"
| "poured (NeedMoreMoney x) = 0"

fun missing_ok :: "CoffeeOutput \<Rightarrow> bool" where
  "missing_ok (NeedMoreMoney x) \<longleftrightarrow> 0 < x"
| "missing_ok (DispenseCoffee x) \<longleftrightarrow> True"

lemma mealy_Cons:
  "mealy react (i # is) s =
     (fst (react i s) @ fst (mealy react is (snd (react i s))), snd (mealy react is (snd (react i s))))"
  by (simp split: prod.split)

lemma coffee_balance:
  "snd (mealy coffee_react is d) + sum_list (map poured (fst (mealy coffee_react is d))) * (1 / 4)
    = d + sum_list (map coin is)"
proof (induction "is" arbitrary: d)
  case (Cons i "is")
  then show ?case by (cases i) (simp_all add: mealy_Cons algebra_simps del: mealy.simps(2))
qed simp

lemma coffee_missing: "list_all missing_ok (fst (mealy coffee_react is d))"
proof (induction "is" arbitrary: d)
  case (Cons i "is")
  then show ?case by (cases i) (simp_all add: mealy_Cons del: mealy.simps(2))
qed simp

lemma coffee_deposit:
  "0 \<le> d \<Longrightarrow> \<forall>x. CoinInserted x \<in> set is \<longrightarrow> 0 \<le> x \<Longrightarrow> 0 \<le> snd (mealy coffee_react is d)"
proof (induction "is" arbitrary: d)
  case (Cons i "is")
  then show ?case by (cases i) (simp_all add: mealy_Cons del: mealy.simps(2))
qed simp



section \<open>The authentication machine\<close>

lemma AuthMachine_step:
  "\<exists>p m'. (\<lambda>elem (self, r). let (p, self) = AuthMachine_visit (state self) elem self in (p, self, r)) (auth_input i) (m, r)
      = (Some p, m', r)
    \<and> (state m' = Authenticated) = snd (auth_react i (state m = Authenticated))
    \<and> emits 1 p (map auth_output (fst (auth_react i (state m = Authenticated)))) Done"
  by (cases i; cases "state m")
    (auto simp: AuthMachine_visit_def Publisher_value_def SwitchTo_def intro!: emits_values)

text \<open>Logged in: the last login or logout was a login.\<close>

definition logged_in :: "AuthInput list \<Rightarrow> bool" where
  "logged_in is \<longleftrightarrow> (let session = filter (\<lambda>i. i \<noteq> Privileged) is in session \<noteq> [] \<and> last session = Login)"

definition verdict :: "AuthInput list \<Rightarrow> AuthInput \<Rightarrow> AuthOutput" where
  "verdict before i = (if (i = Login) \<noteq> logged_in before then Success else Failure)"

lemma auth_logged_in: "snd (mealy auth_react is False) = logged_in is"
proof (induction "is" rule: rev_induct)
  case (snoc i "is")
  then show ?case by (cases i) (simp_all add: mealy_snoc logged_in_def Let_def)
qed (simp add: logged_in_def)

lemma auth_verdicts: "fst (mealy auth_react is False) = map (\<lambda>k. verdict (take k is) (is ! k)) [0..<length is]"
proof (induction "is" rule: rev_induct)
  case (snoc i "is")
  have "fst (auth_react i (logged_in is)) = [verdict is i]"
    by (cases i) (simp_all add: verdict_def)
  moreover have "map (\<lambda>k. verdict (take k (is @ [i])) ((is @ [i]) ! k)) [0..<length is]
      = map (\<lambda>k. verdict (take k is) (is ! k)) [0..<length is]"
    by (auto simp: nth_append)
  ultimately show ?case using snoc by (simp add: mealy_snoc auth_logged_in)
qed simp

text \<open>
  C34: a pipeline through a new authentication machine answers each input: a privileged action and a
  logout succeed exactly when the last login or logout before was a login, and a login exactly when
  it was not.
\<close>

theorem AuthMachine_delivers:
  assumes "length is < 2 ^ 64" and "wf_world w" and "user w = (AuthMachine_Create, r)"
  shows "\<exists>q m. FiniteStateMachine_Apply AuthMachine_visit (Publisher_values (map auth_input is)) = ret q
    \<and> runs_to_state q (beside g)
        (m, received g (map (\<lambda>k. auth_output (verdict (take k is) (is ! k))) [0..<length is]) Done r) w
    \<and> (state m = Authenticated \<longleftrightarrow> logged_in is)"
proof -
  have "state AuthMachine_Create = Authenticated \<longleftrightarrow> False" by (simp add: AuthMachine_Create_def)
  moreover have "map auth_output (fst (mealy auth_react is False))
      = map (\<lambda>k. auth_output (verdict (take k is) (is ! k))) [0..<length is]"
    by (simp add: auth_verdicts)
  ultimately show ?thesis
    using machine_runs [where enc = auth_input and view = "\<lambda>m. state m = Authenticated" and react = auth_react
        and out = auth_output, OF AuthMachine_step assms, of g]
    unfolding FiniteStateMachine_Apply_def by (auto simp: auth_logged_in)
qed

theorem AuthMachine_delivers_witness:
  "\<exists>q m. FiniteStateMachine_Apply AuthMachine_visit
      (Publisher_values (map auth_input [Logout, Privileged, Login, Privileged, Login, Logout, Privileged])) = ret q
    \<and> runs_to_state q (beside buffering_next)
        (m, map auth_output [Failure, Failure, Success, Success, Failure, Success, Failure], [Done])
        (empty_world (AuthMachine_Create, [], []))"
  using AuthMachine_delivers [of "[Logout, Privileged, Login, Privileged, Login, Logout, Privileged]"
      "empty_world (AuthMachine_Create, [], [])" "([], [])" buffering_next]
  by (auto simp: empty_world_def received_buffering wf_world_def verdict_def logged_in_def upt_rec)

end
