(* ===== verification/MapReduce.thy ===== *)
theory MapReduce
  imports Concurrency Examples
begin

text \<open>
  The examples on several workers. \<open>Async\<close>: producing on one worker and consuming on another.
  \<open>CountWordsMapReduce\<close>: several mappers count the words of documents concurrently, and
  one activity, the reducer, collects what they count.
\<close>

section \<open>Async\<close>

text \<open>
  The publisher of the test \<open>Async\<close>; sleeping in the map function is no effect here. In every
  interleaving the output is the expected one once the scheduler is idle.
\<close>

definition Async_pub :: "worker_id \<Rightarrow> worker_id \<Rightarrow> (int, 'u) publisher res" where
  "Async_pub produce_on consume_on =
     bnd (Publisher_Map (\<lambda>v u. (ValueRepr (case v of Val x \<Rightarrow> Val (x + 1) | _ \<Rightarrow> v), u))
       (Publisher_values [Val 1, Val 2, Val 3])) (Publisher_Async produce_on consume_on)"

lemma Async:
  assumes "Async_pub produce_on consume_on = ret p"
    and "concurrent_steps ([(p, buffering_next)], empty_world ([], [])) r"
  shows "\<exists>js w'. r = ret (js, w') \<and> (over (js, w') \<longrightarrow> user w' = ([Val 2, Val 3, Val 4], [Done]) \<and> heap w' = Map.empty)"
proof -
  let ?g = "\<lambda>v :: int val. case v of Val x \<Rightarrow> Val (x + 1) | _ \<Rightarrow> v"
  let ?p = "AsyncPublisher produce_on consume_on (Some (ChainingPublisher (CreateValuePublisher [Val 1, Val 2, Val 3])
    (MapFn (\<lambda>v u. (ValueRepr (?g v), u)))))"
  have "arrives ?p (map ?g [Val 1, Val 2, Val 3]) Done"
    by (intro arrives_rests rests_map rests_values) simp_all
  then have orders: "\<forall>(p, f, vs, t)\<in>set [(?p, buffering_next, [Val 2, Val 3, Val 4], Done)]. arrives p vs t" by simp
  have "p = Some ?p"
    using assms(1) by (simp add: Async_pub_def Publisher_Map_def Publisher_Async_def Publisher_values_def)
  then have steps: "concurrent_steps (ordered [(?p, buffering_next, [Val 2, Val 3, Val 4], Done)], empty_world ([], [])) r"
    using assms(2) by simp
  obtain js w' where 1: "r = ret (js, w')" and 2: "over (js, w') \<longrightarrow>
      (\<exists>gs. interleaving {#reactions buffering_next [Val 2, Val 3, Val 4] Done#} gs \<and> user w' = run_all gs ([], []))
      \<and> heap w' = Map.empty"
    using concurrent_outcome [OF steps orders] by (auto simp: empty_world_def wf_world_def)
  then show ?thesis
    by (auto simp: buffering_next_def dest!: interleaving_single [OF _ refl])
qed

section \<open>The map-reduce program\<close>

text \<open>The reducer's function inserts the words of a result into the set it accumulates.\<close>

definition accumulate :: "string event \<Rightarrow> string multiset \<Rightarrow> string multiset" where
  "accumulate words accumulated =
     (if IsEnd words then accumulated
      else case words of
        ValueRepr (Vec ws) \<Rightarrow> accumulated + mset (concat (map (\<lambda>w. case w of Val s \<Rightarrow> [s] | _ \<Rightarrow> []) ws))
      | _ \<Rightarrow> accumulated)"

text \<open>
  What the task of the reducer subscribes to: for each mapper, the processor it provides to the
  reducer, on the documents.
\<close>

primrec CountWordsMapReduce ::
  "(string \<Rightarrow> string list) \<Rightarrow> Activity \<Rightarrow> Activity list \<Rightarrow> string list
    \<Rightarrow> ((string, string multiset) publisher \<times> (string event \<Rightarrow> string multiset \<Rightarrow> string multiset)) list res" where
  "CountWordsMapReduce split reducer [] docs = ret []"
| "CountWordsMapReduce split reducer (mapper # mappers) docs =
     bnd (Activity_Provide mapper (CountWords split) (Some reducer)) (\<lambda>count_words_processor.
     bnd (count_words_processor (Publisher_values (map Val docs))) (\<lambda>p.
     bnd (CountWordsMapReduce split reducer mappers docs) (\<lambda>rest. ret ((p, accumulate) # rest))))"

section \<open>What it subscribes to\<close>

definition counted :: "(string \<Rightarrow> string list) \<Rightarrow> string val \<Rightarrow> string val" where
  "counted split v = Vec (case v of Val doc \<Rightarrow> map Val (sort (split doc)) | _ \<Rightarrow> [])"

definition provided :: "(string \<Rightarrow> string list) \<Rightarrow> Activity \<Rightarrow> string list \<Rightarrow> Activity \<Rightarrow> (string, string multiset) order" where
  "provided split reducer docs mapper =
     (AsyncPublisher (base_worker mapper) (base_worker reducer) (Some
        (ChainingPublisher
          (AsyncPublisher (base_worker reducer) (base_worker mapper) (Some (CreateValuePublisher (map Val docs))))
          (MapFn (\<lambda>v u. (ValueRepr (counted split v), u))))),
      accumulate, map (counted split) (map Val docs), Done)"

lemma CountWordsMapReduce_ordered:
  "CountWordsMapReduce split reducer mappers docs = ret (ordered (map (provided split reducer docs) mappers))"
  by (induction mappers)
    (simp_all add: Activity_Provide_def Activity_current_def Publisher_Async_def CountWords_def Publisher_Map_def
      Publisher_values_def provided_def counted_def ordered_def)

lemma provided_arrives:
  assumes "length docs < 2 ^ 64"
  shows "\<forall>(p, f, vs, t)\<in>set (map (provided split reducer docs) mappers). arrives p vs t"
proof -
  have "arrives (fst (provided split reducer docs mapper)) (map (counted split) (map Val docs)) Done" for mapper
    unfolding provided_def fst_conv using assms
    by (intro arrives_async arrives_map arrives_rests rests_values) (simp_all only: length_map)
  then show ?thesis by (auto simp: provided_def)
qed

section \<open>What it accumulates\<close>

lemma accumulate_counted: "accumulate (ValueRepr (counted split (Val doc))) acc = acc + mset (split doc)"
  by (simp add: accumulate_def counted_def comp_def)

lemma accumulate_done: "accumulate (StatusRepr Done) acc = acc"
  by (simp add: accumulate_def)

lemma accumulate_reactions:
  "run_all (reactions accumulate (map (counted split) (map Val docs)) Done) acc = acc + mset (concat (map split docs))"
  by (induction docs arbitrary: acc) (simp_all add: accumulate_counted accumulate_done ac_simps)

lemma accumulate_all:
  "run_all (concat (actions (map (provided split reducer docs) mappers))) acc
    = acc + repeat_mset (length mappers) (mset (concat (map split docs)))"
  by (induction mappers arbitrary: acc)
    (simp_all add: actions_def provided_def accumulate_reactions ac_simps del: map_map)

lemma accumulate_commute: "accumulate e \<circ> accumulate e' = accumulate e' \<circ> accumulate e"
  by (auto simp: accumulate_def fun_eq_iff ac_simps split: StatusOr.splits val.splits)

section \<open>The property\<close>

text \<open>
  C5: in every interleaving of the mappers, the reducer and the subscriptions, the map-reduce example
  comes to an end without a failed check, and then the reducer has accumulated every word of every
  document as often as there are mappers, and no object is left.
\<close>

theorem CountWordsMapReduce_counts:
  assumes "length docs < 2 ^ 64"
  shows "\<exists>js. CountWordsMapReduce split reducer mappers docs = ret js
    \<and> Wellfounded.accp (\<lambda>s2 s1. concurrent_step s1 (ret s2)) (js, empty_world {#})
    \<and> (\<exists>s. concurrent_steps (js, empty_world {#}) (ret s) \<and> over s)
    \<and> (\<forall>r. concurrent_steps (js, empty_world {#}) r \<longrightarrow> (\<exists>js' w'. r = ret (js', w') \<and> (over (js', w') \<longrightarrow>
        user w' = repeat_mset (length mappers) (mset (concat (map split docs))) \<and> heap w' = Map.empty)))"
proof -
  let ?ss = "map (provided split reducer docs) mappers"
  have 0: "wf_world (empty_world {#} :: (string, string multiset) world)" "queues (empty_world {#}) = (\<lambda>_. [])"
    by (simp_all add: wf_world_def empty_world_def)
  note run = running_start [OF 0 provided_arrives [OF assms, of split reducer mappers]]
  have "\<exists>js' w'. r = ret (js', w') \<and> (over (js', w') \<longrightarrow>
      user w' = repeat_mset (length mappers) (mset (concat (map split docs))) \<and> heap w' = Map.empty)"
    if r: "concurrent_steps (ordered ?ss, empty_world {#}) r" for r
  proof -
    obtain js w' where 1: "r = ret (js, w')"
      and 2: "over (js, w') \<longrightarrow> (\<exists>gs. interleaving (mset (actions ?ss)) gs \<and> user w' = run_all gs {#}) \<and> heap w' = Map.empty"
      using concurrent_outcome [OF r provided_arrives [OF assms] 0] by (auto simp: empty_world_def)
    have "\<exists>e. g = accumulate e" if "g \<in> set (concat (actions ?ss))" for g
      using that by (auto simp: actions_def provided_def reactions_def split: if_splits)
    then have "run_all gs = run_all (concat (actions ?ss))" if "interleaving (mset (actions ?ss)) gs" for gs
      by (intro run_all_interleaving [OF that]) (metis accumulate_commute)
    then show ?thesis using 1 2 by (auto simp: accumulate_all)
  qed
  then show ?thesis
    using running_terminates [OF run 0(1)] running_finishes [OF run 0(1)] CountWordsMapReduce_ordered by blast
qed

text \<open>The documents of the test, and its three mappers; each word is counted three times.\<close>

fun pieces :: "string \<Rightarrow> string list" where
  "pieces [] = [[]]"
| "pieces (c # cs) = (if c = CHR '' '' then [] # pieces cs else (c # hd (pieces cs)) # tl (pieces cs))"

definition StrSplit :: "string \<Rightarrow> string list" where
  "StrSplit doc = filter (\<lambda>p. p \<noteq> []) (pieces doc)"

theorem CountWordsMapReduce_counts_witness:
  "\<exists>js w'. CountWordsMapReduce StrSplit \<lparr>base_worker = 0\<rparr> [\<lparr>base_worker = 1\<rparr>, \<lparr>base_worker = 2\<rparr>, \<lparr>base_worker = 3\<rparr>]
      [''a b c'', ''d e f'', ''g''] = ret js
    \<and> concurrent_steps (js, empty_world {#}) (ret ([], w'))
    \<and> (\<forall>word\<in>{''a'', ''b'', ''c'', ''d'', ''e'', ''f'', ''g''}. count (user w') word = 3)"
proof -
  let ?docs = "[''a b c'', ''d e f'', ''g'']"
  have "length ?docs < 2 ^ 64" by simp
  from CountWordsMapReduce_counts [OF this, of StrSplit "\<lparr>base_worker = 0\<rparr>"
      "[\<lparr>base_worker = 1\<rparr>, \<lparr>base_worker = 2\<rparr>, \<lparr>base_worker = 3\<rparr>]"]
  obtain js s where 1: "CountWordsMapReduce StrSplit \<lparr>base_worker = 0\<rparr> [\<lparr>base_worker = 1\<rparr>, \<lparr>base_worker = 2\<rparr>, \<lparr>base_worker = 3\<rparr>]
      ?docs = ret js" "concurrent_steps (js, empty_world {#}) (ret s)" "over s"
    and all: "\<forall>r. concurrent_steps (js, empty_world {#}) r \<longrightarrow> (\<exists>js' w'. r = ret (js', w') \<and> (over (js', w') \<longrightarrow>
        user w' = repeat_mset 3 (mset (concat (map StrSplit ?docs))) \<and> heap w' = Map.empty))"
    by (auto simp: numeral_3_eq_3)
  obtain w' where s: "s = ([], w')" using 1(3) by (cases s) (auto simp: over_def)
  have "user w' = repeat_mset 3 (mset (concat (map StrSplit ?docs)))" using all 1(2,3) s by auto
  moreover have "concat (map StrSplit ?docs) = [''a'', ''b'', ''c'', ''d'', ''e'', ''f'', ''g'']"
    by (simp add: StrSplit_def)
  ultimately have "user w' = repeat_mset 3 (mset [''a'', ''b'', ''c'', ''d'', ''e'', ''f'', ''g''])" by (simp only:)
  then show ?thesis using 1(1,2) s by (intro exI [of _ js] exI [of _ w']) simp
qed

end
