(* ===== verification/Invariants.thy ===== *)
theory Invariants
  imports World_Facts
begin

text \<open>
  What every execution of the library keeps, whatever the publishers, subscribers and user
  functions: a subscription is alive exactly as long as the stream behind it exists; objects never
  come back, never change their class, and never change their subscription; a subscription that
  has ended stays ended; and tasks are only ever appended to the workers' queues.

  The contract is the locale \<open>evolving_runner\<close> over the dispatcher a method calls through: if every
  call respects the relation \<open>evolves\<close>, so does the method. Its interpretation on \<open>exec\<close> is the
  induction over all executions.
\<close>

named_theorems leads_intro "calls and sequences that respect the evolution of the world"

section \<open>Classes and subscriptions of objects\<close>

fun class_of :: "('v, 'u) obj \<Rightarrow> nat" where
  "class_of (FunctionalSubscriber _ _) = 0"
| "class_of (SharedSubscriberWrapper _) = 1"
| "class_of (VariantSubscriberWrapper _) = 2"
| "class_of (GeneratingStream _) = 3"
| "class_of (ChainingStream _) = 4"
| "class_of (PrefetchingStream _) = 5"
| "class_of (MergeUpstreamSubscriber _) = 6"
| "class_of (MergeStream _) = 7"
| "class_of (ConcatStream _) = 8"
| "class_of (FlatMapStream _) = 9"
| "class_of (AsyncStream _) = 10"

fun sid_of :: "('v, 'u) obj \<Rightarrow> sid option" where
  "sid_of (GeneratingStream x) = Some (gs_sid x)"
| "sid_of (ChainingStream x) = Some (cs_sid x)"
| "sid_of (PrefetchingStream x) = Some (ps_sid x)"
| "sid_of (MergeStream x) = Some (ms_sid x)"
| "sid_of (ConcatStream x) = Some (co_sid x)"
| "sid_of (FlatMapStream x) = Some (fm_sid x)"
| "sid_of (AsyncStream x) = Some (as_sid x)"
| "sid_of _ = None"

text \<open>
  A \<open>SubscriptionState\<close> points to a stream exactly when the stream exists and owns it; what has not
  been allocated is blank.
\<close>

definition consistent :: "('v, 'u) world \<Rightarrow> bool" where
  "consistent w \<longleftrightarrow>
     (\<forall>a\<ge>next_addr w. heap w a = None) \<and> (\<forall>s\<ge>next_sid w. impl w s = None)
     \<and> (\<forall>s a. impl w s = Some a \<longleftrightarrow> (\<exists>x. heap w a = Some x \<and> sid_of x = Some s))"

definition evolves :: "('v, 'u) world \<Rightarrow> ('v, 'u) world \<Rightarrow> bool" where
  "evolves w w' \<longleftrightarrow> (consistent w \<longrightarrow> consistent w'
     \<and> next_addr w \<le> next_addr w' \<and> next_sid w \<le> next_sid w'
     \<and> (\<forall>a<next_addr w. \<forall>y. heap w' a = Some y \<longrightarrow>
          (\<exists>x. heap w a = Some x \<and> class_of x = class_of y \<and> sid_of x = sid_of y))
     \<and> (\<forall>s<next_sid w. impl w' s = impl w s \<or> impl w' s = None)
     \<and> (\<forall>k. prefix (queues w k) (queues w' k)))"

definition leads :: "('v, 'u) world \<Rightarrow> ('v, 'u) world res \<Rightarrow> bool" where
  "leads w m \<longleftrightarrow> (\<forall>w'. m = ret w' \<longrightarrow> evolves w w')"

lemma evolves_refl [simp]: "evolves w w"
  by (simp add: evolves_def)

lemma evolves_trans [trans]:
  assumes "evolves w1 w2" and "evolves w2 w3"
  shows "evolves w1 w3"
  unfolding evolves_def
proof (intro impI conjI allI)
  assume c1: "consistent w1"
  then have c2: "consistent w2" using assms(1) by (simp add: evolves_def)
  show "consistent w3" using assms c1 c2 by (simp add: evolves_def)
  show "next_addr w1 \<le> next_addr w3" "next_sid w1 \<le> next_sid w3"
    using assms c1 c2 unfolding evolves_def by (meson order_trans)+
  show "prefix (queues w1 k) (queues w3 k)" for k
    using assms c1 c2 unfolding evolves_def by (meson prefix_order.trans)
  show "\<exists>x. heap w1 a = Some x \<and> class_of x = class_of y \<and> sid_of x = sid_of y"
    if a: "a < next_addr w1" and y: "heap w3 a = Some y" for a y
  proof -
    have "a < next_addr w2" using assms(1) c1 a unfolding evolves_def by (meson less_le_trans)
    then obtain z where z: "heap w2 a = Some z" "class_of z = class_of y" "sid_of z = sid_of y"
      using assms(2) c2 y unfolding evolves_def by blast
    then obtain x where "heap w1 a = Some x" "class_of x = class_of z" "sid_of x = sid_of z"
      using assms(1) c1 a unfolding evolves_def by blast
    with z show ?thesis by auto
  qed
  show "impl w3 s = impl w1 s \<or> impl w3 s = None" if s: "s < next_sid w1" for s
  proof -
    have "s < next_sid w2" using assms(1) c1 s unfolding evolves_def by (meson less_le_trans)
    then have "impl w3 s = impl w2 s \<or> impl w3 s = None" using assms(2) c2 by (auto simp: evolves_def)
    moreover have "impl w2 s = impl w1 s \<or> impl w2 s = None" using assms(1) c1 s by (auto simp: evolves_def)
    ultimately show ?thesis by auto
  qed
qed

section \<open>Heap operations\<close>

lemma evolves_put1:
  assumes "heap w a = Some y" and "class_of x = class_of y" and "sid_of x = sid_of y"
  shows "evolves w (put a x w)"
  unfolding evolves_def
proof (intro impI conjI)
  assume c: "consistent w"
  then have "a < next_addr w" using assms(1) unfolding consistent_def by (metis not_le option.distinct(1))
  with c assms show "consistent (put a x w)" by (auto simp: consistent_def)
qed (use assms in auto)

lemma evolves_alloc1: "sid_of x = None \<Longrightarrow> evolves w (alloc x w)"
  by (auto simp: evolves_def consistent_def)

lemma evolves_new_stream1:
  assumes "sid_of x = Some (next_sid w)"
  shows "evolves w (new_subscription_state (next_addr w) (alloc x w))"
  unfolding evolves_def
proof (intro impI conjI)
  assume c: "consistent w"
  show "consistent (new_subscription_state (next_addr w) (alloc x w))"
    unfolding consistent_def
  proof (intro conjI allI impI)
    fix s a
    have **: "sid_of y \<noteq> Some (next_sid w)" if "heap w a = Some y" for y
      using c that unfolding consistent_def by (metis le_refl option.distinct(1))
    have *: "impl w s = Some a \<longleftrightarrow> (\<exists>x. heap w a = Some x \<and> sid_of x = Some s)"
      "heap w (next_addr w) = None" "impl w (next_sid w) = None"
      using c by (auto simp: consistent_def)
    show "impl (new_subscription_state (next_addr w) (alloc x w)) s = Some a \<longleftrightarrow>
        (\<exists>y. heap (new_subscription_state (next_addr w) (alloc x w)) a = Some y \<and> sid_of y = Some s)"
      using * ** assms c by (auto simp: consistent_def)
  qed (use c in \<open>auto simp: consistent_def\<close>)
qed auto

lemma evolves_free1: "heap w a = Some x \<Longrightarrow> sid_of x = None \<Longrightarrow> evolves w (free a w)"
  by (auto simp: evolves_def consistent_def)

text \<open>The end of a stream's destructor, possibly after calls that its own body has made.\<close>

lemma evolves_destroy:
  assumes "heap w0 a = Some x" and "sid_of x = Some s" and ev: "evolves w0 w"
  shows "evolves w0 (free a (clear_subscription s w))"
  unfolding evolves_def
proof (intro impI conjI)
  assume c0: "consistent w0"
  then have c: "consistent w" using ev by (simp add: evolves_def)
  have i0: "impl w0 s = Some a" using c0 assms(1,2) by (auto simp: consistent_def)
  then have s: "s < next_sid w0" using c0 unfolding consistent_def by (metis not_le option.distinct(1))
  with ev c0 i0 have i: "impl w s = Some a \<or> impl w s = None" unfolding evolves_def by metis
  have a: "a < next_addr w0" using c0 assms(1) unfolding consistent_def by (metis not_le option.distinct(1))
  have h: "sid_of y = Some s" if "heap w a = Some y" for y
    using ev c0 a that assms(1,2) unfolding evolves_def by fastforce
  have imp: "impl w s' = Some b \<longleftrightarrow> (\<exists>x. heap w b = Some x \<and> sid_of x = Some s')" for s' b
    using c by (simp add: consistent_def)
  show "consistent (free a (clear_subscription s w))"
    unfolding consistent_def
  proof (intro conjI allI impI)
    fix s' b
    show "impl (free a (clear_subscription s w)) s' = Some b \<longleftrightarrow>
        (\<exists>y. heap (free a (clear_subscription s w)) b = Some y \<and> sid_of y = Some s')"
      using imp [of s' b] imp [of s' a] imp [of s b] h i by auto
  qed (use c in \<open>auto simp: consistent_def\<close>)
qed (use ev in \<open>auto simp: evolves_def\<close>)

lemma evolves_neutral1:
  "evolves w (share a w)" "evolves w (w\<lparr>refs := r\<rparr>)" "evolves w (set_refs a n w)" "evolves w (w\<lparr>user := u\<rparr>)"
  by (auto simp: evolves_def consistent_def)

lemma evolves_schedule1: "evolves w (schedule k t w)"
  by (auto simp: evolves_def consistent_def schedule_def)

lemma evolves_put [simp]:
  "heap w a = Some y \<Longrightarrow> class_of x = class_of y \<Longrightarrow> sid_of x = sid_of y \<Longrightarrow> evolves w0 w \<Longrightarrow>
    evolves w0 (put a x w)"
  by (blast intro: evolves_trans evolves_put1)

lemma evolves_new_stream [simp]:
  "evolves w0 w \<Longrightarrow> sid_of x = Some (next_sid w) \<Longrightarrow>
    evolves w0 (new_subscription_state (next_addr w) (alloc x w))"
  by (blast intro: evolves_trans evolves_new_stream1)

lemma evolves_ops [simp]:
  assumes "evolves w0 w"
  shows "sid_of x = None \<Longrightarrow> evolves w0 (alloc x w)" "evolves w0 (share a w)" "evolves w0 (w\<lparr>refs := r\<rparr>)"
    "evolves w0 (set_refs a n w)" "evolves w0 (w\<lparr>user := u\<rparr>)" "evolves w0 (schedule k t w)"
    "heap w a = Some y \<Longrightarrow> sid_of y = None \<Longrightarrow> evolves w0 (free a w)"
  by (blast intro: assms evolves_trans evolves_alloc1 evolves_neutral1 evolves_schedule1 evolves_free1)+

section \<open>Sequences\<close>

lemma leads_ret [leads_intro]: "evolves w0 w \<Longrightarrow> leads w0 (ret w)"
  by (simp add: leads_def)

lemma leads_fail [leads_intro]: "leads w0 (fail e)"
  by (simp add: leads_def)

lemma leads_bnd [leads_intro]:
  fixes m :: "('v, 'u) world res"
  assumes "leads w0 m" and "\<And>w. evolves w0 w \<Longrightarrow> leads w0 (k w)"
  shows "leads w0 (bnd m k)"
  using assms by (auto simp: leads_def bnd_eq_ret)

lemma leads_rx_check [leads_intro]: "(c \<Longrightarrow> leads w0 m) \<Longrightarrow> leads w0 (rx_check c msg m)"
  by (simp add: leads_def rx_check_def)

lemma leads_value:
  assumes "\<And>x. leads w0 (k x)"
  shows "leads w0 (bnd m k)"
  using assms by (auto simp: leads_def bnd_eq_ret)

lemmas leads_values [leads_intro] =
  leads_value [where m = "m :: RequestBalance res" for m]
  leads_value [where m = "m :: 'a StatusOr res" for m :: "'a StatusOr res"]
  leads_value [where m = "m :: 'a val res" for m :: "'a val res"]
  leads_value [where m = "m :: ('a, 'b) pub res" for m :: "('a, 'b) pub res"]
  leads_value [where m = "m :: bool res" for m]

lemma leads_get [leads_intro]:
  "(\<And>x. heap w a = Some (GeneratingStream x) \<Longrightarrow> leads w0 (k1 x)) \<Longrightarrow> leads w0 (bnd (get_generating a w) k1)"
  "(\<And>x. heap w a = Some (ChainingStream x) \<Longrightarrow> leads w0 (k2 x)) \<Longrightarrow> leads w0 (bnd (get_chaining a w) k2)"
  "(\<And>x. heap w a = Some (PrefetchingStream x) \<Longrightarrow> leads w0 (k3 x)) \<Longrightarrow> leads w0 (bnd (get_prefetching a w) k3)"
  "(\<And>x. heap w a = Some (MergeUpstreamSubscriber x) \<Longrightarrow> leads w0 (k4 x)) \<Longrightarrow>
    leads w0 (bnd (get_merge_upstream a w) k4)"
  "(\<And>x. heap w a = Some (MergeStream x) \<Longrightarrow> leads w0 (k5 x)) \<Longrightarrow> leads w0 (bnd (get_merge a w) k5)"
  "(\<And>x. heap w a = Some (ConcatStream x) \<Longrightarrow> leads w0 (k6 x)) \<Longrightarrow> leads w0 (bnd (get_concat a w) k6)"
  "(\<And>x. heap w a = Some (FlatMapStream x) \<Longrightarrow> leads w0 (k7 x)) \<Longrightarrow> leads w0 (bnd (get_flatmap a w) k7)"
  "(\<And>x. heap w a = Some (AsyncStream x) \<Longrightarrow> leads w0 (k8 x)) \<Longrightarrow> leads w0 (bnd (get_async a w) k8)"
  by (auto simp: get_generating_def get_chaining_def get_prefetching_def get_merge_upstream_def
      get_merge_def get_concat_def get_flatmap_def get_async_def leads_def bnd_eq_ret
      split: option.splits obj.splits)

lemma leads_cases [leads_intro]:
  "(c \<Longrightarrow> leads w0 m) \<Longrightarrow> (\<not> c \<Longrightarrow> leads w0 m') \<Longrightarrow> leads w0 (if c then m else m')"
  "(v = None \<Longrightarrow> leads w0 n) \<Longrightarrow> (\<And>x. v = Some x \<Longrightarrow> leads w0 (f x)) \<Longrightarrow>
    leads w0 (case v of None \<Rightarrow> n | Some x \<Rightarrow> f x)"
  "leads w0 n \<Longrightarrow> (\<And>x xs. leads w0 (g x xs)) \<Longrightarrow> leads w0 (case l of [] \<Rightarrow> n | x # xs \<Rightarrow> g x xs)"
  "(\<And>x y. leads w0 (h x y)) \<Longrightarrow> leads w0 (case p of (x, y) \<Rightarrow> h x y)"
  "leads w0 m \<Longrightarrow> leads w0 m' \<Longrightarrow> leads w0 (case b of True \<Rightarrow> m | False \<Rightarrow> m')"
  "(\<And>s. leads w0 (j s)) \<Longrightarrow> leads w0 (with_subscription q msg j)"
  "leads w0 (l' t) \<Longrightarrow> leads w0 (let x = t in l' x)"
  by (auto simp: with_subscription_def leads_fail split: option.splits list.splits prod.splits bool.splits)

lemma leads_self [leads_intro]: "evolves w0 w \<Longrightarrow> leads w0 (self a w)"
  by (simp add: self_def leads_ret leads_rx_check)

lemma set_buffer_leads [leads_intro]: "evolves w0 w \<Longrightarrow> leads w0 (set_buffer a n b w)"
  unfolding set_buffer_def
  by (intro leads_intro) simp_all

text \<open>Methods that return a value with the new state.\<close>

definition leads_with :: "('v, 'u) world \<Rightarrow> ('a \<times> ('v, 'u) world) res \<Rightarrow> bool" where
  "leads_with w m \<longleftrightarrow> (\<forall>x w'. m = ret (x, w') \<longrightarrow> evolves w w')"

lemma leads_with_intros [leads_intro]:
  "evolves w0 w \<Longrightarrow> leads_with w0 (ret (x, w))"
  "leads_with w0 (fail e)"
  "leads w0 m1 \<Longrightarrow> (\<And>w. evolves w0 w \<Longrightarrow> leads_with w0 (k1 w)) \<Longrightarrow> leads_with w0 (bnd m1 k1)"
  "leads_with w0 m2 \<Longrightarrow> (\<And>x w. evolves w0 w \<Longrightarrow> leads_with w0 (k2 x w)) \<Longrightarrow>
    leads_with w0 (bnd m2 (\<lambda>(x, w). k2 x w))"
  "leads_with w0 m3 \<Longrightarrow> (\<And>x w. evolves w0 w \<Longrightarrow> leads w0 (k3 x w)) \<Longrightarrow> leads w0 (bnd m3 (\<lambda>(x, w). k3 x w))"
  "(\<And>x. heap w a = Some (MergeUpstreamSubscriber x) \<Longrightarrow> leads_with w0 (k4 x)) \<Longrightarrow>
    leads_with w0 (bnd (get_merge_upstream a w) k4)"
  "(v = None \<Longrightarrow> leads_with w0 n) \<Longrightarrow> (\<And>x. v = Some x \<Longrightarrow> leads_with w0 (f x)) \<Longrightarrow>
    leads_with w0 (case v of None \<Rightarrow> n | Some x \<Rightarrow> f x)"
  "leads_with w0 (l' t) \<Longrightarrow> leads_with w0 (let x = t in l' x)"
  by (auto simp: leads_with_def leads_def bnd_eq_ret get_merge_upstream_def
      split: option.splits obj.splits prod.splits)

section \<open>The contract of the dispatcher\<close>

locale evolving_runner =
  fixes run :: "('v, 'u) runner"
  assumes run_leads: "leads w (run c w)"
begin

lemma leads_run [leads_intro]: "evolves w0 w \<Longrightarrow> leads w0 (run c w)"
  using run_leads [of w c] by (auto simp: leads_def intro: evolves_trans)

lemma release_leads [leads_intro]: "evolves w0 w \<Longrightarrow> leads w0 (release run a w)"
  unfolding release_def
  by (cases "refs w a") (simp_all add: leads_fail leads_run leads_ret Let_def)

lemma release_opt_leads [leads_intro]: "evolves w0 w \<Longrightarrow> leads w0 (release_opt run p w)"
  by (cases p) (simp_all add: leads_ret release_leads)

lemma Subscription_leads [leads_intro]:
  "evolves w0 w \<Longrightarrow> leads w0 (Subscription_Cancel run s w)"
  "evolves w0 w \<Longrightarrow> leads w0 (Subscription_Request run s n w)"
  by (auto simp: Subscription_Cancel_def Subscription_Request_def leads_fail leads_run split: option.splits)

lemma run_usteps_leads [leads_intro]: "evolves w0 w \<Longrightarrow> leads w0 (run_usteps run s fs w)"
proof (induction fs arbitrary: w)
  case (Cons f fs)
  show ?case unfolding run_usteps.simps
    by (intro leads_intro Cons.IH)
      (use Cons.prems in \<open>auto simp: leads_ret split: uaction.split intro: leads_intro\<close>)
qed (simp add: leads_ret)

lemma Publisher_Subscribe_leads [leads_intro]:
  "evolves w0 w \<Longrightarrow> leads w0 (Publisher_Subscribe run p a w)"
  "evolves w0 w \<Longrightarrow> leads w0 (Publisher_Subscribe_functions run p f g w)"
  "evolves w0 w \<Longrightarrow> leads w0 (Publisher_Subscribe_flow_control run p h w)"
  unfolding Publisher_Subscribe_def Publisher_Subscribe_functions_def Publisher_Subscribe_flow_control_def
    Subscriber_MakeWithFlowControl_def Subscriber_Make_def
  by (intro leads_intro; simp)+

lemma FunctionalSubscriber_leads [leads_intro]:
  "evolves w0 w \<Longrightarrow> leads w0 (FunctionalSubscriber_OnSubscribe run f s w)"
  "evolves w0 w \<Longrightarrow> heap w a = Some (FunctionalSubscriber f g) \<Longrightarrow>
    leads w0 (FunctionalSubscriber_OnNext run a f g s e w)"
proof -
  assume ev: "evolves w0 w"
  then show "leads w0 (FunctionalSubscriber_OnSubscribe run f s w)"
    by (cases f) (auto simp: FunctionalSubscriber_OnSubscribe_def intro: leads_intro)
  assume at: "heap w a = Some (FunctionalSubscriber f g)"
  show "leads w0 (FunctionalSubscriber_OnNext run a f g s e w)"
    unfolding FunctionalSubscriber_OnNext_def
    by (cases g; simp add: flow_control_next_def single_next_def Let_def; intro leads_intro impI conjI)
      (simp_all add: ev at)
qed

lemma GeneratingStream_leads [leads_intro]:
  "evolves w0 w \<Longrightarrow> leads w0 (GeneratingPublisher_Subscribe run st g a w)"
  "evolves w0 w \<Longrightarrow> leads w0 (GeneratingStream_Cancel run a w)"
  "evolves w0 w \<Longrightarrow> leads w0 (GeneratingStream_Generate_loop run a w)"
  "evolves w0 w \<Longrightarrow> leads w0 (GeneratingStream_Request run a n w)"
  unfolding GeneratingPublisher_Subscribe_def GeneratingStream_new_def GeneratingStream_Cancel_def
    GeneratingStream_Generate_loop_def GeneratingStream_Request_def GeneratingStream_Generate_def
  by (intro leads_intro; clarsimp simp: Let_def)+

lemma GeneratingStream_destroy_leads [leads_intro]:
  "heap w a = Some (GeneratingStream g) \<Longrightarrow> leads w (GeneratingStream_destroy run a g w)"
  unfolding GeneratingStream_destroy_def
  by (intro leads_intro evolves_destroy [where x = "GeneratingStream g"]; simp)

lemma ChainingStream_leads [leads_intro]:
  "evolves w0 w \<Longrightarrow> leads w0 (ChainingPublisher_Subscribe run p f a w)"
  "evolves w0 w \<Longrightarrow> leads w0 (ChainingStream_Cancel run a w)"
  "evolves w0 w \<Longrightarrow> leads w0 (ChainingStream_Request run a n w)"
  "evolves w0 w \<Longrightarrow> leads w0 (ChainingStream_OnSubscribe run a s w)"
  unfolding ChainingPublisher_Subscribe_def ChainingStream_Cancel_def ChainingStream_Request_def
    ChainingStream_OnSubscribe_def
  by (intro leads_intro; simp add: Let_def)+

lemma ChainingStream_OnNext_leads [leads_intro]:
  "evolves w0 w \<Longrightarrow> leads w0 (ChainingStream_OnNext run a e w)"
  unfolding ChainingStream_OnNext_def
proof (intro leads_intro)
  fix c assume ev: "evolves w0 w"
  show "leads w0 (chain_next run a (cs_func c) (cs_sid c) (cs_subscriber c) e w)"
    unfolding chain_next_def
    by (cases "cs_func c"; simp add: map_next_def cast_next_def buffer_next_def Let_def;
        intro leads_intro impI conjI) (simp_all add: ev split: prod.split)
qed

lemma ChainingStream_destroy_leads [leads_intro]:
  "heap w a = Some (ChainingStream c) \<Longrightarrow> leads w (ChainingStream_destroy run a c w)"
  unfolding ChainingStream_destroy_def
  by (intro leads_intro evolves_destroy [where x = "ChainingStream c"]; simp)

lemma PrefetchingStream_fill_leads [leads_intro]:
  "evolves w0 w \<Longrightarrow> leads w0 (PrefetchingStream_MaybeFill run a w)"
  "evolves w0 w \<Longrightarrow> leads w0 (PrefetchingStream_MaybeDeliver run a w)"
  "evolves w0 w \<Longrightarrow> leads w0 (PrefetchingStream_LockSelf a w)"
  unfolding PrefetchingStream_MaybeFill_def PrefetchingStream_MaybeDeliver_def PrefetchingStream_LockSelf_def
  by (intro leads_intro; simp add: Let_def)+

lemma PrefetchingStream_leads [leads_intro]:
  "evolves w0 w \<Longrightarrow> leads w0 (PrefetchingPublisher_Subscribe run p n m a w)"
  "evolves w0 w \<Longrightarrow> leads w0 (PrefetchingStream_Cancel run a w)"
  "evolves w0 w \<Longrightarrow> leads w0 (PrefetchingStream_Request run a i w)"
  "evolves w0 w \<Longrightarrow> leads w0 (PrefetchingStream_OnSubscribe run a s w)"
  "evolves w0 w \<Longrightarrow> leads w0 (PrefetchingStream_OnNext run a e w)"
  "evolves w0 w \<Longrightarrow> leads w0 (PrefetchingStream_deliver_loop run a w)"
  unfolding PrefetchingPublisher_Subscribe_def PrefetchingStream_Cancel_def PrefetchingStream_Request_def
    PrefetchingStream_OnSubscribe_def PrefetchingStream_OnNext_def PrefetchingStream_deliver_loop_def
    SharedSubscriberWrapper_Create_def
  by (intro leads_intro; simp add: Let_def)+

lemma PrefetchingStream_destroy_leads [leads_intro]:
  "heap w a = Some (PrefetchingStream p) \<Longrightarrow> leads w (PrefetchingStream_destroy run a p w)"
  unfolding PrefetchingStream_destroy_def
  by (intro leads_intro evolves_destroy [where x = "PrefetchingStream p"]; simp)

lemma ConcatStream_SubscribeNext_leads [leads_intro]:
  "evolves w0 w \<Longrightarrow> leads w0 (ConcatStream_SubscribeNext run a p w)"
  unfolding ConcatStream_SubscribeNext_def SharedSubscriberWrapper_Create_def
  by (intro leads_intro; simp add: Let_def)

lemma ConcatStream_leads [leads_intro]:
  "evolves w0 w \<Longrightarrow> leads w0 (ConcatPublisher_Subscribe run p q a w)"
  "evolves w0 w \<Longrightarrow> leads w0 (ConcatStream_Cancel run a w)"
  "evolves w0 w \<Longrightarrow> leads w0 (ConcatStream_Request run a i w)"
  "evolves w0 w \<Longrightarrow> leads w0 (ConcatStream_OnSubscribe run a s w)"
  "evolves w0 w \<Longrightarrow> leads w0 (ConcatStream_OnNext run a e w)"
  unfolding ConcatPublisher_Subscribe_def ConcatStream_Cancel_def ConcatStream_Request_def
    ConcatStream_OnSubscribe_def ConcatStream_OnNext_def
  by (intro leads_intro; simp add: Let_def)+

lemma ConcatStream_destroy_leads [leads_intro]:
  "heap w a = Some (ConcatStream c) \<Longrightarrow> leads w (ConcatStream_destroy run a c w)"
  unfolding ConcatStream_destroy_def
  by (intro leads_intro evolves_destroy [where x = "ConcatStream c"]; simp)

lemma FlatMapStream_request_leads [leads_intro]:
  "evolves w0 w \<Longrightarrow> leads w0 (FlatMapStream_Send run a e w)"
  "evolves w0 w \<Longrightarrow> leads w0 (FlatMapStream_Request run a n w)"
  unfolding FlatMapStream_Send_def FlatMapStream_Request_def base_subscription_def
  by (intro leads_intro; simp add: Let_def)+

lemma FlatMapStream_Terminate_leads [leads_intro]:
  "evolves w0 w \<Longrightarrow> leads w0 (FlatMapStream_Terminate run a t w)"
  unfolding FlatMapStream_Terminate_def base_subscription_def by (intro leads_intro; simp add: Let_def)

lemma FlatMapStream_leads [leads_intro]:
  "evolves w0 w \<Longrightarrow> leads w0 (FlatMapPublisher_Subscribe run p k a w)"
  "evolves w0 w \<Longrightarrow> leads w0 (FlatMapStream_Cancel run a w)"
  "evolves w0 w \<Longrightarrow> leads w0 (FlatMapStream_OnSubscribe run a s w)"
  "evolves w0 w \<Longrightarrow> leads w0 (FlatMapStream_OnNext run a e w)"
  "evolves w0 w \<Longrightarrow> leads w0 (FlatMapStream_OnSubscribeCont run a s w)"
  "evolves w0 w \<Longrightarrow> leads w0 (FlatMapStream_OnNextCont run a e w)"
  unfolding FlatMapPublisher_Subscribe_def FlatMapStream_Cancel_def FlatMapStream_OnSubscribe_def
    FlatMapStream_OnNext_def FlatMapStream_OnSubscribeCont_def FlatMapStream_OnNextCont_def base_subscription_def
  by (intro leads_intro; simp add: Let_def)+

lemma FlatMapStream_destroy_leads [leads_intro]:
  "heap w a = Some (FlatMapStream f) \<Longrightarrow> leads w (FlatMapStream_destroy run a f w)"
  unfolding FlatMapStream_destroy_def
  by (intro leads_intro evolves_destroy [where x = "FlatMapStream f"]; simp)

lemma AsyncStream_leads [leads_intro]:
  "evolves w0 w \<Longrightarrow> leads w0 (AsyncPublisher_Subscribe i j p a w)"
  "evolves w0 w \<Longrightarrow> leads w0 (AsyncStream_Cancel a w)"
  "evolves w0 w \<Longrightarrow> leads w0 (AsyncStream_Request a n w)"
  "evolves w0 w \<Longrightarrow> leads w0 (AsyncStream_OnSubscribe a s w)"
  "evolves w0 w \<Longrightarrow> leads w0 (AsyncStream_OnNext a e w)"
  unfolding AsyncPublisher_Subscribe_def AsyncStream_Cancel_def AsyncStream_Request_def
    AsyncStream_OnSubscribe_def AsyncStream_OnNext_def AsyncOnNextHelper_def
  by (intro leads_intro; simp add: Let_def)+

lemma AsyncStream_destroy_leads [leads_intro]:
  "heap w a = Some (AsyncStream s) \<Longrightarrow> leads w (AsyncStream_destroy run a s w)"
  unfolding AsyncStream_destroy_def
  by (intro leads_intro evolves_destroy [where x = "AsyncStream s"]; simp)

lemma wrappers_leads [leads_intro]:
  "evolves w0 w \<Longrightarrow> leads w0 (SharedSubscriberWrapper_OnSubscribe run d s w)"
  "evolves w0 w \<Longrightarrow> leads w0 (SharedSubscriberWrapper_OnNext run d s e w)"
  "evolves w0 w \<Longrightarrow> leads w0 (VariantSubscriberWrapper_OnSubscribe run d s w)"
  "evolves w0 w \<Longrightarrow> leads w0 (VariantSubscriberWrapper_OnNext run d s e w)"
  unfolding SharedSubscriberWrapper_OnSubscribe_def SharedSubscriberWrapper_OnNext_def
    VariantSubscriberWrapper_OnSubscribe_def VariantSubscriberWrapper_OnNext_def
  by (intro leads_intro; simp)+

lemma MergeStream_MaybeDeliver_leads [leads_intro]:
  "evolves w0 w \<Longrightarrow> leads w0 (MergeStream_MaybeDeliver run a w)"
  unfolding MergeStream_MaybeDeliver_def by (intro leads_intro; simp)

lemma MergeStream_StateChanged_leads [leads_intro]:
  "evolves w0 w \<Longrightarrow> leads w0 (MergeStream_UpstreamSubscriberStateChanged run a d w)"
  unfolding MergeStream_UpstreamSubscriberStateChanged_def by (intro leads_intro; clarsimp)

lemma MergeUpstreamSubscriber_leads [leads_intro]:
  "evolves w0 w \<Longrightarrow> leads w0 (MergeUpstreamSubscriber_OnSubscribe run a s w)"
  "evolves w0 w \<Longrightarrow> leads w0 (MergeUpstreamSubscriber_OnNext run a e w)"
  "evolves w0 w \<Longrightarrow> leads w0 (MergeUpstreamSubscriber_Cancel run a w)"
  "evolves w0 w \<Longrightarrow> leads w0 (MergeUpstreamSubscriber_DoSubscribe run a p w)"
  unfolding MergeUpstreamSubscriber_OnSubscribe_def MergeUpstreamSubscriber_OnNext_def
    MergeUpstreamSubscriber_Cancel_def MergeUpstreamSubscriber_DoSubscribe_def SharedSubscriberWrapper_Create_def
  by (intro leads_intro; clarsimp)+

lemma MergeUpstreamSubscriber_ConsumeNext_leads [leads_intro]:
  "evolves w0 w \<Longrightarrow> leads_with w0 (MergeUpstreamSubscriber_ConsumeNext run a w)"
  unfolding MergeUpstreamSubscriber_ConsumeNext_def by (intro leads_intro; clarsimp)

lemma MergeUpstreamSubscriber_destroy_leads [leads_intro]:
  "heap w a = Some (MergeUpstreamSubscriber m) \<Longrightarrow> leads w (MergeUpstreamSubscriber_destroy run a m w)"
  unfolding MergeUpstreamSubscriber_destroy_def by (intro leads_intro; simp)

lemma MergeStream_reset_leads [leads_intro]:
  "evolves w0 w \<Longrightarrow> leads w0 (MergeStream_reset_self_lock run a w)"
  "evolves w0 w \<Longrightarrow> leads w0 (MergeStream_reset_upstream run a i w)"
  unfolding MergeStream_reset_self_lock_def MergeStream_reset_upstream_def by (intro leads_intro; simp)+

lemma MergeStream_cancel_upstreams_leads [leads_intro]:
  "evolves w0 w \<Longrightarrow> leads w0 (MergeStream_cancel_upstreams run a is w)"
proof (induction "is" arbitrary: w)
  case (Cons i "is")
  show ?case unfolding MergeStream_cancel_upstreams.simps
    by (intro leads_intro Cons.IH; simp add: Cons.prems)
qed (simp add: leads_ret)

lemma MergeStream_leads [leads_intro]:
  "evolves w0 w \<Longrightarrow> leads w0 (MergeStream_Cancel run a w)"
  "evolves w0 w \<Longrightarrow> leads w0 (MergeStream_Request run a n w)"
  unfolding MergeStream_Cancel_def MergeStream_Request_def by (intro leads_intro; simp)+

lemma MergeStream_end_of_upstream_leads [leads_intro]:
  "evolves w0 w \<Longrightarrow> leads w0 (MergeStream_end_of_upstream run a i e w)"
  unfolding MergeStream_end_of_upstream_def by (intro leads_intro; simp)

lemma MergeStream_deliver_loop_leads [leads_intro]:
  "evolves w0 w \<Longrightarrow> leads w0 (MergeStream_deliver_loop run a w)"
  unfolding MergeStream_deliver_loop_def MergeUpstreamSubscriber_HasNext_def by (intro leads_intro; clarsimp)

lemma release_all_leads [leads_intro]: "evolves w0 w \<Longrightarrow> leads w0 (release_all run ps w)"
proof (induction ps arbitrary: w)
  case (Cons p ps)
  show ?case unfolding release_all.simps by (intro leads_intro Cons.IH; simp add: Cons.prems)
qed (simp add: leads_ret)

lemma MergeStream_destroy_leads [leads_intro]:
  "heap w a = Some (MergeStream m) \<Longrightarrow> leads w (MergeStream_destroy run a m w)"
  unfolding MergeStream_destroy_def
  by (intro leads_intro evolves_destroy [where x = "MergeStream m"]; simp)

lemma MergeStream_CreateUpstreamSubscriber_leads [leads_intro]:
  "evolves w0 w \<Longrightarrow> leads_with w0 (MergeStream_CreateUpstreamSubscriber run i a p w)"
  unfolding MergeStream_CreateUpstreamSubscriber_def by (intro leads_intro; simp)

lemma MergeStream_CreateUpstreamSubscribers_leads [leads_intro]:
  "evolves w0 w \<Longrightarrow> leads_with w0 (MergeStream_CreateUpstreamSubscribers run a ps i w)"
proof (induction ps arbitrary: i w)
  case (Cons p ps)
  show ?case unfolding MergeStream_CreateUpstreamSubscribers.simps
    by (intro leads_intro Cons.IH; simp add: Cons.prems)
qed (simp add: leads_intro)

lemma MergeStream_add_uniform_leads [leads_intro]:
  "evolves w0 w \<Longrightarrow> leads w0 (MergeStream_add_uniform run a ps w)"
proof (induction ps arbitrary: w)
  case (Cons p ps)
  show ?case unfolding MergeStream_add_uniform.simps
    by (intro leads_intro Cons.IH; simp add: Cons.prems)
qed (simp add: leads_ret)

lemma MergeStream_Create_evolves [simp]: "evolves w0 w \<Longrightarrow> evolves w0 (MergeStream_Create a w)"
  by (simp add: MergeStream_Create_def Let_def)

lemma MergePublisher_leads [leads_intro]:
  "evolves w0 w \<Longrightarrow> leads w0 (MergePublisher_Subscribe run ps a w)"
  "evolves w0 w \<Longrightarrow> leads w0 (MergeUniformPublisher_Subscribe run ps a w)"
  unfolding MergePublisher_Subscribe_def MergeUniformPublisher_Subscribe_def
    MergeStream_FinalizeConstruction_def MergeStream_FinalizeConstructionUniform_def
    MergeStream_lock_self_def MergeStream_confirm_def
  by (intro leads_intro; clarsimp)+

lemma dispatch_leads: "leads w (dispatch run c w)"
proof (cases c)
  case (OnSubscribe a s)
  then show ?thesis
    by (cases "heap w a" rule: obj_option_exhaust)
      (simp_all add: dispatch_def dispatch_OnSubscribe_def leads_intro)
next
  case (OnNext a s e)
  then show ?thesis
    by (cases "heap w a" rule: obj_option_exhaust)
      (simp_all add: dispatch_def dispatch_OnNext_def leads_intro)
next
  case (Request a n)
  then show ?thesis
    by (cases "heap w a" rule: obj_option_exhaust)
      (simp_all add: dispatch_def dispatch_Request_def leads_intro)
next
  case (Cancel a)
  then show ?thesis
    by (cases "heap w a" rule: obj_option_exhaust)
      (simp_all add: dispatch_def dispatch_Cancel_def leads_intro)
next
  case (Destroy a)
  then show ?thesis
    by (cases "heap w a" rule: obj_option_exhaust)
      (simp_all add: dispatch_def dispatch_Destroy_def leads_intro)
next
  case (DoSubscribe p a)
  then show ?thesis
    by (cases p) (simp_all add: dispatch_def dispatch_DoSubscribe_def leads_intro)
qed (simp_all add: dispatch_def leads_intro)

end

section \<open>All executions\<close>

lemma exec_leads: "leads w (exec c w)"
proof -
  have "\<forall>w'. r = Inr w' \<longrightarrow> evolves w w'" if "exec c w = Some r" for r
    using that
  proof (rule exec_induct [rotated], intro allI impI)
    fix run c w r w'
    assume IH: "\<And>c w (r :: fault + _). run c w = Some r \<Longrightarrow> \<forall>w'. r = Inr w' \<longrightarrow> evolves w w'"
      and d: "dispatch run c w = Some r" "r = Inr w'"
    have "evolving_runner run"
      using IH by unfold_locales (auto simp: leads_def ret_def)
    from evolving_runner.dispatch_leads [OF this, of w c] d show "evolves w w'"
      by (simp add: leads_def ret_def)
  qed
  then show ?thesis by (auto simp: leads_def ret_def)
qed

interpretation exec_evolves: evolving_runner exec
  by unfold_locales (rule exec_leads)

section \<open>Tasks\<close>

lemma run_task_leads: "evolves w0 w \<Longrightarrow> leads w0 (run_task exec t w)"
proof (cases t)
  case (TaskSubscribe p a i j)
  assume "evolves w0 w"
  then show ?thesis
    unfolding TaskSubscribe run_task.simps Let_def by (intro leads_intro exec_evolves.leads_run) simp
qed (auto intro!: leads_intro exec_evolves.leads_run exec_evolves.Subscription_leads split: option.splits)

text \<open>Dequeuing a task keeps everything but the queue it is taken from.\<close>

lemma consistent_queues [simp]: "consistent (w\<lparr>queues := q\<rparr>) = consistent w"
  by (simp add: consistent_def)

text \<open>What a run of the workers keeps: \<open>evolves\<close>, but for the queues.\<close>

definition outlives :: "('v, 'u) world \<Rightarrow> ('v, 'u) world \<Rightarrow> bool" where
  "outlives w w' \<longleftrightarrow> evolves (w\<lparr>queues := (\<lambda>_. [])\<rparr>) (w'\<lparr>queues := (\<lambda>_. [])\<rparr>)"

lemma outlives_refl: "outlives w w"
  by (simp add: outlives_def)

lemma outlives_trans: "outlives w1 w2 \<Longrightarrow> outlives w2 w3 \<Longrightarrow> outlives w1 w3"
  unfolding outlives_def by (rule evolves_trans)

lemma evolves_outlives: "evolves w w' \<Longrightarrow> outlives w w'"
  by (simp add: outlives_def evolves_def)

lemma outlives_dequeue: "outlives (w\<lparr>queues := q\<rparr>) w' \<Longrightarrow> outlives w w'"
  by (simp add: outlives_def)

lemma worker_step_outlives: "worker_step w r \<Longrightarrow> r = ret w' \<Longrightarrow> outlives w w'"
proof (erule worker_step.cases)
  fix v :: "('a, 'b) world" and k t ts
  assume *: "r = ret w'" "w = v" "r = run_task exec t (v\<lparr>queues := (queues v)(k := ts)\<rparr>)"
  have "leads (v\<lparr>queues := (queues v)(k := ts)\<rparr>) r"
    unfolding *(3) by (rule run_task_leads [OF evolves_refl])
  then have "outlives (v\<lparr>queues := (queues v)(k := ts)\<rparr>) w'"
    using *(1) unfolding leads_def by (blast intro: evolves_outlives)
  then show "outlives w w'" unfolding *(2) by (rule outlives_dequeue)
qed

lemma worker_steps_outlives: "worker_steps w r \<Longrightarrow> r = ret w' \<Longrightarrow> outlives w w'"
  by (induction rule: worker_steps.induct)
    (auto simp: outlives_refl intro: outlives_trans worker_step_outlives)

section \<open>Properties\<close>

text \<open>What \<open>evolves\<close> says of objects and subscriptions, over any addresses and subscriptions.\<close>

lemma evolves_ended:
  assumes "evolves w w'" and "consistent w" and "s < next_sid w" and "has_ended s w"
  shows "has_ended s w'"
  using assms by (auto simp: evolves_def has_ended_def)

lemma evolves_object:
  assumes "evolves w w'" and "consistent w" and "a < next_addr w" and "heap w' a = Some y"
  obtains x where "heap w a = Some x" and "class_of x = class_of y" and "sid_of x = sid_of y"
  using assms unfolding evolves_def by blast

lemma exec_evolves_ret: "exec c w = ret w' \<Longrightarrow> evolves w w'"
  using exec_leads [of w c] by (simp add: leads_def)

lemma consistent_empty_world: "consistent (empty_world u)"
  by (simp add: consistent_def empty_world_def)

text \<open>A stream that exists and a subscription to it: the starting point of the witnesses.\<close>

definition one_stream_world :: "(nat, nat list) world" where
  "one_stream_world =
     new_subscription_state 2 (alloc (GeneratingStream
       \<lparr>gs_generator = value_generator [Val 7], gs_state = SizeVal 0, gs_subscriber = 1,
        gs_requested = RequestBalance_init, gs_generating = False, gs_sid = 0\<rparr>)
      (alloc (FunctionalSubscriber (SubscribeUser []) (NextUser (\<lambda>_. []))) (empty_world [])))"

lemma one_stream_world_consistent: "consistent one_stream_world"
  unfolding one_stream_world_def
  by (auto simp: consistent_def empty_world_def new_subscription_state_def alloc_def split: if_splits)

text \<open>
  C23: whatever is called, on whatever streams, subscribers and user functions, a call that returns
  leaves the subscriptions consistent: a subscription refers to a stream exactly while that stream
  exists, and to no other object, so no subscription ever dangles.
\<close>

theorem calls_keep_subscriptions_consistent:
  assumes "consistent w" and "exec c w = ret w'"
  shows "consistent w'"
  using assms exec_evolves_ret [of c w w'] by (simp add: evolves_def)

lemma cancel_one_stream:
  "exec (Cancel 2) one_stream_world =
     ret (free 1 (free 2 (clear_subscription 0 one_stream_world)))"
  by (simp add: one_stream_world_def exec_Cancel empty_world_def GeneratingStream_Cancel_def get_simps
      exec_Destroy GeneratingStream_destroy_def cong: bnd_weak_cong)

theorem calls_keep_subscriptions_consistent_witness:
  "consistent (free 1 (free 2 (clear_subscription 0 one_stream_world)))"
  by (rule calls_keep_subscriptions_consistent [OF one_stream_world_consistent cancel_one_stream])

text \<open>
  C24: the end of a subscription is final: no call ever revives a subscription whose stream has
  ended.
\<close>

theorem ended_subscriptions_stay_ended:
  assumes "consistent w" and "s < next_sid w" and "has_ended s w" and "exec c w = ret w'"
  shows "has_ended s w'"
  using evolves_ended [OF exec_evolves_ret [OF assms(4)] assms(1-3)] .

text \<open>A second subscription, already over, beside the one that is cancelled.\<close>

definition two_sids_world :: "(nat, nat list) world" where
  "two_sids_world = one_stream_world\<lparr>next_sid := 2\<rparr>"

lemma two_sids_world_consistent: "consistent two_sids_world"
  using one_stream_world_consistent
  by (auto simp: two_sids_world_def consistent_def one_stream_world_def empty_world_def
      new_subscription_state_def alloc_def)

lemma cancel_two_sids:
  "exec (Cancel 2) two_sids_world = ret (free 1 (free 2 (clear_subscription 0 two_sids_world)))"
  by (simp add: two_sids_world_def one_stream_world_def exec_Cancel empty_world_def
      GeneratingStream_Cancel_def get_simps exec_Destroy GeneratingStream_destroy_def cong: bnd_weak_cong)

theorem ended_subscriptions_stay_ended_witness:
  "has_ended 1 (free 1 (free 2 (clear_subscription 0 two_sids_world)))"
  by (rule ended_subscriptions_stay_ended [OF two_sids_world_consistent _ _ cancel_two_sids])
    (simp_all add: two_sids_world_def one_stream_world_def empty_world_def)


text \<open>The stream of the example, cancelled while another one exists.\<close>

definition two_streams_world :: "(nat, nat list) world" where
  "two_streams_world =
     new_subscription_state 3 (alloc (MergeStream
       \<lparr>ms_subscriber = 9, ms_sid = 1, ms_upstream_subscribers = [], ms_self_lock = None,
        ms_current_index = 0, ms_request_balance = RequestBalance_init,
        ms_available_balance = RequestBalance_init, ms_delivering = False\<rparr>) one_stream_world)"

lemma two_streams_world_consistent: "consistent two_streams_world"
  unfolding two_streams_world_def one_stream_world_def
  by (auto simp: consistent_def empty_world_def new_subscription_state_def alloc_def split: if_splits)

lemma cancel_two_streams:
  "exec (Cancel 2) two_streams_world = ret (free 1 (free 2 (clear_subscription 0 two_streams_world)))"
  by (simp add: two_streams_world_def one_stream_world_def exec_Cancel empty_world_def
      GeneratingStream_Cancel_def get_simps exec_Destroy GeneratingStream_destroy_def cong: bnd_weak_cong)


text \<open>
  No call loses, reorders or runs a scheduled task: each worker's queue is extended at its
  end only.
\<close>

theorem tasks_are_only_appended:
  assumes "consistent w" and "exec c w = ret w'"
  shows "prefix (queues w k) (queues w' k)"
  using assms exec_evolves_ret [of c w w'] by (simp add: evolves_def)

text \<open>The tasks that cancelling and requesting leave on the worker.\<close>

definition async_world :: "(nat, nat list) world" where
  "async_world =
     (new_subscription_state 3 (alloc (AsyncStream
       \<lparr>as_produce_on = 0, as_consume_on = 1, as_subscriber = Some 9, as_sid = 1,
        as_upstream_subscription = Some 0\<rparr>) one_stream_world))
      \<lparr>queues := (\<lambda>_. [])(0 := [TaskRequest 1 0])\<rparr>"

lemma async_world_consistent: "consistent async_world"
  unfolding async_world_def one_stream_world_def
  by (auto simp: consistent_def empty_world_def new_subscription_state_def alloc_def split: if_splits)

lemma cancel_async_world: "exec (Cancel 3) async_world = ret (schedule 0 (TaskCancel 0) async_world)"
  by (simp add: async_world_def one_stream_world_def exec_Cancel empty_world_def AsyncStream_Cancel_def
      get_simps cong: bnd_weak_cong)

theorem tasks_are_only_appended_witness:
  "prefix [TaskRequest 1 0] (queues (schedule 0 (TaskCancel 0) async_world) 0)"
  using tasks_are_only_appended [OF async_world_consistent cancel_async_world, of 0]
  by (simp add: async_world_def)

text \<open>
  C26: the same holds across any number of steps of the workers, in any interleaving: the
  subscriptions stay consistent and the end of a subscription is final.
\<close>

theorem worker_steps_keep_subscriptions:
  assumes "consistent w" and "worker_steps w (ret w')"
  shows "consistent w' \<and> (\<forall>s<next_sid w. has_ended s w \<longrightarrow> has_ended s w')"
proof (intro conjI allI impI)
  have ev: "evolves (w\<lparr>queues := (\<lambda>_. [])\<rparr>) (w'\<lparr>queues := (\<lambda>_. [])\<rparr>)"
    using worker_steps_outlives [OF assms(2) refl] by (simp add: outlives_def)
  with assms(1) show "consistent w'" by (simp add: evolves_def)
  show "has_ended s w'" if "s < next_sid w" "has_ended s w" for s
    using evolves_ended [OF ev] that assms(1) by simp
qed

text \<open>A worker that runs the task that cancels the example stream.\<close>

definition cancelling_world :: "(nat, nat list) world" where
  "cancelling_world = two_sids_world\<lparr>queues := (\<lambda>_. [])(0 := [TaskCancel 0])\<rparr>"

lemma cancelling_world_steps:
  "worker_steps cancelling_world (ret (free 1 (free 2 (clear_subscription 0 two_sids_world))))"
proof -
  have "cancelling_world\<lparr>queues := (queues cancelling_world)(0 := [])\<rparr> = two_sids_world"
    by (simp add: cancelling_world_def two_sids_world_def one_stream_world_def empty_world_def
        new_subscription_state_def alloc_def fun_eq_iff)
  moreover have "run_task exec (TaskCancel 0) two_sids_world =
      ret (free 1 (free 2 (clear_subscription 0 two_sids_world)))"
    using cancel_two_sids
    by (simp add: Subscription_live two_sids_world_def one_stream_world_def empty_world_def)
  ultimately have "worker_step cancelling_world (ret (free 1 (free 2 (clear_subscription 0 two_sids_world))))"
    using oldest_task [of cancelling_world 0 "TaskCancel 0" "[]"] by (simp add: cancelling_world_def)
  then show ?thesis by (rule more_steps) (rule no_step)
qed

theorem worker_steps_keep_subscriptions_witness:
  "has_ended 1 (free 1 (free 2 (clear_subscription 0 two_sids_world)))"
  using worker_steps_keep_subscriptions [OF _ cancelling_world_steps] two_sids_world_consistent
  by (simp add: cancelling_world_def two_sids_world_def one_stream_world_def empty_world_def)

end
