(* ===== verification/Single.thy ===== *)
theory Single
  imports Flow_Control_Contract
begin

text \<open>
  \<open>Single\<close> (\<open>reactive/single.h\<close>): a publisher used for its first event only. The subscriber that
  \<open>Single::Subscribe\<close> makes requests one event, hands it to the listener, and cancels.
\<close>

section \<open>The class\<close>

type_synonym ('v, 'u) single = "('v, 'u) publisher"

definition Single_of_value :: "'v val \<Rightarrow> ('v, 'u) single" where
  "Single_of_value v = Publisher_value v"

definition Single_Error :: "Status \<Rightarrow> ('v, 'u) single res" where
  "Single_Error st = Publisher_Error st"

definition Single_of_publisher :: "('v, 'u) publisher \<Rightarrow> ('v, 'u) single" where
  "Single_of_publisher p = p"

definition Single_Subscribe ::
  "('v, 'u) runner \<Rightarrow> ('v, 'u) single \<Rightarrow> ('v event \<Rightarrow> 'u \<Rightarrow> 'u) \<Rightarrow> ('v, 'u) world \<Rightarrow> ('v, 'u) world res" where
  "Single_Subscribe run s listener w =
     Publisher_Subscribe_functions run s SubscribeRequest1 (NextSingle listener False) w"

definition Single_ContinueWith ::
  "('v val \<Rightarrow> 'u \<Rightarrow> ('v, 'u) single \<times> 'u) \<Rightarrow> ('v, 'u) single \<Rightarrow> ('v, 'u) single res" where
  "Single_ContinueWith func s = bnd (Publisher_FlatMap func s) (\<lambda>p. ret (Single_of_publisher p))"

definition move_publisher :: "('v, 'u) single \<Rightarrow> ('v, 'u) publisher" where
  "move_publisher s = s"

section \<open>One event of a generator\<close>

text \<open>
  The stream of a generator, subscribed to by a \<open>Single\<close>, delivers one event: after a value the
  subscription is cancelled from inside \<open>OnNext\<close>, which destroys the stream while its loop runs.
\<close>

definition single_result :: "'v event \<Rightarrow> 'v event" where
  "single_result e = (if IsDone e then StatusRepr single_contract_status else e)"

lemma code_single_contract [simp]: "code single_contract_status = FAILED_PRECONDITION"
  by (simp add: single_contract_status_def)

lemma single_next_generating:
  assumes "heap w d = Some (FunctionalSubscriber SubscribeRequest1 (NextSingle l False))"
    and "impl w s = Some a" and "heap w a = Some (GeneratingStream g)" and "gs_subscriber g = d"
    and "gs_sid g = s" and "a \<noteq> d"
  shows "exec (OnNext d s e) w = (let w1 = put d (FunctionalSubscriber SubscribeRequest1 (NextSingle l True)) w;
      w2 = w1\<lparr>user := l (single_result e) (user w)\<rparr>
    in if IsEnd e then ret w2 else ret (free d (free a (clear_subscription s w2))))"
  using assms
  by (auto simp: exec_OnNext FunctionalSubscriber_OnNext_def single_next_def single_result_def
      Subscription_live exec_Cancel GeneratingStream_Cancel_def exec_Destroy GeneratingStream_destroy_def
      Let_def IsEnd_def IsDone_def IsEnd_status_def IsDone_status_def)

lemma Single_Subscribe_generator:
  assumes "wf_world w" and "g st (user w) = (e, st', u)"
  shows "\<exists>w'. Single_Subscribe exec (Some (GeneratingPublisher st g)) l w = ret w'
    \<and> user w' = l (single_result e) u \<and> heap w' = heap w \<and> refs w' = refs w \<and> impl w' = impl w
    \<and> queues w' = queues w"
proof -
  have one: "Add (counter 0) 1 = counter (Suc 0)" using counter_Add [of 0 1] by simp
  have rem: "Remove (counter (Suc 0)) 1 = ret (counter 0)" by (rule counter_Remove) simp
  note fresh = wf_worldD [OF assms(1)]
  show ?thesis
    using assms(2) fresh
    by (cases "IsEnd e")
      (simp_all add: Single_Subscribe_def Publisher_Subscribe_functions_def Subscriber_Make_def exec_DoSubscribe
        GeneratingPublisher_Subscribe_def GeneratingStream_new_def exec_OnSubscribe
        FunctionalSubscriber_OnSubscribe_def Subscription_live exec_Request GeneratingStream_Request_def
        get_simps one GeneratingStream_Generate_def exec_internal(1) GeneratingStream_Generate_loop_def
        counter_Has rem single_next_generating exec_Destroy GeneratingStream_destroy_def Let_def
        cong: bnd_weak_cong, auto simp: fun_eq_iff)
qed

section \<open>Continuing with another single\<close>

lemma end_event: "IsEnd e \<Longrightarrow> \<exists>s. e = StatusRepr s \<and> code s \<noteq> OK"
  by (cases e) auto

lemma Single_ContinueWith_generator:
  assumes "wf_world w" and "g st (user w) = (ValueRepr v, st', u1)"
    and "func v u1 = (Some (GeneratingPublisher st2 g2), u2)" and "g2 st2 u2 = (e, st2', u3)" and "\<not> IsDone e"
  shows "\<exists>s w'. Single_ContinueWith func (Some (GeneratingPublisher st g)) = ret s
    \<and> Single_Subscribe exec s l w = ret w'
    \<and> user w' = l e u3 \<and> heap w' = heap w \<and> refs w' = refs w \<and> impl w' = impl w \<and> queues w' = queues w"
proof -
  have one: "Add (counter 0) 1 = counter (Suc 0)" using counter_Add [of 0 1] by simp
  have rem: "Remove (counter (Suc 0)) 1 = ret (counter 0)" by (rule counter_Remove) simp
  have bal: "balance (counter (Suc 0)) - balance (counter 0) = 1" by (simp add: counter_balance)
  note fresh = wf_worldD [OF assms(1)]
  note body = Single_ContinueWith_def Publisher_FlatMap_def Single_of_publisher_def
        Single_Subscribe_def Publisher_Subscribe_functions_def Subscriber_Make_def exec_DoSubscribe
        FlatMapPublisher_Subscribe_def exec_OnNext FlatMapStream_OnSubscribe_def FlatMapStream_Request_def
        FlatMapStream_OnNext_def FlatMapStream_OnSubscribeCont_def FlatMapStream_OnNextCont_def
        FlatMapStream_Send_def FlatMapStream_Terminate_def FlatMapStream_Cancel_def FlatMapStream_destroy_def
        base_subscription_def FunctionalSubscriber_OnNext_def single_next_def bal
        exec_Cancel GeneratingStream_Cancel_def
        GeneratingPublisher_Subscribe_def GeneratingStream_new_def exec_OnSubscribe
        FunctionalSubscriber_OnSubscribe_def Subscription_live exec_Request GeneratingStream_Request_def
        get_simps one GeneratingStream_Generate_def exec_internal(1,4,5) GeneratingStream_Generate_loop_def
        counter_Has rem exec_Destroy GeneratingStream_destroy_def Let_def
  show ?thesis
  proof (cases "IsEnd e")
    case True
    then obtain s where "e = StatusRepr s" "code s \<noteq> OK" using end_event by blast
    with assms(2-5) fresh show ?thesis
      by (simp add: body cong: bnd_weak_cong) (auto simp: fun_eq_iff)
  next
    case False
    with assms(2-5) fresh show ?thesis
      by (simp add: body cong: bnd_weak_cong) (auto simp: fun_eq_iff)
  qed
qed

section \<open>Properties\<close>

text \<open>
  A \<open>Single\<close> over a generator calls its listener exactly once, with the first event; if the
  generator ends without a value, the listener gets the error that reports the broken contract. The
  stream and its subscriber are destroyed, and nothing else changes.
\<close>

theorem Single_Subscribe_calls_once:
  assumes "wf_world w" and "g st (user w) = (e, st', u)"
  shows "\<exists>w'. Single_Subscribe exec (Some (GeneratingPublisher st g)) l w = ret w'
    \<and> user w' = l (single_result e) u \<and> heap w' = heap w \<and> refs w' = refs w \<and> impl w' = impl w
    \<and> queues w' = queues w"
  using assms by (rule Single_Subscribe_generator)

lemma wf_empty: "wf_world (empty_world u)"
  by (simp add: wf_world_def empty_world_def)

theorem Single_Subscribe_calls_once_witness:
  "\<exists>w'. Single_Subscribe exec (Some (CreateValuePublisher [Val (3 :: nat), Val 4])) (\<lambda>e u. u @ [e])
     (empty_world []) = ret w' \<and> user w' = [ValueRepr (Val 3)]"
proof -
  have "value_generator [Val (3 :: nat), Val 4] (SizeVal 0) (user (empty_world [] :: (nat, nat event list) world))
      = (ValueRepr (Val 3), SizeVal 1, [])"
    by (simp add: empty_world_def)
  from Single_Subscribe_calls_once [where g = "value_generator [Val 3, Val 4]" and st = "SizeVal 0",
      OF wf_empty this, of "\<lambda>e u. u @ [e]"] show ?thesis
    by (auto simp: CreateValuePublisher_def single_result_def IsDone_def IsDone_status_def OkStatus_def Status_default_def)
qed



end
