(* ===== verification/Scheduling.thy ===== *)
theory Scheduling
  imports Prelude
begin

text \<open>
  Workers and the thread pool (\<open>base/scheduler.cc\<close>) as a transition system. One step is one critical
  section of the code or the end of a task, so steps of different threads interleave in every order
  the mutexes allow. What a task does is not modelled: while a thread is busy, it (like any thread
  outside the pool) may schedule any task on any worker or on the pool. The fields that record
  which tasks of a worker were scheduled, started and finished are ghost state.
\<close>

section \<open>The classes\<close>

text \<open>A job of the pool: a task, or the lambda of \<open>MaybeRunNext\<close> with the worker and its task.\<close>

datatype 't job = PoolJob 't | WorkerJob nat 't

text \<open>
  A thread of the pool in \<open>PerThreadActivity\<close>: at the top of its loop, waiting on the condition
  variable, woken and about to test \<open>todo_\<close> again, executing a job, after the task of a worker's
  job, and returned.
\<close>

datatype 't thread = Top | Waiting | Woken | Busy "'t job" | After nat | Joined

record 't worker =
  wk_alive :: bool
  wk_running :: bool
  wk_steps :: "'t list"

record 't history =
  h_scheduled :: "'t list"
  h_started :: "'t list"
  h_finished :: "'t list"

record 't pool =
  workers :: "nat \<Rightarrow> 't worker"
  threads :: "'t thread list"
  threads_should_join :: bool
  todo :: "'t job list"
  active_count :: size_t
  hist :: "nat \<Rightarrow> 't history"

section \<open>The thread pool\<close>

definition ThreadPoolScheduler_new :: "nat \<Rightarrow> 't pool res" where
  "ThreadPoolScheduler_new thread_count =
     rx_check (thread_count > 0) ''invalid thread_count''
       (ret \<lparr>workers = (\<lambda>_. \<lparr>wk_alive = True, wk_running = False, wk_steps = []\<rparr>),
             threads = replicate thread_count Top, threads_should_join = False, todo = [],
             active_count = of_nat thread_count,
             hist = (\<lambda>_. \<lparr>h_scheduled = [], h_started = [], h_finished = []\<rparr>)\<rparr>)"

definition IdleCondition :: "'t pool \<Rightarrow> bool" where
  "IdleCondition s \<longleftrightarrow> todo s = [] \<and> active_count s = 0"

text \<open>\<open>work_available_cond_var_.Signal()\<close>, where \<open>i\<close> is the thread that wakes up, if one is waiting.\<close>

definition signal_one :: "nat \<Rightarrow> 't pool \<Rightarrow> 't pool" where
  "signal_one i s =
     (if i < length (threads s) \<and> threads s ! i = Waiting then s\<lparr>threads := (threads s)[i := Woken]\<rparr> else s)"

definition ThreadPoolScheduler_Schedule :: "'t job \<Rightarrow> nat \<Rightarrow> 't pool \<Rightarrow> 't pool" where
  "ThreadPoolScheduler_Schedule task i s = signal_one i (s\<lparr>todo := todo s @ [task]\<rparr>)"

text \<open>
  A thread at the test of \<open>while (todo_.empty())\<close>, holding the mutex: it returns, waits, or takes
  the oldest job.
\<close>

definition take_job :: "nat \<Rightarrow> 't pool \<Rightarrow> 't pool res" where
  "take_job i s =
     (case todo s of
        [] \<Rightarrow> ret (s\<lparr>threads := (threads s)[i := (if threads_should_join s then Joined else Waiting)]\<rparr>)
      | task # rest \<Rightarrow>
          rx_check (\<not> threads_should_join s) ''!threads_should_join_''
            (ret (s\<lparr>threads := (threads s)[i := Busy task], todo := rest,
                   active_count := active_count s + 1,
                   hist := (case task of
                       PoolJob _ \<Rightarrow> hist s
                     | WorkerJob k t \<Rightarrow> (hist s)(k := (hist s k)\<lparr>h_started := h_started (hist s k) @ [t]\<rparr>))\<rparr>)))"

definition PerThreadActivity_top :: "nat \<Rightarrow> 't pool \<Rightarrow> 't pool res" where
  "PerThreadActivity_top i s = take_job i (s\<lparr>active_count := active_count s - 1\<rparr>)"

text \<open>The first part of the destructor; the second waits until every thread has returned.\<close>

definition ThreadPoolScheduler_destroy :: "'t pool \<Rightarrow> 't pool res" where
  "ThreadPoolScheduler_destroy s =
     rx_check (IdleCondition s) ''Thread pool must be idle at destruction time''
       (ret (s\<lparr>threads_should_join := True,
              threads := map (\<lambda>t. if t = Waiting then Woken else t) (threads s)\<rparr>))"

section \<open>Workers\<close>

definition MaybeRunNext :: "nat \<Rightarrow> nat \<Rightarrow> 't pool \<Rightarrow> 't pool" where
  "MaybeRunNext k i s =
     (if wk_running (workers s k) then s
      else case wk_steps (workers s k) of
             [] \<Rightarrow> s
           | task # steps \<Rightarrow>
               ThreadPoolScheduler_Schedule (WorkerJob k task) i
                 (s\<lparr>workers := (workers s)(k := (workers s k)\<lparr>wk_steps := steps, wk_running := True\<rparr>)\<rparr>))"

definition WorkerImpl_Schedule :: "nat \<Rightarrow> 't \<Rightarrow> nat \<Rightarrow> 't pool \<Rightarrow> 't pool" where
  "WorkerImpl_Schedule k task i s =
     MaybeRunNext k i
       (s\<lparr>workers := (workers s)(k := (workers s k)\<lparr>wk_steps := wk_steps (workers s k) @ [task]\<rparr>),
         hist := (hist s)(k := (hist s k)\<lparr>h_scheduled := h_scheduled (hist s k) @ [task]\<rparr>)\<rparr>)"

text \<open>The end of a task: of the pool's, or of a worker's, whose lambda has more to do.\<close>

definition task_returns :: "nat \<Rightarrow> 't pool \<Rightarrow> 't pool" where
  "task_returns i s =
     (case threads s ! i of
        Busy (PoolJob _) \<Rightarrow> s\<lparr>threads := (threads s)[i := Top]\<rparr>
      | Busy (WorkerJob k t) \<Rightarrow>
          s\<lparr>threads := (threads s)[i := After k],
            hist := (hist s)(k := (hist s k)\<lparr>h_finished := h_finished (hist s k) @ [t]\<rparr>)\<rparr>
      | _ \<Rightarrow> s)"

text \<open>The rest of that lambda, where \<open>j\<close> is the thread that scheduling the next task wakes.\<close>

definition worker_continues :: "nat \<Rightarrow> nat \<Rightarrow> nat \<Rightarrow> 't pool \<Rightarrow> 't pool res" where
  "worker_continues i k j s =
     rx_check (wk_alive (workers s k)) ''Worker destroyed before all tasks finished''
       (ret (MaybeRunNext k j
         (s\<lparr>workers := (workers s)(k := (workers s k)\<lparr>wk_running := False\<rparr>), threads := (threads s)[i := Top]\<rparr>)))"

definition LifetimeTracker_destroy :: "nat \<Rightarrow> 't pool \<Rightarrow> 't pool" where
  "LifetimeTracker_destroy k s = s\<lparr>workers := (workers s)(k := (workers s k)\<lparr>wk_alive := False\<rparr>)\<rparr>"

section \<open>Steps\<close>

text \<open>The thread that a signal may wake: a waiting one, if there is one.\<close>

definition may_wake :: "nat \<Rightarrow> 't pool \<Rightarrow> bool" where
  "may_wake i s \<longleftrightarrow> (Waiting \<in> set (threads s) \<longrightarrow> i < length (threads s) \<and> threads s ! i = Waiting)"

text \<open>
  The clients keep the rules stated in \<open>scheduler.h\<close>: nothing is scheduled on a destroyed worker, nor
  once the pool is being destroyed; a worker is destroyed when its tasks are finished, and the pool
  when it is idle.
\<close>

inductive pool_step :: "'t pool \<Rightarrow> 't pool res \<Rightarrow> bool" where
  enter_loop: "i < length (threads s) \<Longrightarrow> threads s ! i = Top \<Longrightarrow> pool_step s (PerThreadActivity_top i s)"
| wake_up: "i < length (threads s) \<Longrightarrow> threads s ! i = Woken \<Longrightarrow> pool_step s (take_job i s)"
| spurious_wake: "i < length (threads s) \<Longrightarrow> threads s ! i = Waiting \<Longrightarrow>
    pool_step s (ret (s\<lparr>threads := (threads s)[i := Woken]\<rparr>))"
| task_end: "i < length (threads s) \<Longrightarrow> threads s ! i = Busy job \<Longrightarrow> pool_step s (ret (task_returns i s))"
| next_task: "i < length (threads s) \<Longrightarrow> threads s ! i = After k \<Longrightarrow>
    may_wake j (s\<lparr>threads := (threads s)[i := Top]\<rparr>) \<Longrightarrow> pool_step s (worker_continues i k j s)"
| schedule_on_worker: "\<not> threads_should_join s \<Longrightarrow> wk_alive (workers s k) \<Longrightarrow> may_wake i s \<Longrightarrow>
    pool_step s (ret (WorkerImpl_Schedule k t i s))"
| schedule_on_pool: "\<not> threads_should_join s \<Longrightarrow> may_wake i s \<Longrightarrow>
    pool_step s (ret (ThreadPoolScheduler_Schedule (PoolJob t) i s))"
| destroy_worker: "\<not> wk_running (workers s k) \<Longrightarrow> wk_steps (workers s k) = [] \<Longrightarrow>
    pool_step s (ret (LifetimeTracker_destroy k s))"
| destroy_pool: "IdleCondition s \<Longrightarrow> \<not> threads_should_join s \<Longrightarrow> pool_step s (ThreadPoolScheduler_destroy s)"

inductive pool_reachable :: "'t pool \<Rightarrow> bool" where
  created: "ThreadPoolScheduler_new n = ret s \<Longrightarrow> n < 2 ^ 31 \<Longrightarrow> pool_reachable s"
| stepped: "pool_reachable s \<Longrightarrow> pool_step s (ret s') \<Longrightarrow> pool_reachable s'"

section \<open>The invariant\<close>

fun is_active :: "'t thread \<Rightarrow> bool" where
  "is_active Top = True"
| "is_active (Busy _) = True"
| "is_active (After _) = True"
| "is_active _ = False"

fun can_take :: "'t thread \<Rightarrow> bool" where
  "can_take Top = True"
| "can_take Woken = True"
| "can_take _ = False"

fun task_of :: "nat \<Rightarrow> 't job \<Rightarrow> 't list" where
  "task_of k (WorkerJob k' t) = (if k' = k then [t] else [])"
| "task_of k (PoolJob _) = []"

fun busy_of :: "nat \<Rightarrow> 't thread \<Rightarrow> 't list" where
  "busy_of k (Busy job) = task_of k job"
| "busy_of k _ = []"

definition queued :: "nat \<Rightarrow> 't pool \<Rightarrow> 't list" where
  "queued k s = concat (map (task_of k) (todo s))"

definition busy :: "nat \<Rightarrow> 't pool \<Rightarrow> 't list" where
  "busy k s = concat (map (busy_of k) (threads s))"

definition finishing :: "nat \<Rightarrow> 't pool \<Rightarrow> nat" where
  "finishing k s = length (filter (\<lambda>t. t = After k) (threads s))"

definition takers :: "'t pool \<Rightarrow> nat" where
  "takers s = length (filter can_take (threads s))"

definition actives :: "'t pool \<Rightarrow> nat" where
  "actives s = length (filter is_active (threads s))"

text \<open>Counting: the active threads, and no job without a thread that will look for it.\<close>

definition threads_ok :: "'t pool \<Rightarrow> bool" where
  "threads_ok s \<longleftrightarrow> length (threads s) < 2 ^ 64 \<and> unat (active_count s) = actives s
     \<and> (length (todo s) \<le> takers s \<or> Waiting \<notin> set (threads s))
     \<and> (threads_should_join s \<longrightarrow> todo s = [] \<and> actives s = 0 \<and> Waiting \<notin> set (threads s))"

text \<open>A worker: at most one of its tasks is on its way, and the order of its tasks is kept.\<close>

definition worker_ok :: "nat \<Rightarrow> 't pool \<Rightarrow> bool" where
  "worker_ok k s \<longleftrightarrow>
     length (busy k s) + length (queued k s) + finishing k s = (if wk_running (workers s k) then 1 else 0)
     \<and> (\<not> wk_running (workers s k) \<longrightarrow> wk_steps (workers s k) = [])
     \<and> (\<not> wk_alive (workers s k) \<longrightarrow> \<not> wk_running (workers s k))
     \<and> h_scheduled (hist s k) = h_started (hist s k) @ queued k s @ wk_steps (workers s k)
     \<and> h_started (hist s k) = h_finished (hist s k) @ busy k s"

lemma length_filter_update:
  "i < length xs \<Longrightarrow> length (filter P (xs[i := x])) + (if P (xs ! i) then 1 else 0)
    = length (filter P xs) + (if P x then 1 else 0)"
proof (induction xs arbitrary: i)
  case (Cons y ys)
  then show ?case by (cases i) auto
qed simp

lemma concat_map_update:
  assumes "i < length xs"
  shows "concat (map f (xs[i := x])) = concat (map f (take i xs)) @ f x @ concat (map f (drop (Suc i) xs))"
    and "concat (map f xs) = concat (map f (take i xs)) @ f (xs ! i) @ concat (map f (drop (Suc i) xs))"
proof -
  show "concat (map f (xs[i := x])) = concat (map f (take i xs)) @ f x @ concat (map f (drop (Suc i) xs))"
    using assms by (simp add: upd_conv_take_nth_drop)
  show "concat (map f xs) = concat (map f (take i xs)) @ f (xs ! i) @ concat (map f (drop (Suc i) xs))"
    using assms by (subst (1) id_take_nth_drop [OF assms]) simp
qed

text \<open>One thread changes: what that does to the counts and to the tasks being run.\<close>

lemma thread_update:
  assumes "i < length (threads s)"
  shows "actives (s\<lparr>threads := (threads s)[i := t]\<rparr>) + (if is_active (threads s ! i) then 1 else 0)
      = actives s + (if is_active t then 1 else 0)"
    and "takers (s\<lparr>threads := (threads s)[i := t]\<rparr>) + (if can_take (threads s ! i) then 1 else 0)
      = takers s + (if can_take t then 1 else 0)"
    and "finishing k (s\<lparr>threads := (threads s)[i := t]\<rparr>) + (if threads s ! i = After k then 1 else 0)
      = finishing k s + (if t = After k then 1 else 0)"
  using length_filter_update [OF assms, of is_active t] length_filter_update [OF assms, of can_take t]
    length_filter_update [OF assms, of "\<lambda>t. t = After k" t]
  by (simp_all add: actives_def takers_def finishing_def)

lemma busy_split:
  assumes "i < length (threads s)"
  obtains us vs where "busy k s = us @ busy_of k (threads s ! i) @ vs"
    and "\<And>t. busy k (s\<lparr>threads := (threads s)[i := t]\<rparr>) = us @ busy_of k t @ vs"
proof
  let ?us = "concat (map (busy_of k) (take i (threads s)))" and ?vs = "concat (map (busy_of k) (drop (Suc i) (threads s)))"
  show "busy k s = ?us @ busy_of k (threads s ! i) @ ?vs"
    unfolding busy_def by (rule concat_map_update(2) [OF assms])
  show "busy k (s\<lparr>threads := (threads s)[i := t]\<rparr>) = ?us @ busy_of k t @ ?vs" for t
    unfolding busy_def using concat_map_update(1) [OF assms] by simp
qed

text \<open>A thread that runs nothing of the worker before and after, or is the only one that does.\<close>

lemma busy_update:
  assumes "i < length (threads s)"
  shows "busy_of k (threads s ! i) = busy_of k t \<Longrightarrow> busy k (s\<lparr>threads := (threads s)[i := t]\<rparr>) = busy k s"
    and "busy k s = [] \<Longrightarrow> busy k (s\<lparr>threads := (threads s)[i := t]\<rparr>) = busy_of k t"
    and "length (busy k s) \<le> 1 \<Longrightarrow> busy_of k (threads s ! i) = [u] \<Longrightarrow>
      busy k s = [u] \<and> busy k (s\<lparr>threads := (threads s)[i := t]\<rparr>) = busy_of k t"
    and "busy k s = [] \<Longrightarrow> busy_of k (threads s ! i) = []"
proof -
  obtain us vs where *: "busy k s = us @ busy_of k (threads s ! i) @ vs"
    "\<And>t. busy k (s\<lparr>threads := (threads s)[i := t]\<rparr>) = us @ busy_of k t @ vs"
    using busy_split [OF assms] by blast
  show "busy_of k (threads s ! i) = busy_of k t \<Longrightarrow> busy k (s\<lparr>threads := (threads s)[i := t]\<rparr>) = busy k s"
    "busy k s = [] \<Longrightarrow> busy k (s\<lparr>threads := (threads s)[i := t]\<rparr>) = busy_of k t"
    "length (busy k s) \<le> 1 \<Longrightarrow> busy_of k (threads s ! i) = [u] \<Longrightarrow>
      busy k s = [u] \<and> busy k (s\<lparr>threads := (threads s)[i := t]\<rparr>) = busy_of k t"
    "busy k s = [] \<Longrightarrow> busy_of k (threads s ! i) = []"
    using * by auto
qed

lemma frame [simp]:
  "busy k (s\<lparr>todo := td\<rparr>) = busy k s" "busy k (s\<lparr>active_count := c\<rparr>) = busy k s"
  "busy k (s\<lparr>hist := h\<rparr>) = busy k s" "busy k (s\<lparr>workers := wk\<rparr>) = busy k s"
  "busy k (s\<lparr>threads_should_join := b\<rparr>) = busy k s"
  "finishing k (s\<lparr>todo := td\<rparr>) = finishing k s" "finishing k (s\<lparr>active_count := c\<rparr>) = finishing k s"
  "finishing k (s\<lparr>hist := h\<rparr>) = finishing k s" "finishing k (s\<lparr>workers := wk\<rparr>) = finishing k s"
  "finishing k (s\<lparr>threads_should_join := b\<rparr>) = finishing k s"
  "actives (s\<lparr>todo := td\<rparr>) = actives s" "actives (s\<lparr>active_count := c\<rparr>) = actives s"
  "actives (s\<lparr>hist := h\<rparr>) = actives s" "actives (s\<lparr>workers := wk\<rparr>) = actives s"
  "actives (s\<lparr>threads_should_join := b\<rparr>) = actives s"
  "takers (s\<lparr>todo := td\<rparr>) = takers s" "takers (s\<lparr>active_count := c\<rparr>) = takers s"
  "takers (s\<lparr>hist := h\<rparr>) = takers s" "takers (s\<lparr>workers := wk\<rparr>) = takers s"
  "takers (s\<lparr>threads_should_join := b\<rparr>) = takers s"
  "queued k (s\<lparr>threads := th\<rparr>) = queued k s" "queued k (s\<lparr>active_count := c\<rparr>) = queued k s"
  "queued k (s\<lparr>hist := h\<rparr>) = queued k s" "queued k (s\<lparr>workers := wk\<rparr>) = queued k s"
  "queued k (s\<lparr>threads_should_join := b\<rparr>) = queued k s"
  by (simp_all add: busy_def finishing_def actives_def takers_def queued_def)

lemma queued_append [simp]: "queued k (s\<lparr>todo := todo s @ [job]\<rparr>) = queued k s @ task_of k job"
  by (simp add: queued_def)

lemma queued_Cons: "todo s = job # rest \<Longrightarrow> queued k s = task_of k job @ queued k (s\<lparr>todo := rest\<rparr>)"
  by (simp add: queued_def)

definition pool_ok :: "'t pool \<Rightarrow> bool" where
  "pool_ok s \<longleftrightarrow> threads_ok s \<and> (\<forall>k. worker_ok k s)"

lemma Waiting_update: "Waiting \<in> set (xs[i := t]) \<Longrightarrow> t \<noteq> Waiting \<Longrightarrow> Waiting \<in> set xs"
  by (metis (no_types, opaque_lifting) in_set_conv_nth length_list_update nth_list_update_eq nth_list_update_neq)

text \<open>A thread may wake up at any time: the signal, or a spurious one.\<close>

lemma wake_threads_ok:
  assumes "threads_ok s" and "i < length (threads s)" and "threads s ! i = Waiting"
  shows "threads_ok (s\<lparr>threads := (threads s)[i := Woken]\<rparr>)"
proof -
  have "Waiting \<in> set (threads s)" using assms(2,3) by (metis nth_mem)
  then show ?thesis
    using assms thread_update(1,2) [OF assms(2), of Woken]
    by (auto simp: threads_ok_def)
qed

lemma quiet_worker_ok:
  assumes "worker_ok k s" and "i < length (threads s)" and "busy_of k (threads s ! i) = busy_of k t"
    and "threads s ! i = After k \<longleftrightarrow> t = After k"
  shows "worker_ok k (s\<lparr>threads := (threads s)[i := t]\<rparr>)"
  using assms busy_update(1) [OF assms(2,3)] thread_update(3) [OF assms(2), of k t]
  by (auto simp: worker_ok_def)

lemma wake_pool_ok:
  assumes "pool_ok s" and "i < length (threads s)" and "threads s ! i = Waiting"
  shows "pool_ok (s\<lparr>threads := (threads s)[i := Woken]\<rparr>)"
  using assms unfolding pool_ok_def by (auto intro!: wake_threads_ok quiet_worker_ok)

lemma top_threads_ok:
  assumes "threads_ok s" and "i < length (threads s)" and "threads s ! i = Top"
  shows "threads_ok (s\<lparr>threads := (threads s)[i := Woken], active_count := active_count s - 1\<rparr>)"
proof -
  let ?s = "s\<lparr>threads := (threads s)[i := Woken]\<rparr>"
  have a: "actives ?s + 1 = actives s" "takers ?s = takers s"
    using thread_update(1,2) [OF assms(2), of Woken] assms(3) by simp_all
  then have "unat (active_count s) = Suc (actives ?s)" using assms(1) by (simp add: threads_ok_def)
  then have "unat (active_count s - 1) = actives ?s" by (simp add: unat_minus_64)
  with a assms show ?thesis
    by (auto simp: threads_ok_def dest: Waiting_update)
qed

lemma top_pool_ok:
  assumes "pool_ok s" and "i < length (threads s)" and "threads s ! i = Top"
  shows "pool_ok (s\<lparr>threads := (threads s)[i := Woken], active_count := active_count s - 1\<rparr>)"
proof -
  have "worker_ok k (s\<lparr>threads := (threads s)[i := Woken]\<rparr>)" for k
    using assms by (intro quiet_worker_ok) (auto simp: pool_ok_def)
  then show ?thesis
    using assms top_threads_ok [of s i] by (simp add: pool_ok_def worker_ok_def)
qed

lemma PerThreadActivity_take_job:
  "PerThreadActivity_top i s = take_job i (s\<lparr>threads := (threads s)[i := Woken], active_count := active_count s - 1\<rparr>)"
  by (simp add: PerThreadActivity_top_def take_job_def split: list.split job.split)

text \<open>Taking a job: the thread, no longer waiting, finds one or goes back to wait or returns.\<close>

lemma take_job_waits:
  assumes ok: "pool_ok s" and i: "i < length (threads s)" and t: "threads s ! i = Woken" and "todo s = []"
  shows "\<exists>s'. take_job i s = ret s' \<and> pool_ok s'"
proof -
  let ?t = "if threads_should_join s then Joined else Waiting"
  let ?s = "s\<lparr>threads := (threads s)[i := ?t]\<rparr>"
  have "threads_ok ?s"
    using assms thread_update(1) [OF i, of ?t]
    by (auto simp: pool_ok_def threads_ok_def dest: Waiting_update)
  moreover have "worker_ok k ?s" for k
    using assms by (intro quiet_worker_ok) (auto simp: pool_ok_def)
  ultimately show ?thesis using assms(4) by (simp add: take_job_def pool_ok_def)
qed

lemma take_job_starts:
  assumes ok: "pool_ok s" and i: "i < length (threads s)" and t: "threads s ! i = Woken" and td: "todo s = job # rest"
  shows "\<exists>s'. take_job i s = ret s' \<and> pool_ok s'"
proof -
  let ?s1 = "s\<lparr>threads := (threads s)[i := Busy job]\<rparr>"
  define s' where "s' = ?s1\<lparr>todo := rest, active_count := active_count s + 1,
    hist := (case job of PoolJob _ \<Rightarrow> hist s
      | WorkerJob k t \<Rightarrow> (hist s)(k := (hist s k)\<lparr>h_started := h_started (hist s k) @ [t]\<rparr>))\<rparr>"
  have join: "\<not> threads_should_join s" using ok td by (auto simp: pool_ok_def threads_ok_def)
  have "actives s < length (threads s)"
    unfolding actives_def using i t nth_mem [OF i] by (intro length_filter_less [of "threads s ! i"]) simp_all
  then have "unat (active_count s + 1) = Suc (actives s)"
    using ok by (simp add: pool_ok_def threads_ok_def unat_plus_64)
  then have "threads_ok s'"
    using ok i t td join thread_update(1,2) [OF i, of "Busy job"]
    by (auto simp: s'_def pool_ok_def threads_ok_def dest: Waiting_update)
  moreover have "worker_ok k s'" for k
  proof (cases "task_of k job")
    case Nil
    then have "worker_ok k ?s1" "queued k s = queued k (s\<lparr>todo := rest\<rparr>)"
      using ok i t td by (auto simp: pool_ok_def queued_Cons intro!: quiet_worker_ok)
    then show ?thesis using Nil by (auto simp: s'_def worker_ok_def queued_def split: job.splits if_splits)
  next
    case (Cons u us)
    then have job: "job = WorkerJob k u" "us = []" by (cases job; simp split: if_splits)+
    have w: "worker_ok k s" using ok by (simp add: pool_ok_def)
    have q: "queued k s = u # queued k (s\<lparr>todo := rest\<rparr>)" using queued_Cons [OF td, of k] job by simp
    then have b: "busy k s = []" "finishing k s = 0" "queued k (s\<lparr>todo := rest\<rparr>) = []" "wk_running (workers s k)"
      using w by (auto simp: worker_ok_def split: if_splits)
    have "busy k ?s1 = [u]" using busy_update(2) [OF i b(1), of "Busy job"] job by simp
    moreover have "finishing k ?s1 = 0" using thread_update(3) [OF i, of k "Busy job"] b t by simp
    ultimately show ?thesis
      using w q b job by (auto simp: s'_def worker_ok_def queued_def)
  qed
  ultimately show ?thesis
    using td join by (auto simp: take_job_def pool_ok_def s'_def)
qed

lemma take_job_ok:
  "pool_ok s \<Longrightarrow> i < length (threads s) \<Longrightarrow> threads s ! i = Woken \<Longrightarrow> \<exists>s'. take_job i s = ret s' \<and> pool_ok s'"
  by (cases "todo s") (simp_all add: take_job_waits take_job_starts)

text \<open>The end of a task.\<close>

lemma task_returns_ok:
  assumes ok: "pool_ok s" and i: "i < length (threads s)" and t: "threads s ! i = Busy job"
  shows "pool_ok (task_returns i s)"
proof (cases job)
  case (PoolJob u)
  let ?s = "s\<lparr>threads := (threads s)[i := Top]\<rparr>"
  have "worker_ok k ?s" for k
    using ok i t PoolJob by (intro quiet_worker_ok) (auto simp: pool_ok_def)
  moreover have "threads_ok ?s"
    using ok i t thread_update(1,2) [OF i, of Top] by (auto simp: pool_ok_def threads_ok_def dest: Waiting_update)
  ultimately show ?thesis using t PoolJob by (simp add: task_returns_def pool_ok_def)
next
  case (WorkerJob k u)
  let ?s = "s\<lparr>threads := (threads s)[i := After k]\<rparr>"
  let ?s' = "?s\<lparr>hist := (hist s)(k := (hist s k)\<lparr>h_finished := h_finished (hist s k) @ [u]\<rparr>)\<rparr>"
  have "threads_ok ?s'"
    using ok i t thread_update(1,2) [OF i, of "After k"] by (auto simp: pool_ok_def threads_ok_def dest: Waiting_update)
  moreover have "worker_ok k' ?s'" for k'
  proof (cases "k' = k")
    case False
    then have "worker_ok k' ?s"
      using ok i t WorkerJob by (intro quiet_worker_ok) (auto simp: pool_ok_def)
    with False show ?thesis by (simp add: worker_ok_def)
  next
    case True
    have w: "worker_ok k s" using ok by (simp add: pool_ok_def)
    then have "length (busy k s) \<le> 1" by (auto simp: worker_ok_def split: if_splits)
    then have b: "busy k s = [u]" "busy k ?s = []"
      using busy_update(3) [OF i, of k u "After k"] t WorkerJob by auto
    have f: "finishing k ?s = Suc (finishing k s)" using thread_update(3) [OF i, of k "After k"] t by simp
    show ?thesis using w b f True by (auto simp: worker_ok_def split: if_splits)
  qed
  ultimately show ?thesis using t WorkerJob by (simp add: task_returns_def pool_ok_def)
qed

text \<open>A new job on the pool: one more task of the worker it belongs to is on its way.\<close>

lemma Schedule_alt:
  "ThreadPoolScheduler_Schedule job i s = (signal_one i s)\<lparr>todo := todo s @ [job]\<rparr>"
  by (simp add: ThreadPoolScheduler_Schedule_def signal_one_def)

lemma signal_frame [simp]:
  "busy k (signal_one i s) = busy k s" "finishing k (signal_one i s) = finishing k s"
  "todo (signal_one i s) = todo s" "workers (signal_one i s) = workers s" "hist (signal_one i s) = hist s"
  using thread_update(3) [of i s k Woken]
  by (auto simp: signal_one_def busy_update(1) split: if_splits)

lemma Schedule_threads_ok:
  assumes ok: "threads_ok s" and "may_wake i s" and "\<not> threads_should_join s"
  shows "threads_ok (ThreadPoolScheduler_Schedule job i s)"
proof -
  show ?thesis
  proof (cases "Waiting \<in> set (threads s)")
    case False
    then have "signal_one i s = s" by (auto simp: signal_one_def dest: nth_mem)
    with assms False show ?thesis by (simp add: Schedule_alt threads_ok_def)
  next
    case True
    then have i: "i < length (threads s)" "threads s ! i = Waiting" using assms(2) by (auto simp: may_wake_def)
    with ok True assms(3) thread_update(1,2) [OF i(1), of Woken] show ?thesis
      by (auto simp: Schedule_alt signal_one_def threads_ok_def)
  qed
qed

lemma Schedule_frame [simp]:
  "busy k (ThreadPoolScheduler_Schedule job i s) = busy k s"
  "finishing k (ThreadPoolScheduler_Schedule job i s) = finishing k s"
  "queued k (ThreadPoolScheduler_Schedule job i s) = queued k s @ task_of k job"
  "workers (ThreadPoolScheduler_Schedule job i s) = workers s"
  "hist (ThreadPoolScheduler_Schedule job i s) = hist s"
  by (simp_all add: Schedule_alt) (simp add: queued_def)

text \<open>
  Before \<open>MaybeRunNext\<close> a worker may have steps and not be running; afterwards it is fine again.
\<close>

definition worker_pre :: "nat \<Rightarrow> 't pool \<Rightarrow> bool" where
  "worker_pre k s \<longleftrightarrow>
     length (busy k s) + length (queued k s) + finishing k s = (if wk_running (workers s k) then 1 else 0)
     \<and> wk_alive (workers s k)
     \<and> h_scheduled (hist s k) = h_started (hist s k) @ queued k s @ wk_steps (workers s k)
     \<and> h_started (hist s k) = h_finished (hist s k) @ busy k s"

lemma MaybeRunNext_ok:
  assumes th: "threads_ok s" and pre: "worker_pre k s" and others: "\<And>k'. k' \<noteq> k \<Longrightarrow> worker_ok k' s"
    and "may_wake i s" and "\<not> threads_should_join s"
  shows "pool_ok (MaybeRunNext k i s)"
proof (cases "wk_running (workers s k) \<or> wk_steps (workers s k) = []")
  case True
  then have "MaybeRunNext k i s = s" by (auto simp: MaybeRunNext_def)
  moreover have "worker_ok k s" using pre True by (auto simp: worker_pre_def worker_ok_def)
  ultimately show ?thesis using th others by (auto simp: pool_ok_def) metis
next
  case False
  then obtain u us where steps: "wk_steps (workers s k) = u # us" and idle: "\<not> wk_running (workers s k)"
    by (cases "wk_steps (workers s k)") auto
  let ?s = "s\<lparr>workers := (workers s)(k := (workers s k)\<lparr>wk_steps := us, wk_running := True\<rparr>)\<rparr>"
  have run: "MaybeRunNext k i s = ThreadPoolScheduler_Schedule (WorkerJob k u) i ?s"
    using steps idle by (simp add: MaybeRunNext_def)
  have "threads_ok ?s" using th by (simp add: threads_ok_def)
  then have "threads_ok (MaybeRunNext k i s)"
    unfolding run by (rule Schedule_threads_ok) (use assms(4,5) in \<open>simp_all add: may_wake_def\<close>)
  moreover have "worker_ok k' (MaybeRunNext k i s)" for k'
    using pre others [of k'] steps idle by (cases "k' = k") (auto simp: run worker_ok_def worker_pre_def)
  ultimately show ?thesis by (simp add: pool_ok_def)
qed

lemma WorkerImpl_Schedule_ok:
  assumes ok: "pool_ok s" and alive: "wk_alive (workers s k)" and "may_wake i s" and "\<not> threads_should_join s"
  shows "pool_ok (WorkerImpl_Schedule k t i s)"
  unfolding WorkerImpl_Schedule_def
proof (rule MaybeRunNext_ok)
  let ?s = "s\<lparr>workers := (workers s)(k := (workers s k)\<lparr>wk_steps := wk_steps (workers s k) @ [t]\<rparr>),
         hist := (hist s)(k := (hist s k)\<lparr>h_scheduled := h_scheduled (hist s k) @ [t]\<rparr>)\<rparr>"
  have w: "worker_ok k' s" for k' using ok by (simp add: pool_ok_def)
  show "threads_ok ?s" using ok by (simp add: pool_ok_def threads_ok_def)
  show "worker_pre k ?s" using w [of k] alive by (simp add: worker_ok_def worker_pre_def)
  show "worker_ok k' ?s" if "k' \<noteq> k" for k' using w [of k'] that by (simp add: worker_ok_def)
qed (use assms in \<open>simp_all add: may_wake_def\<close>)

lemma worker_continues_ok:
  assumes ok: "pool_ok s" and i: "i < length (threads s)" and t: "threads s ! i = After k"
    and "may_wake j (s\<lparr>threads := (threads s)[i := Top]\<rparr>)"
  shows "\<exists>s'. worker_continues i k j s = ret s' \<and> pool_ok s'"
proof -
  let ?s1 = "s\<lparr>threads := (threads s)[i := Top]\<rparr>"
  let ?s = "s\<lparr>workers := (workers s)(k := (workers s k)\<lparr>wk_running := False\<rparr>), threads := (threads s)[i := Top]\<rparr>"
  have s: "?s = ?s1\<lparr>workers := (workers s)(k := (workers s k)\<lparr>wk_running := False\<rparr>)\<rparr>" by simp
  have w: "worker_ok k' s" for k' using ok by (simp add: pool_ok_def)
  have f: "finishing k s = Suc (finishing k ?s1)" using thread_update(3) [OF i, of k Top] t by simp
  then have run: "wk_running (workers s k)" and z: "busy k s = []" "queued k s = []" "finishing k ?s1 = 0"
    using w [of k] by (auto simp: worker_ok_def split: if_splits)
  have alive: "wk_alive (workers s k)" using run w [of k] by (auto simp: worker_ok_def)
  have join: "\<not> threads_should_join s"
  proof
    assume "threads_should_join s"
    then have "actives s = 0" using ok by (simp add: pool_ok_def threads_ok_def)
    then show False using i t nth_mem [OF i] by (auto simp: actives_def filter_empty_conv)
  qed
  have b: "busy k' ?s1 = busy k' s" for k' by (rule busy_update(1) [OF i]) (simp add: t)
  have "pool_ok (MaybeRunNext k j ?s)"
  proof (rule MaybeRunNext_ok)
    show "threads_ok ?s"
      using ok i t thread_update(1,2) [OF i, of Top]
      unfolding s by (auto simp: pool_ok_def threads_ok_def dest: Waiting_update)
    show "worker_pre k ?s" using w [of k] alive z b [of k] unfolding s by (simp add: worker_ok_def worker_pre_def)
    show "worker_ok k' ?s" if "k' \<noteq> k" for k'
      using w [of k'] b [of k'] that thread_update(3) [OF i, of k' Top] t
      unfolding s by (simp add: worker_ok_def)
  qed (use assms(4) join in \<open>simp_all add: may_wake_def\<close>)
  then show ?thesis using alive by (simp add: worker_continues_def)
qed

lemma destroy_pool_ok:
  assumes ok: "pool_ok s" and idle: "IdleCondition s"
  shows "\<exists>s'. ThreadPoolScheduler_destroy s = ret s' \<and> pool_ok s'"
proof -
  let ?f = "\<lambda>t :: 'a thread. if t = Waiting then Woken else t"
  let ?s = "s\<lparr>threads_should_join := True, threads := map ?f (threads s)\<rparr>"
  have "actives ?s = actives s"
    unfolding actives_def by (induction "threads s") (auto simp: filter_map o_def intro!: arg_cong [where f = length] filter_cong)
  moreover have "busy k ?s = busy k s" for k
    unfolding busy_def by (auto simp: o_def intro!: arg_cong [where f = concat])
  moreover have "finishing k ?s = finishing k s" for k
    unfolding finishing_def by (auto simp: filter_map o_def intro!: arg_cong [where f = length] filter_cong)
  moreover have "queued k ?s = queued k s" for k by (simp add: queued_def)
  moreover have "Waiting \<notin> set (map ?f (threads s))" by auto
  ultimately have "pool_ok ?s"
    using ok idle by (auto simp: pool_ok_def threads_ok_def worker_ok_def IdleCondition_def unat_eq_0)
  then show ?thesis using idle by (simp add: ThreadPoolScheduler_destroy_def)
qed

lemma new_pool_ok:
  assumes "ThreadPoolScheduler_new n = ret s" and "n < 2 ^ 64"
  shows "pool_ok s"
proof -
  have s: "threads s = replicate n Top" "todo s = []" "active_count s = of_nat n" "\<not> threads_should_join s"
    "hist s k = \<lparr>h_scheduled = [], h_started = [], h_finished = []\<rparr>"
    "workers s k = \<lparr>wk_alive = True, wk_running = False, wk_steps = []\<rparr>" for k
    using assms(1) by (auto simp: ThreadPoolScheduler_new_def rx_check_eq_ret)
  have "actives s = n" by (simp add: actives_def s)
  then have "threads_ok s" using assms(2) by (auto simp: threads_ok_def s unat_of_nat)
  moreover have "worker_ok k s" for k
    by (simp add: worker_ok_def busy_def queued_def finishing_def s concat_replicate_trivial)
  ultimately show ?thesis by (simp add: pool_ok_def)
qed

lemma pool_step_ok: "pool_step s r \<Longrightarrow> pool_ok s \<Longrightarrow> \<exists>s'. r = ret s' \<and> pool_ok s'"
proof (induction rule: pool_step.induct)
  case (enter_loop i s)
  then show ?case
    unfolding PerThreadActivity_take_job by (intro take_job_ok top_pool_ok) simp_all
next
  case (schedule_on_pool s i t)
  then show ?case
    by (auto simp: pool_ok_def Schedule_threads_ok) (simp add: worker_ok_def)
next
  case (destroy_worker s k)
  then show ?case
    by (auto simp: pool_ok_def LifetimeTracker_destroy_def threads_ok_def worker_ok_def)
qed (auto intro: take_job_ok wake_pool_ok task_returns_ok worker_continues_ok WorkerImpl_Schedule_ok destroy_pool_ok)

lemma pool_reachable_ok: "pool_reachable s \<Longrightarrow> pool_ok s"
  by (induction rule: pool_reachable.induct) (use new_pool_ok pool_step_ok in fastforce)+

section \<open>Properties\<close>

text \<open>The tasks of a worker that have been scheduled and are not finished.\<close>

definition pending :: "nat \<Rightarrow> 't pool \<Rightarrow> 't list" where
  "pending k s = busy k s @ queued k s @ wk_steps (workers s k)"

lemma pool_ok_pending: "pool_ok s \<Longrightarrow> h_scheduled (hist s k) = h_finished (hist s k) @ pending k s"
  by (simp add: pool_ok_def worker_ok_def pending_def)

lemma MaybeRunNext_hist [simp]: "hist (MaybeRunNext k i s) = hist s"
  by (simp add: MaybeRunNext_def split: list.split)

lemma take_job_hist:
  "take_job i s = ret s' \<Longrightarrow> h_scheduled (hist s' k) = h_scheduled (hist s k) \<and> h_finished (hist s' k) = h_finished (hist s k)"
  by (auto simp: take_job_def rx_check_eq_ret split: list.splits job.splits)

text \<open>What one step does to the history of a worker: a task is scheduled, or finished, or neither.\<close>

lemma pool_step_hist:
  assumes "pool_step s r" and "r = ret s'"
  shows "h_scheduled (hist s' k) = h_scheduled (hist s k) \<and> h_finished (hist s' k) = h_finished (hist s k)
    \<or> (\<exists>t. h_scheduled (hist s' k) = h_scheduled (hist s k) @ [t] \<and> h_finished (hist s' k) = h_finished (hist s k))
    \<or> (\<exists>t. h_scheduled (hist s' k) = h_scheduled (hist s k) \<and> h_finished (hist s' k) = h_finished (hist s k) @ [t])"
  using assms
proof (induction rule: pool_step.induct)
  case (enter_loop i s)
  then have "take_job i (s\<lparr>threads := (threads s)[i := Woken], active_count := active_count s - 1\<rparr>) = ret s'"
    by (simp add: PerThreadActivity_take_job)
  from take_job_hist [OF this, of k] show ?case by simp
next
  case (wake_up i s)
  then show ?case using take_job_hist by blast
next
  case (task_end i s job)
  then show ?case
  proof (cases job)
    case (WorkerJob k' t)
    with task_end have "s' = s\<lparr>threads := (threads s)[i := After k'],
        hist := (hist s)(k' := (hist s k')\<lparr>h_finished := h_finished (hist s k') @ [t]\<rparr>)\<rparr>"
      by (simp add: task_returns_def)
    then show ?thesis by (cases "k' = k") simp_all
  qed (auto simp: task_returns_def)
next
  case (next_task i s k' j)
  then show ?case by (auto simp: worker_continues_def rx_check_eq_ret)
next
  case (schedule_on_worker s k' i t)
  then have "hist s' = (hist s)(k' := (hist s k')\<lparr>h_scheduled := h_scheduled (hist s k') @ [t]\<rparr>)"
    by (auto simp: WorkerImpl_Schedule_def)
  then show ?case by (cases "k' = k") simp_all
next
  case (destroy_pool s)
  then show ?case by (auto simp: ThreadPoolScheduler_destroy_def rx_check_eq_ret)
qed (auto simp: LifetimeTracker_destroy_def)

text \<open>A run of a pool with one thread, for the witnesses: one task on worker 0.\<close>

definition sample_state :: "bool \<Rightarrow> nat list \<Rightarrow> nat list \<Rightarrow> nat list \<Rightarrow> nat thread \<Rightarrow> nat job list \<Rightarrow> size_t \<Rightarrow> nat pool" where
  "sample_state running scheduled started finished t jobs n =
     \<lparr>workers = (\<lambda>_. \<lparr>wk_alive = True, wk_running = False, wk_steps = []\<rparr>)(0 := \<lparr>wk_alive = True, wk_running = running, wk_steps = []\<rparr>),
      threads = [t], threads_should_join = False, todo = jobs, active_count = n,
      hist = (\<lambda>_. \<lparr>h_scheduled = [], h_started = [], h_finished = []\<rparr>)
        (0 := \<lparr>h_scheduled = scheduled, h_started = started, h_finished = finished\<rparr>)\<rparr>"

definition sample_pool :: "nat pool" where
  "sample_pool = sample_state True [7] [] [] Top [WorkerJob 0 7] 1"

definition sample_busy :: "nat pool" where
  "sample_busy = sample_state True [7] [7] [] (Busy (WorkerJob 0 7)) [] 1"

definition sample_idle :: "nat pool" where
  "sample_idle = sample_state False [7] [7] [7] Waiting [] 0"

lemmas sample_simps = sample_state_def ThreadPoolScheduler_new_def WorkerImpl_Schedule_def
  MaybeRunNext_def ThreadPoolScheduler_Schedule_def signal_one_def PerThreadActivity_top_def take_job_def
  task_returns_def worker_continues_def IdleCondition_def may_wake_def

lemma sample_starts: "ThreadPoolScheduler_new 1 = ret (sample_state False [] [] [] Top [] 1)"
  by (simp add: sample_simps fun_upd_idem)

lemma sample_runs:
  "WorkerImpl_Schedule 0 7 0 (sample_state False [] [] [] Top [] 1) = sample_pool"
  "PerThreadActivity_top 0 sample_pool = ret sample_busy"
  "task_returns 0 sample_busy = sample_state True [7] [7] [7] (After 0) [] 1"
  "worker_continues 0 0 0 (sample_state True [7] [7] [7] (After 0) [] 1) = ret (sample_state False [7] [7] [7] Top [] 1)"
  "PerThreadActivity_top 0 (sample_state False [7] [7] [7] Top [] 1) = ret sample_idle"
  by (simp_all add: sample_simps sample_pool_def sample_busy_def sample_idle_def)

lemma sample_pool_reachable: "pool_reachable sample_pool"
proof (rule stepped)
  show "pool_reachable (sample_state False [] [] [] Top [] 1)" by (rule created [OF sample_starts]) simp
  have "pool_step (sample_state False [] [] [] Top [] 1) (ret (WorkerImpl_Schedule 0 7 0 (sample_state False [] [] [] Top [] 1)))"
    by (intro pool_step.schedule_on_worker) (simp_all add: sample_state_def may_wake_def)
  then show "pool_step (sample_state False [] [] [] Top [] 1) (ret sample_pool)" by (simp add: sample_runs)
qed

lemma sample_pool_step: "pool_step sample_pool (ret sample_busy)"
proof -
  have "pool_step sample_pool (PerThreadActivity_top 0 sample_pool)"
    by (intro pool_step.enter_loop) (simp_all add: sample_state_def sample_pool_def)
  then show ?thesis by (simp add: sample_runs)
qed

lemma sample_idle_reachable: "pool_reachable sample_idle"
proof -
  let ?after = "sample_state True [7] [7] [7] (After 0) [] 1" and ?top = "sample_state False [7] [7] [7] Top [] 1"
  have "pool_reachable sample_busy" by (rule stepped [OF sample_pool_reachable sample_pool_step])
  moreover have "pool_step sample_busy (ret (task_returns 0 sample_busy))"
    by (intro pool_step.task_end [where job = "WorkerJob 0 7"]) (simp_all add: sample_state_def sample_busy_def)
  ultimately have "pool_reachable ?after" unfolding sample_runs by (rule stepped)
  moreover have "pool_step ?after (worker_continues 0 0 0 ?after)"
    by (intro pool_step.next_task) (simp_all add: sample_state_def may_wake_def)
  ultimately have "pool_reachable ?top" unfolding sample_runs by (rule stepped)
  moreover have "pool_step ?top (PerThreadActivity_top 0 ?top)"
    by (intro pool_step.enter_loop) (simp_all add: sample_state_def)
  ultimately show ?thesis unfolding sample_runs by (rule stepped)
qed

lemma sample_idle_IdleCondition: "IdleCondition sample_idle"
  by (simp add: IdleCondition_def sample_idle_def sample_state_def)

text \<open>The same pool while it is being destroyed.\<close>

definition sample_destroyed :: "nat pool" where
  "sample_destroyed = sample_idle\<lparr>threads_should_join := True, threads := [Woken]\<rparr>"

lemma sample_destroyed_reachable: "pool_reachable sample_destroyed"
proof -
  have "pool_step sample_idle (ThreadPoolScheduler_destroy sample_idle)"
    by (intro pool_step.destroy_pool sample_idle_IdleCondition) (simp add: sample_idle_def sample_state_def)
  then have "pool_step sample_idle (ret sample_destroyed)"
    by (simp add: ThreadPoolScheduler_destroy_def sample_idle_IdleCondition) (simp add: sample_destroyed_def sample_idle_def sample_state_def)
  then show ?thesis by (rule stepped [OF sample_idle_reachable])
qed



text \<open>
  C18: the tasks of a worker run strictly one after the other and in the order they were scheduled:
  those finished and those started are prefixes of those scheduled, and at most one task has been
  started and is not finished.
\<close>

theorem worker_runs_in_order:
  assumes "pool_reachable s"
  shows "prefix (h_finished (hist s k)) (h_started (hist s k)) \<and> prefix (h_started (hist s k)) (h_scheduled (hist s k))
    \<and> length (h_started (hist s k)) \<le> Suc (length (h_finished (hist s k)))"
proof -
  have w: "worker_ok k s" using pool_reachable_ok [OF assms] by (simp add: pool_ok_def)
  then have "length (busy k s) \<le> 1" by (auto simp: worker_ok_def split: if_splits)
  with w show ?thesis by (auto simp: worker_ok_def prefix_def)
qed

theorem worker_runs_in_order_witness:
  "prefix (h_finished (hist sample_idle 0)) (h_started (hist sample_idle 0)) \<and> h_scheduled (hist sample_idle 0) = [7]
    \<and> h_finished (hist sample_idle 0) = [7]"
  using worker_runs_in_order [OF sample_idle_reachable, of 0] by (simp add: sample_idle_def sample_state_def)

text \<open>
  C17: a worker implements a queue of tasks: one step of the system leaves its pending tasks as they
  are, appends a task, or removes the oldest one. This is the view of workers that the model of the
  \<open>Async\<close> operator takes.
\<close>

theorem worker_refines_queue:
  assumes "pool_reachable s" and "pool_step s (ret s')"
  shows "pending k s' = pending k s \<or> (\<exists>t. pending k s' = pending k s @ [t]) \<or> (\<exists>t. pending k s = t # pending k s')"
proof -
  have ok: "pool_ok s" by (rule pool_reachable_ok [OF assms(1)])
  then have ok': "pool_ok s'" using pool_step_ok [OF assms(2)] by auto
  note old = pool_ok_pending [OF ok, of k] and new = pool_ok_pending [OF ok', of k]
  from pool_step_hist [OF assms(2) refl, of k] consider
      (same) "h_scheduled (hist s' k) = h_scheduled (hist s k)" "h_finished (hist s' k) = h_finished (hist s k)"
    | (scheduled) t where "h_scheduled (hist s' k) = h_scheduled (hist s k) @ [t]" "h_finished (hist s' k) = h_finished (hist s k)"
    | (finished) t where "h_scheduled (hist s' k) = h_scheduled (hist s k)" "h_finished (hist s' k) = h_finished (hist s k) @ [t]"
    by blast
  then show ?thesis
  proof cases
    case same
    then show ?thesis using old new by simp
  next
    case (scheduled t)
    then have "pending k s' = pending k s @ [t]" using old new by simp
    then show ?thesis by blast
  next
    case (finished t)
    then have "pending k s = t # pending k s'" using old new by simp
    then show ?thesis by blast
  qed
qed

theorem worker_refines_queue_witness:
  "pending 0 sample_busy = pending 0 sample_pool \<or> (\<exists>t. pending 0 sample_busy = pending 0 sample_pool @ [t])
    \<or> (\<exists>t. pending 0 sample_pool = t # pending 0 sample_busy)"
  by (rule worker_refines_queue [OF sample_pool_reachable sample_pool_step])

text \<open>
  C20: when the idle condition holds, there is no work left anywhere: every task scheduled on a
  worker has finished, no worker is running or has steps, and every thread is waiting, about to
  wait, or has returned. So \<open>WaitUntilIdle\<close> returns only when all work is done.
\<close>

theorem idle_means_no_work:
  assumes "pool_reachable s" and "IdleCondition s"
  shows "h_finished (hist s k) = h_scheduled (hist s k) \<and> \<not> wk_running (workers s k) \<and> wk_steps (workers s k) = []
    \<and> set (threads s) \<subseteq> {Waiting, Woken, Joined}"
proof -
  have ok: "threads_ok s" "worker_ok k s" using pool_reachable_ok [OF assms(1)] by (simp_all add: pool_ok_def)
  then have "filter is_active (threads s) = []"
    using assms(2) by (simp add: threads_ok_def IdleCondition_def actives_def)
  then have inactive: "\<not> is_active t" if "t \<in> set (threads s)" for t
    using that by (simp add: filter_empty_conv)
  have "busy_of k t = []" "t \<noteq> After k" if "t \<in> set (threads s)" for t
    using inactive [OF that] by (cases t; simp)+
  then have "busy k s = []" "finishing k s = 0"
    by (auto simp: busy_def finishing_def filter_empty_conv)
  moreover have "queued k s = []" using assms(2) by (simp add: queued_def IdleCondition_def)
  ultimately have "\<not> wk_running (workers s k)" using ok(2) by (auto simp: worker_ok_def split: if_splits)
  moreover have "set (threads s) \<subseteq> {Waiting, Woken, Joined}"
  proof
    fix t assume "t \<in> set (threads s)"
    then have "\<not> is_active t" by (rule inactive)
    then show "t \<in> {Waiting, Woken, Joined}" by (cases t) simp_all
  qed
  ultimately show ?thesis
    using ok(2) \<open>busy k s = []\<close> \<open>queued k s = []\<close> by (auto simp: worker_ok_def)
qed

theorem idle_means_no_work_witness:
  "IdleCondition sample_idle \<and> h_finished (hist sample_idle 0) = h_scheduled (hist sample_idle 0)"
  using idle_means_no_work [OF sample_idle_reachable sample_idle_IdleCondition, of 0] sample_idle_IdleCondition by simp

text \<open>A pool keeps its threads, and no thread returns before the destructor runs.\<close>

definition threads_kept :: "'t pool \<Rightarrow> bool" where
  "threads_kept s \<longleftrightarrow> threads s \<noteq> [] \<and> (Joined \<in> set (threads s) \<longrightarrow> threads_should_join s)"

lemma Joined_update: "Joined \<in> set (ts[i := t]) \<Longrightarrow> t = Joined \<or> Joined \<in> set ts"
  using set_update_subset_insert [of ts i t] by auto

lemma take_job_kept: "take_job i s = ret s' \<Longrightarrow> threads_kept s \<Longrightarrow> threads_kept s'"
  by (auto simp: take_job_def threads_kept_def rx_check_eq_ret split: list.splits if_splits dest!: Joined_update)

lemma signal_one_kept: "threads_kept s \<Longrightarrow> threads_kept (signal_one i s)"
  by (auto simp: signal_one_def threads_kept_def dest!: Joined_update)

lemma MaybeRunNext_kept: "threads_kept s \<Longrightarrow> threads_kept (MaybeRunNext k i s)"
  unfolding MaybeRunNext_def ThreadPoolScheduler_Schedule_def
  by (auto split: list.split intro!: signal_one_kept) (simp add: threads_kept_def)

lemma pool_step_kept: "pool_step s r \<Longrightarrow> r = ret s' \<Longrightarrow> threads_kept s \<Longrightarrow> threads_kept s'"
proof (induction rule: pool_step.induct)
  case (enter_loop i s)
  then show ?case unfolding PerThreadActivity_top_def by (elim take_job_kept) (simp add: threads_kept_def)
next
  case (task_end i s job)
  then show ?case
    by (cases job) (auto simp: task_returns_def threads_kept_def dest!: Joined_update)
next
  case (next_task i s k j)
  then show ?case
    by (auto simp: worker_continues_def rx_check_eq_ret intro!: MaybeRunNext_kept)
      (auto simp: threads_kept_def dest!: Joined_update)
next
  case (schedule_on_worker s k i t)
  then show ?case
    by (auto simp: WorkerImpl_Schedule_def intro!: MaybeRunNext_kept) (simp add: threads_kept_def)
next
  case (schedule_on_pool s i t)
  then show ?case
    by (auto simp: ThreadPoolScheduler_Schedule_def intro!: signal_one_kept) (simp add: threads_kept_def)
next
  case (wake_up i s)
  then show ?case using take_job_kept by blast
qed (auto simp: LifetimeTracker_destroy_def ThreadPoolScheduler_destroy_def rx_check_eq_ret threads_kept_def
    dest!: Joined_update)

lemma pool_reachable_kept: "pool_reachable s \<Longrightarrow> threads_kept s"
proof (induction rule: pool_reachable.induct)
  case (created n s)
  then show ?case by (auto simp: ThreadPoolScheduler_new_def rx_check_eq_ret threads_kept_def)
qed (blast intro: pool_step_kept)

text \<open>
  C19: no wake-up is lost and the pool never deadlocks: whenever a job is waiting to be done, some
  thread is about to look for it, or every thread is active, so that the next one to finish its
  task will look; either way some thread neither waits nor has returned.
\<close>

theorem no_lost_wakeup:
  assumes "pool_reachable s" and "todo s \<noteq> []"
  shows "((\<exists>t\<in>set (threads s). can_take t) \<or> (\<forall>t\<in>set (threads s). is_active t))
    \<and> (\<exists>i<length (threads s). threads s ! i \<notin> {Waiting, Joined})"
proof -
  have ok: "threads_ok s" and kept: "threads_kept s"
    using pool_reachable_ok [OF assms(1)] pool_reachable_kept [OF assms(1)] by (simp_all add: pool_ok_def)
  have some: "(\<exists>t\<in>set (threads s). can_take t) \<or> (\<forall>t\<in>set (threads s). is_active t)"
  proof (cases "takers s = 0")
    case True
    then have "Waiting \<notin> set (threads s)" "Joined \<notin> set (threads s)"
      using ok kept assms(2) by (auto simp: threads_ok_def threads_kept_def)
    moreover have "\<not> can_take t" if "t \<in> set (threads s)" for t
      using True that by (simp add: takers_def filter_empty_conv)
    ultimately have "is_active t" if "t \<in> set (threads s)" for t
      using that by (cases t) fastforce+
    then show ?thesis by blast
  next
    case False
    then show ?thesis by (auto simp: takers_def filter_empty_conv)
  qed
  moreover have "\<exists>t\<in>set (threads s). t \<notin> {Waiting, Joined}"
    using some kept by (auto simp: threads_kept_def) (metis can_take.simps is_active.simps list.set_sel(1))+
  ultimately show ?thesis by (auto simp: in_set_conv_nth)
qed

theorem no_lost_wakeup_witness:
  "todo sample_pool = [WorkerJob 0 7] \<and> (\<exists>i<length (threads sample_pool). threads sample_pool ! i \<notin> {Waiting, Joined})"
  using no_lost_wakeup [OF sample_pool_reachable] by (simp add: sample_pool_def sample_state_def)

text \<open>
  C21: the destructor of the pool returns: once it has set \<open>threads_should_join_\<close>, every thread that
  has not returned is awake and its next step is to return, so every \<open>join\<close> ends.
\<close>

theorem destroyed_pool_joins:
  assumes "pool_reachable s" and "threads_should_join s" and "i < length (threads s)"
  shows "threads s ! i = Joined
    \<or> threads s ! i = Woken \<and> take_job i s = ret (s\<lparr>threads := (threads s)[i := Joined]\<rparr>)"
proof -
  have ok: "todo s = []" "actives s = 0" "Waiting \<notin> set (threads s)"
    using pool_reachable_ok [OF assms(1)] assms(2) by (simp_all add: pool_ok_def threads_ok_def)
  have "\<not> is_active (threads s ! i)" "threads s ! i \<noteq> Waiting"
    using ok nth_mem [OF assms(3)] by (auto simp: actives_def filter_empty_conv)
  then have "threads s ! i = Joined \<or> threads s ! i = Woken" by (cases "threads s ! i") auto
  then show ?thesis using ok assms(2) by (auto simp: take_job_def)
qed

theorem destroyed_pool_joins_witness:
  "threads sample_destroyed ! 0 = Woken
    \<and> take_job 0 sample_destroyed = ret (sample_destroyed\<lparr>threads := (threads sample_destroyed)[0 := Joined]\<rparr>)"
  using destroyed_pool_joins [OF sample_destroyed_reachable, of 0]
  by (simp add: sample_destroyed_def sample_idle_def sample_state_def)

end
