(* ===== verification/Serving_Pool.thy ===== *)
theory Serving_Pool
  imports Scheduling
begin

text \<open>
  A thread pool that serves workers: what its threads do between the tasks, what that does to the tasks
  that are pending, and why the threads settle down when no task runs.
\<close>

section \<open>What the threads do between the tasks\<close>

inductive thread_step :: "'t pool \<Rightarrow> 't pool res \<Rightarrow> bool" where
  thread_enters: "i < length (threads s) \<Longrightarrow> threads s ! i = Top \<Longrightarrow> thread_step s (PerThreadActivity_top i s)"
| thread_wakes: "i < length (threads s) \<Longrightarrow> threads s ! i = Woken \<Longrightarrow> thread_step s (take_job i s)"
| thread_continues: "i < length (threads s) \<Longrightarrow> threads s ! i = After k \<Longrightarrow>
    may_wake j (s\<lparr>threads := (threads s)[i := Top]\<rparr>) \<Longrightarrow> thread_step s (worker_continues i k j s)"

inductive thread_woken :: "'t pool \<Rightarrow> 't pool \<Rightarrow> bool" where
  woken_for_nothing: "i < length (threads s) \<Longrightarrow> threads s ! i = Waiting \<Longrightarrow>
    thread_woken s (s\<lparr>threads := (threads s)[i := Woken]\<rparr>)"

lemma thread_step_pool: "thread_step s r \<Longrightarrow> pool_step s r"
  by (induction rule: thread_step.induct) (auto intro: pool_step.intros)

lemma thread_woken_pool: "thread_woken s s' \<Longrightarrow> pool_step s (ret s')"
  by (induction rule: thread_woken.induct) (auto intro: pool_step.intros)

text \<open>The calls of \<open>Worker::Schedule\<close> that a task makes, one after the other.\<close>

inductive schedules :: "(nat \<times> 't) list \<Rightarrow> 't pool \<Rightarrow> 't pool \<Rightarrow> bool" where
  schedules_none: "schedules [] s s"
| schedules_more: "may_wake i s \<Longrightarrow> schedules ts (WorkerImpl_Schedule k t i s) s' \<Longrightarrow> schedules ((k, t) # ts) s s'"

lemma some_may_wake: "\<exists>i. may_wake i s"
  by (auto simp: may_wake_def in_set_conv_nth)

lemma schedules_exists: "\<exists>s'. schedules ts s s'"
proof (induction ts arbitrary: s)
  case (Cons kt ts)
  obtain k t where "kt = (k, t)" by (cases kt)
  with Cons show ?case using some_may_wake [of s] by (blast intro: schedules_more)
qed (blast intro: schedules_none)

section \<open>A pool that serves workers only\<close>

definition serving :: "'t pool \<Rightarrow> bool" where
  "serving s \<longleftrightarrow> pool_reachable s \<and> \<not> threads_should_join s \<and> (\<forall>k. wk_alive (workers s k))
     \<and> (\<forall>t. PoolJob t \<notin> set (todo s) \<and> Busy (PoolJob t) \<notin> set (threads s))"

lemma serving_ok: "serving s \<Longrightarrow> pool_ok s"
  by (simp add: serving_def pool_reachable_ok)

lemma serving_new: "ThreadPoolScheduler_new n = ret s \<Longrightarrow> n < 2 ^ 31 \<Longrightarrow> serving s"
  using created [of n s] by (auto simp: serving_def ThreadPoolScheduler_new_def rx_check_eq_ret)

lemma pending_new: "ThreadPoolScheduler_new n = ret s \<Longrightarrow> pending k s = []"
  by (auto simp: ThreadPoolScheduler_new_def rx_check_eq_ret pending_def busy_def queued_def)

text \<open>Threads that execute a task go on with it, and no other tasks appear than those of workers.\<close>

definition keeps_busy :: "'t pool \<Rightarrow> 't pool \<Rightarrow> bool" where
  "keeps_busy s s' \<longleftrightarrow> length (threads s') = length (threads s)
     \<and> (\<forall>i job. i < length (threads s) \<longrightarrow> threads s ! i = Busy job \<longrightarrow> threads s' ! i = Busy job)
     \<and> threads_should_join s' = threads_should_join s \<and> (\<forall>k. wk_alive (workers s' k) = wk_alive (workers s k))
     \<and> (\<forall>t. (PoolJob t \<notin> set (todo s) \<and> Busy (PoolJob t) \<notin> set (threads s)) \<longrightarrow>
          PoolJob t \<notin> set (todo s') \<and> Busy (PoolJob t) \<notin> set (threads s'))"

lemma keeps_busy_serving: "keeps_busy s s' \<Longrightarrow> serving s \<Longrightarrow> pool_step s (ret s') \<Longrightarrow> serving s'"
  by (simp add: keeps_busy_def serving_def) (metis stepped)

lemma keeps_busy_refl: "keeps_busy s s"
  by (simp add: keeps_busy_def)

lemma keeps_busy_trans: "keeps_busy s s' \<Longrightarrow> keeps_busy s' s'' \<Longrightarrow> keeps_busy s s''"
  by (simp add: keeps_busy_def)

lemma keeps_busy_set:
  assumes "threads s' = (threads s)[i := t]" and "\<And>job. threads s ! i \<noteq> Busy job"
    and "threads_should_join s' = threads_should_join s" and "\<And>k. wk_alive (workers s' k) = wk_alive (workers s k)"
    and "\<And>u. t = Busy (PoolJob u) \<Longrightarrow> PoolJob u \<in> set (todo s)" and "set (todo s') \<subseteq> set (todo s)"
  shows "keeps_busy s s'"
proof -
  have "x \<in> set (threads s) \<or> x = t" if "x \<in> set ((threads s)[i := t])" for x
    using that set_update_subset_insert [of "threads s" i t] by blast
  then show ?thesis using assms by (auto simp: keeps_busy_def) (metis nth_list_update_neq)+
qed

lemma keeps_busy_schedule: "keeps_busy s (ThreadPoolScheduler_Schedule (WorkerJob k t) i s)"
  by (auto simp: keeps_busy_def ThreadPoolScheduler_Schedule_def signal_one_def nth_list_update
    dest: set_update_subset_insert [THEN subsetD])

lemma keeps_busy_same:
  "threads s' = threads s \<Longrightarrow> todo s' = todo s \<Longrightarrow> threads_should_join s' = threads_should_join s \<Longrightarrow>
    (\<And>k. wk_alive (workers s' k) = wk_alive (workers s k)) \<Longrightarrow> keeps_busy s s'"
  by (simp add: keeps_busy_def)

lemma keeps_busy_MaybeRunNext: "keeps_busy s (MaybeRunNext k i s)"
proof -
  have "keeps_busy s (ThreadPoolScheduler_Schedule (WorkerJob k t) i (s\<lparr>workers := (workers s)(k := (workers s k)\<lparr>wk_steps := ts, wk_running := True\<rparr>)\<rparr>))" for t ts
    by (rule keeps_busy_trans [OF keeps_busy_same keeps_busy_schedule]) simp_all
  then show ?thesis by (simp add: MaybeRunNext_def keeps_busy_refl split: list.split)
qed

lemma take_job_keeps_busy:
  assumes "take_job i s = ret s'" and "\<And>job. threads s ! i \<noteq> Busy job"
  shows "keeps_busy s s'"
proof (cases "todo s")
  case Nil
  then have "s' = s\<lparr>threads := (threads s)[i := (if threads_should_join s then Joined else Waiting)]\<rparr>"
    using assms(1) by (simp add: take_job_def)
  then show ?thesis using assms(2)
    by (intro keeps_busy_set [where i = i and t = "if threads_should_join s then Joined else Waiting"]) (auto split: if_splits)
next
  case (Cons job rest)
  then have "threads s' = (threads s)[i := Busy job]" "todo s' = rest" "threads_should_join s' = threads_should_join s" "workers s' = workers s"
    using assms(1) by (auto simp: take_job_def rx_check_eq_ret)
  then show ?thesis using assms(2) Cons by (intro keeps_busy_set [where i = i and t = "Busy job"]) auto
qed

section \<open>The pending tasks\<close>

lemma pending_same:
  "pool_ok s \<Longrightarrow> pool_ok s' \<Longrightarrow> h_scheduled (hist s' k) = h_scheduled (hist s k) \<Longrightarrow> h_finished (hist s' k) = h_finished (hist s k) \<Longrightarrow>
    pending k s' = pending k s"
  using pool_ok_pending [of s k] pool_ok_pending [of s' k] by simp

lemma step_effect:
  assumes s: "serving s" and step: "pool_step s (ret s')" and k: "keeps_busy s s'"
    and h: "\<And>k. h_scheduled (hist s' k) = h_scheduled (hist s k) \<and> h_finished (hist s' k) = h_finished (hist s k)"
  shows "serving s' \<and> keeps_busy s s' \<and> (\<forall>k. pending k s' = pending k s)"
proof -
  have s': "serving s'" by (rule keeps_busy_serving [OF k s step])
  with s k h pending_same serving_ok show ?thesis by blast
qed

lemma thread_step_effect:
  assumes step: "thread_step s r" and s: "serving s"
  shows "\<exists>s'. r = ret s' \<and> serving s' \<and> keeps_busy s s' \<and> (\<forall>k. pending k s' = pending k s)"
proof -
  obtain s' where s': "r = ret s'" using pool_step_ok [OF thread_step_pool [OF step] serving_ok [OF s]] by blast
  have "keeps_busy s s' \<and> (\<forall>k. h_scheduled (hist s' k) = h_scheduled (hist s k) \<and> h_finished (hist s' k) = h_finished (hist s k))"
    using step s'
  proof cases
    case (thread_enters i)
    let ?s = "s\<lparr>active_count := active_count s - 1\<rparr>"
    from thread_enters have t: "take_job i ?s = ret s'" using s' by (simp add: PerThreadActivity_top_def)
    have "keeps_busy s ?s" by (rule keeps_busy_same) simp_all
    then have "keeps_busy s s'" by (rule keeps_busy_trans) (use take_job_keeps_busy [OF t] thread_enters(3) in simp)
    with take_job_hist [OF t] show ?thesis by simp
  next
    case (thread_wakes i)
    then have t: "take_job i s = ret s'" using s' by simp
    with take_job_keeps_busy [OF t] take_job_hist [OF t] thread_wakes(3) show ?thesis by simp
  next
    case (thread_continues i k j)
    let ?s = "s\<lparr>workers := (workers s)(k := (workers s k)\<lparr>wk_running := False\<rparr>), threads := (threads s)[i := Top]\<rparr>"
    have "wk_alive (workers s k)" using s by (simp add: serving_def)
    then have s'': "s' = MaybeRunNext k j ?s" using thread_continues(1) s' by (simp add: worker_continues_def)
    have "keeps_busy s ?s" by (rule keeps_busy_set [where i = i and t = Top]) (simp_all add: thread_continues)
    then show ?thesis unfolding s'' by (simp add: keeps_busy_trans [OF _ keeps_busy_MaybeRunNext])
  qed
  then show ?thesis using step_effect [OF s] thread_step_pool [OF step] s' by simp
qed

lemma thread_woken_effect:
  assumes step: "thread_woken s s'" and s: "serving s"
  shows "serving s' \<and> keeps_busy s s' \<and> (\<forall>k. pending k s' = pending k s)"
proof (rule step_effect [OF s thread_woken_pool [OF step]])
  obtain i where i: "threads s ! i = Waiting" "s' = s\<lparr>threads := (threads s)[i := Woken]\<rparr>" using step by (auto elim: thread_woken.cases)
  then show "keeps_busy s s'" by (intro keeps_busy_set [where i = i and t = Woken]) simp_all
  show "h_scheduled (hist s' k) = h_scheduled (hist s k) \<and> h_finished (hist s' k) = h_finished (hist s k)" for k by (simp add: i(2))
qed

lemma schedule_effect:
  assumes s: "serving s" and i: "may_wake i s"
  shows "serving (WorkerImpl_Schedule k t i s) \<and> keeps_busy s (WorkerImpl_Schedule k t i s)
    \<and> pending k' (WorkerImpl_Schedule k t i s) = pending k' s @ (if k = k' then [t] else [])"
proof -
  let ?s = "WorkerImpl_Schedule k t i s"
  have k: "keeps_busy s ?s"
    unfolding WorkerImpl_Schedule_def by (rule keeps_busy_trans [OF keeps_busy_same keeps_busy_MaybeRunNext]) simp_all
  have s': "serving ?s" by (rule keeps_busy_serving [OF k s]) (use s i in \<open>auto simp: serving_def intro: schedule_on_worker\<close>)
  have "h_scheduled (hist ?s k') = h_scheduled (hist s k') @ (if k = k' then [t] else [])"
    "h_finished (hist ?s k') = h_finished (hist s k')"
    by (simp_all add: WorkerImpl_Schedule_def)
  then have "pending k' ?s = pending k' s @ (if k = k' then [t] else [])"
    using pool_ok_pending [OF serving_ok [OF s], of k'] pool_ok_pending [OF serving_ok [OF s'], of k'] by simp
  with k s' show ?thesis by blast
qed

lemma schedules_effect:
  assumes "schedules ts s s'" and "serving s"
  shows "serving s' \<and> keeps_busy s s' \<and> (\<forall>k. pending k s' = pending k s @ map snd (filter (\<lambda>(k', t). k' = k) ts))"
  using assms
proof (induction rule: schedules.induct)
  case (schedules_none s)
  then show ?case by (simp add: keeps_busy_refl)
next
  case (schedules_more i s ts k t s')
  from schedule_effect [OF schedules_more.prems schedules_more.hyps(1), of k t] schedules_more.IH show ?case
    by (auto intro: keeps_busy_trans)
qed

lemma task_returns_effect:
  assumes s: "serving s" and i: "i < length (threads s)" "threads s ! i = Busy (WorkerJob k t)"
  shows "serving (task_returns i s)" and "pending k s = t # pending k (task_returns i s)"
    and "k' \<noteq> k \<Longrightarrow> pending k' (task_returns i s) = pending k' s"
    and "threads (task_returns i s) = (threads s)[i := After k]" and "todo (task_returns i s) = todo s"
proof -
  let ?s = "task_returns i s"
  have t: "?s = s\<lparr>threads := (threads s)[i := After k],
      hist := (hist s)(k := (hist s k)\<lparr>h_finished := h_finished (hist s k) @ [t]\<rparr>)\<rparr>"
    using i by (simp add: task_returns_def)
  show "threads ?s = (threads s)[i := After k]" "todo ?s = todo s" by (simp_all add: t)
  have "pool_reachable ?s" using s i by (auto simp: serving_def intro: stepped task_end)
  then show s': "serving ?s" using s by (auto simp: serving_def t dest: set_update_subset_insert [THEN subsetD])
  have "h_scheduled (hist ?s k) = h_scheduled (hist s k)" "h_finished (hist ?s k) = h_finished (hist s k) @ [t]"
    by (simp_all add: t)
  then show "pending k s = t # pending k ?s"
    using pool_ok_pending [OF serving_ok [OF s], of k] pool_ok_pending [OF serving_ok [OF s'], of k] by simp
  show "pending k' ?s = pending k' s" if "k' \<noteq> k"
    using that by (intro pending_same serving_ok s s') (simp_all add: t)
qed

text \<open>Two threads never execute tasks of the same worker, and an idle pool has nothing pending.\<close>

lemma one_thread:
  assumes "serving s" and "i < length (threads s)" "threads s ! i = Busy (WorkerJob k t)"
    and "j < length (threads s)" "threads s ! j = Busy (WorkerJob k u)"
  shows "i = j"
proof (rule ccontr)
  assume "i \<noteq> j"
  let ?s = "s\<lparr>threads := (threads s)[i := Waiting]\<rparr>"
  have "worker_ok k s" using serving_ok [OF assms(1)] by (simp add: pool_ok_def)
  then have "length (busy k s) \<le> 1" by (auto simp: worker_ok_def split: if_splits)
  then have "busy k ?s = []" using busy_update(3) [OF assms(2), of k t Waiting] assms(3) by simp
  then have "busy_of k (threads ?s ! j) = []" by (intro busy_update(4)) (simp_all add: assms(4))
  then show False using assms(5) \<open>i \<noteq> j\<close> by simp
qed

lemma idle_inactive: "pool_ok s \<Longrightarrow> IdleCondition s \<Longrightarrow> t \<in> set (threads s) \<Longrightarrow> \<not> is_active t"
  by (simp add: pool_ok_def threads_ok_def IdleCondition_def actives_def filter_empty_conv)

lemma idle_pending:
  assumes "pool_ok s" and "IdleCondition s"
  shows "pending k s = []"
proof -
  have "worker_ok k s" using assms(1) by (simp add: pool_ok_def)
  have "busy_of k t = []" "t \<noteq> After k" if "t \<in> set (threads s)" for t
    using idle_inactive [OF assms that] by (cases t; simp)+
  then have "busy k s = []" "finishing k s = 0" by (auto simp: busy_def finishing_def filter_empty_conv)
  moreover have "queued k s = []" using assms(2) by (simp add: queued_def IdleCondition_def)
  ultimately show ?thesis using \<open>worker_ok k s\<close> by (auto simp: worker_ok_def pending_def split: if_splits)
qed

section \<open>The threads settle down\<close>

text \<open>How much the threads still have to do until they wait or execute a task.\<close>

fun thread_weight :: "'t thread \<Rightarrow> nat" where
  "thread_weight Top = 2"
| "thread_weight Woken = 1"
| "thread_weight (After _) = 5"
| "thread_weight _ = 0"

definition pool_weight :: "'t pool \<Rightarrow> nat" where
  "pool_weight s = sum_list (map thread_weight (threads s)) + length (todo s)"

lemma weight_update:
  "i < length ts \<Longrightarrow> sum_list (map thread_weight (ts[i := t])) + thread_weight (ts ! i) = sum_list (map thread_weight ts) + thread_weight t"
proof (induction ts arbitrary: i)
  case (Cons u ts)
  then show ?case by (cases i) auto
qed simp

lemma signal_weight: "pool_weight (signal_one j s) \<le> pool_weight s + 1"
  using weight_update [of j "threads s" Woken] by (auto simp: signal_one_def pool_weight_def)

lemma Schedule_weight: "pool_weight (ThreadPoolScheduler_Schedule job j s) \<le> pool_weight s + 2"
  using signal_weight [of j "s\<lparr>todo := todo s @ [job]\<rparr>"] by (simp add: ThreadPoolScheduler_Schedule_def pool_weight_def)

lemma MaybeRunNext_weight: "pool_weight (MaybeRunNext k j s) \<le> pool_weight s + 2"
proof -
  have "pool_weight (ThreadPoolScheduler_Schedule job j (s\<lparr>workers := ws\<rparr>)) \<le> pool_weight s + 2" for job ws
    using Schedule_weight [of job j "s\<lparr>workers := ws\<rparr>"] by (simp add: pool_weight_def)
  then show ?thesis by (simp add: MaybeRunNext_def split: list.split)
qed

lemma take_job_weight:
  assumes "take_job i s = ret s'" and "i < length (threads s)" and "\<not> threads_should_join s"
  shows "pool_weight s' + thread_weight (threads s ! i) \<le> pool_weight s"
proof (cases "todo s")
  case Nil
  then show ?thesis using assms weight_update [OF assms(2), of Waiting] by (auto simp: take_job_def pool_weight_def)
next
  case (Cons job rest)
  then show ?thesis using assms weight_update [OF assms(2), of "Busy job"] by (auto simp: take_job_def pool_weight_def)
qed

lemma thread_step_weight:
  assumes step: "thread_step s (ret s')" and s: "serving s"
  shows "pool_weight s' < pool_weight s"
  using step
proof cases
  case (thread_enters i)
  then show ?thesis using take_job_weight [of i "s\<lparr>active_count := active_count s - 1\<rparr>" s'] s
    by (simp add: PerThreadActivity_top_def serving_def pool_weight_def)
next
  case (thread_wakes i)
  then show ?thesis using take_job_weight [of i s s'] s by (simp add: serving_def)
next
  case (thread_continues i k j)
  let ?s = "s\<lparr>workers := (workers s)(k := (workers s k)\<lparr>wk_running := False\<rparr>), threads := (threads s)[i := Top]\<rparr>"
  have "wk_alive (workers s k)" using s by (simp add: serving_def)
  then have "s' = MaybeRunNext k j ?s" using thread_continues(1) by (simp add: worker_continues_def)
  then show ?thesis using MaybeRunNext_weight [of k j ?s] weight_update [of i "threads s" Top] thread_continues by (simp add: pool_weight_def)
qed

text \<open>A pool that is not idle has something to do.\<close>

lemma serving_progress:
  assumes s: "serving s" and "\<not> IdleCondition s"
  shows "(\<exists>r. thread_step s r) \<or> (\<exists>i k t. i < length (threads s) \<and> threads s ! i = Busy (WorkerJob k t))"
proof -
  have ok: "threads_ok s" and kept: "threads s \<noteq> []" "Joined \<notin> set (threads s)"
    using serving_ok [OF s] pool_reachable_kept [of s] s by (auto simp: pool_ok_def threads_kept_def serving_def)
  have "\<exists>i < length (threads s). threads s ! i \<noteq> Waiting"
  proof (rule ccontr)
    assume "\<not> ?thesis"
    then have w: "t = Waiting" if "t \<in> set (threads s)" for t using that by (auto simp: in_set_conv_nth)
    have "\<not> can_take t \<and> \<not> is_active t" if "t \<in> set (threads s)" for t using w [OF that] by simp
    then have "takers s = 0" "actives s = 0" by (simp_all add: takers_def actives_def filter_empty_conv)
    moreover have "Waiting \<in> set (threads s)" using w kept(1) by (cases "threads s") auto
    ultimately show False using ok assms(2) by (simp add: threads_ok_def IdleCondition_def unat_eq_0)
  qed
  then obtain i where i: "i < length (threads s)" "threads s ! i \<noteq> Waiting" by blast
  show ?thesis
  proof (cases "threads s ! i")
    case (Busy job)
    moreover from this i(1) s have "job \<noteq> PoolJob t" for t using nth_mem [OF i(1)] by (auto simp: serving_def)
    ultimately show ?thesis using i(1) by (cases job) auto
  next
    case (After k)
    then show ?thesis using i(1) some_may_wake thread_continues by blast
  qed (use i kept(2) nth_mem [OF i(1)] in \<open>auto intro: thread_enters thread_wakes\<close>)
qed

end
