(* ===== verification/Async_On_Pool.thy ===== *)
theory Async_On_Pool
  imports Concurrency Serving_Pool
begin

text \<open>
  Asynchronous pipelines on the thread pool: the threads of the pool execute the tasks of the streams
  as the bodies of the workers' jobs, while a client subscribes and finally waits until the scheduler
  is idle. The queues of the machine are what the workers still have to execute. A body is one step,
  in which it also makes its calls of \<open>Worker::Schedule\<close>; any steps of other threads come
  before it, between it and the end of its job, and after.
\<close>

section \<open>The system\<close>

text \<open>
  The state: what the client has still to subscribe to, the pool, the world, and the threads whose
  task has been executed and has not yet returned.
\<close>

record ('v, 'u) system =
  orders :: "(('v, 'u) publisher \<times> ('v event \<Rightarrow> 'u \<Rightarrow> 'u)) list"
  the_pool :: "('v, 'u) task pool"
  the_world :: "('v, 'u) world"
  executed :: "nat set"

text \<open>A task of worker \<open>k\<close> is taken from its queue and run.\<close>

definition taken :: "worker_id \<Rightarrow> ('v, 'u) world \<Rightarrow> ('v, 'u) world" where
  "taken k w = w\<lparr>queues := (queues w)(k := tl (queues w k))\<rparr>"

inductive system_works :: "('v, 'u) system \<Rightarrow> ('v, 'u) system res \<Rightarrow> bool" where
  pool_works: "thread_step (the_pool c) r \<Longrightarrow> system_works c (bnd r (\<lambda>s. ret (c\<lparr>the_pool := s\<rparr>)))"
| task_executes: "i < length (threads (the_pool c)) \<Longrightarrow> threads (the_pool c) ! i = Busy (WorkerJob k t) \<Longrightarrow> i \<notin> executed c \<Longrightarrow>
    run_task exec t (taken k (the_world c)) = ret w \<Longrightarrow> appended ts (taken k (the_world c)) w \<Longrightarrow> schedules ts (the_pool c) s \<Longrightarrow>
    system_works c (ret (c\<lparr>the_pool := s, the_world := w, executed := insert i (executed c)\<rparr>))"
| task_fails: "i < length (threads (the_pool c)) \<Longrightarrow> threads (the_pool c) ! i = Busy (WorkerJob k t) \<Longrightarrow> i \<notin> executed c \<Longrightarrow>
    \<not> returns (run_task exec t (taken k (the_world c))) \<Longrightarrow>
    system_works c (bnd (run_task exec t (taken k (the_world c))) (\<lambda>_. ret c))"
| task_over: "i \<in> executed c \<Longrightarrow>
    system_works c (ret (c\<lparr>the_pool := task_returns i (the_pool c), executed := executed c - {i}\<rparr>))"
| client_orders: "orders c = (p, f) # js \<Longrightarrow> Publisher_Subscribe_flow_control exec p f (the_world c) = ret w \<Longrightarrow>
    appended ts (the_world c) w \<Longrightarrow> schedules ts (the_pool c) s \<Longrightarrow>
    system_works c (ret (c\<lparr>orders := js, the_pool := s, the_world := w\<rparr>))"
| client_fails: "orders c = (p, f) # js \<Longrightarrow> \<not> returns (Publisher_Subscribe_flow_control exec p f (the_world c)) \<Longrightarrow>
    system_works c (bnd (Publisher_Subscribe_flow_control exec p f (the_world c)) (\<lambda>_. ret c))"

text \<open>Besides, waiting threads may wake up for nothing at any time.\<close>

inductive system_steps :: "('v, 'u) system \<Rightarrow> ('v, 'u) system res \<Rightarrow> bool" where
  system_starts: "system_steps c (ret c)"
| system_goes: "system_steps c (ret c') \<Longrightarrow> system_works c' r \<Longrightarrow> system_steps c r"
| system_wakes: "system_steps c (ret c') \<Longrightarrow> thread_woken (the_pool c') s \<Longrightarrow> system_steps c (ret (c'\<lparr>the_pool := s\<rparr>))"

section \<open>The system and its abstraction\<close>

text \<open>
  The queues of the machine are the pending tasks of the workers, without those that have been executed
  and have not yet returned.
\<close>

definition executed_on :: "worker_id \<Rightarrow> ('v, 'u) system \<Rightarrow> bool" where
  "executed_on k c \<longleftrightarrow> (\<exists>i\<in>executed c. \<exists>t. threads (the_pool c) ! i = Busy (WorkerJob k t))"

definition corresponds :: "('v, 'u) system \<Rightarrow> bool" where
  "corresponds c \<longleftrightarrow> serving (the_pool c)
     \<and> (\<forall>i\<in>executed c. i < length (threads (the_pool c)) \<and> (\<exists>k t. threads (the_pool c) ! i = Busy (WorkerJob k t)))
     \<and> (\<forall>k. queues (the_world c) k = (if executed_on k c then tl (pending k (the_pool c)) else pending k (the_pool c)))"

lemma executed_busy:
  assumes "corresponds c" and "keeps_busy (the_pool c) s"
  shows "\<forall>i\<in>executed c. i < length (threads s) \<and> threads s ! i = threads (the_pool c) ! i
    \<and> (\<exists>k t. threads (the_pool c) ! i = Busy (WorkerJob k t))"
  using assms by (fastforce simp: corresponds_def keeps_busy_def)

lemma corresponds_pool:
  assumes c: "corresponds c" and s: "serving s" "keeps_busy (the_pool c) s"
    and q: "\<And>k. pending k s = pending k (the_pool c) @ tasks_for k ts"
      "\<And>k. queues w k = queues (the_world c) k @ tasks_for k ts"
  shows "corresponds (c\<lparr>orders := js, the_pool := s, the_world := w\<rparr>)"
proof -
  let ?c = "c\<lparr>orders := js, the_pool := s, the_world := w\<rparr>"
  note i = executed_busy [OF c s(2)]
  have e: "executed_on k ?c = executed_on k c" for k using i by (auto simp: executed_on_def)
  have "pending k (the_pool c) \<noteq> []" if "executed_on k c" for k
    using that c task_returns_effect(2) [of "the_pool c"] by (fastforce simp: executed_on_def corresponds_def)
  then show ?thesis using c s(1) i q unfolding corresponds_def e by auto
qed

lemma schedules_corresponds:
  assumes c: "corresponds c" and ts: "appended ts (the_world c) w" "schedules ts (the_pool c) s"
  shows "corresponds (c\<lparr>orders := js, the_pool := s, the_world := w\<rparr>)"
proof -
  have "serving (the_pool c)" using c by (simp add: corresponds_def)
  from schedules_effect [OF ts(2) this] ts(1) show ?thesis by (intro corresponds_pool [OF c]) (simp_all add: appended_def tasks_for_def)
qed

lemma moves_corresponds:
  assumes c: "corresponds c" and s: "serving s \<and> keeps_busy (the_pool c) s \<and> (\<forall>k. pending k s = pending k (the_pool c))"
  shows "corresponds (c\<lparr>the_pool := s\<rparr>)"
proof -
  have "corresponds (c\<lparr>orders := orders c, the_pool := s, the_world := the_world c\<rparr>)"
    by (rule corresponds_pool [OF c, of s "[]"]) (simp_all add: s tasks_for_def)
  then show ?thesis by simp
qed

text \<open>A thread executes a task: the oldest one in the queue of its worker.\<close>

lemma executes_corresponds:
  assumes c: "corresponds c" and i: "i < length (threads (the_pool c))" "threads (the_pool c) ! i = Busy (WorkerJob k t)" "i \<notin> executed c"
  shows "\<exists>ts. queues (the_world c) k = t # ts"
    and "corresponds (c\<lparr>the_world := taken k (the_world c),
      executed := insert i (executed c)\<rparr>)"
proof -
  have s: "serving (the_pool c)" using c by (simp add: corresponds_def)
  have "\<not> executed_on k c"
  proof
    assume "executed_on k c"
    then obtain j u where j: "j \<in> executed c" "threads (the_pool c) ! j = Busy (WorkerJob k u)" by (auto simp: executed_on_def)
    then have "j < length (threads (the_pool c))" using c by (simp add: corresponds_def)
    with one_thread [OF s i(1,2) this j(2)] j(1) i(3) show False by simp
  qed
  then have q: "queues (the_world c) k = pending k (the_pool c)" using c by (simp add: corresponds_def)
  then show "\<exists>ts. queues (the_world c) k = t # ts" using task_returns_effect(2) [OF s i(1,2)] by simp
  let ?c = "c\<lparr>the_world := taken k (the_world c),
      executed := insert i (executed c)\<rparr>"
  have "executed_on k' ?c = (k' = k \<or> executed_on k' c)" for k' using i(2) by (auto simp: executed_on_def)
  then show "corresponds ?c" using c q i by (simp add: corresponds_def taken_def)
qed

lemma returns_corresponds:
  assumes c: "corresponds c" and i: "i \<in> executed c"
  shows "corresponds (c\<lparr>the_pool := task_returns i (the_pool c), executed := executed c - {i}\<rparr>)"
proof -
  let ?s = "the_pool c"
  let ?c = "c\<lparr>the_pool := task_returns i ?s, executed := executed c - {i}\<rparr>"
  have s: "serving ?s" using c by (simp add: corresponds_def)
  obtain k t where k: "i < length (threads ?s)" "threads ?s ! i = Busy (WorkerJob k t)" using c i by (auto simp: corresponds_def)
  note effect = task_returns_effect [OF s k]
  have "executed_on k c" using i k(2) by (auto simp: executed_on_def)
  moreover have "\<not> executed_on k ?c"
  proof
    assume "executed_on k ?c"
    then obtain j u where j: "j \<in> executed c" "j \<noteq> i" "threads ?s ! j = Busy (WorkerJob k u)" by (auto simp: executed_on_def effect(4))
    then have "j < length (threads ?s)" using c by (simp add: corresponds_def)
    with one_thread [OF s k] j show False by blast
  qed
  moreover have "executed_on k' ?c = executed_on k' c" if "k' \<noteq> k" for k'
  proof -
    have "threads (task_returns i ?s) ! j = Busy (WorkerJob k' u) \<longleftrightarrow> j \<noteq> i \<and> threads ?s ! j = Busy (WorkerJob k' u)" for j u
      using k(1) by (cases "j = i") (simp_all add: effect(4))
    then have e: "executed_on k' ?c \<longleftrightarrow> (\<exists>j\<in>executed c. \<exists>u. j \<noteq> i \<and> threads ?s ! j = Busy (WorkerJob k' u))"
      by (simp add: executed_on_def) blast
    have "threads ?s ! i \<noteq> Busy (WorkerJob k' u)" for u using that k(2) by simp
    then show ?thesis unfolding e unfolding executed_on_def by (intro bex_cong ex_cong1 refl) auto
  qed
  ultimately have "queues (the_world ?c) k' = (if executed_on k' ?c then tl (pending k' (the_pool ?c)) else pending k' (the_pool ?c))" for k'
    using c effect(2,3) by (cases "k' = k") (simp_all add: corresponds_def)
  moreover have "\<forall>j\<in>executed ?c. j < length (threads (the_pool ?c)) \<and> (\<exists>k t. threads (the_pool ?c) ! j = Busy (WorkerJob k t))"
    using c by (simp add: corresponds_def effect(4))
  ultimately show ?thesis using effect(1) by (simp add: corresponds_def)
qed

section \<open>What the system does\<close>

definition system_weight :: "('v, 'u) system \<Rightarrow> nat" where
  "system_weight c = pool_weight (the_pool c) + 6 * card (executed c)"

abbreviation client_view :: "('v, 'u) system \<Rightarrow> ('v, 'u) client" where
  "client_view c \<equiv> (orders c, the_world c)"

lemma task_over_weight:
  assumes c: "corresponds c" and i: "i \<in> executed c"
  shows "system_weight (c\<lparr>the_pool := task_returns i (the_pool c), executed := executed c - {i}\<rparr>) < system_weight c"
proof -
  let ?s = "the_pool c"
  obtain k t where k: "i < length (threads ?s)" "threads ?s ! i = Busy (WorkerJob k t)" using c i by (auto simp: corresponds_def)
  have "serving ?s" using c by (simp add: corresponds_def)
  note effect = task_returns_effect(4,5) [OF this k]
  have "executed c \<subseteq> {..<length (threads ?s)}" using c by (auto simp: corresponds_def)
  then have "card (executed c) = Suc (card (executed c - {i}))"
    using i by (intro card.remove [symmetric, THEN sym]) (auto intro: finite_subset)
  then show ?thesis using weight_update [OF k(1), of "After k"] k(2) by (simp add: system_weight_def pool_weight_def effect)
qed

text \<open>Each step of the system is one of the machine, or leaves the machine as it is and comes nearer to it.\<close>

lemma system_works_step:
  assumes works: "system_works c r" and c: "corresponds c" and run: "running w0 xs ss (client_view c)" and wf0: "wf_world w0"
  shows "\<exists>c'. r = ret c' \<and> corresponds c'
    \<and> (client_view c' = client_view c \<and> system_weight c' < system_weight c \<or> concurrent_step (client_view c) (ret (client_view c')))"
  using works
proof cases
  case (pool_works r')
  have s: "serving (the_pool c)" using c by (simp add: corresponds_def)
  from thread_step_effect [OF pool_works(2) this] obtain s where s': "r' = ret s"
    "serving s \<and> keeps_busy (the_pool c) s \<and> (\<forall>k. pending k s = pending k (the_pool c))" by blast
  moreover have "pool_weight s < pool_weight (the_pool c)" using thread_step_weight [OF _ s] pool_works(2) s'(1) by simp
  ultimately show ?thesis using moves_corresponds [OF c s'(2)] pool_works(1) by (simp add: system_weight_def)
next
  case (task_executes i k t w ts s)
  note e = executes_corresponds [OF c task_executes(2-4)]
  have "concurrent_step (client_view c) (bnd (run_task exec t (taken k (the_world c))) (\<lambda>w. ret (orders c, w)))"
    using e(1) oldest_task [of "the_world c" k t] by (auto simp: taken_def simp del: run_task.simps intro: worker_runs)
  moreover have eq: "c\<lparr>the_pool := s, the_world := w, executed := insert i (executed c)\<rparr>
      = c\<lparr>the_world := taken k (the_world c), executed := insert i (executed c)\<rparr>
          \<lparr>orders := orders c, the_pool := s, the_world := w\<rparr>" by (cases c) simp
  have "corresponds (c\<lparr>the_pool := s, the_world := w, executed := insert i (executed c)\<rparr>)"
    unfolding eq by (intro schedules_corresponds [OF e(2), of ts]) (simp_all add: task_executes(6,7))
  ultimately show ?thesis using task_executes(1,5) by simp
next
  case (task_fails i k t)
  note ex = executes_corresponds(1) [OF c task_fails(2-4)]
  then have "concurrent_step (client_view c) (bnd (run_task exec t (taken k (the_world c))) (\<lambda>w. ret (orders c, w)))"
    using oldest_task [of "the_world c" k t] by (auto simp: taken_def simp del: run_task.simps intro: worker_runs)
  from running_step [OF run this wf0] have "returns (run_task exec t (taken k (the_world c)))"
    by (auto simp: bnd_eq_ret simp del: run_task.simps)
  then show ?thesis using task_fails(5) by simp
next
  case (task_over i)
  then show ?thesis using returns_corresponds [OF c] task_over_weight [OF c] by simp
next
  case (client_orders p f js w ts s)
  then have "concurrent_step (client_view c) (ret (js, w))" using client_subscribes [of p f js "the_world c"] by simp
  moreover have "corresponds (c\<lparr>orders := js, the_pool := s, the_world := w\<rparr>)"
    by (rule schedules_corresponds [OF c client_orders(4,5)])
  ultimately show ?thesis using client_orders(1) by simp
next
  case (client_fails p f js)
  then have "running w0 xs ss ((p, f) # js, the_world c)" using run by simp
  from running_subscribes [OF this] client_fails(3) show ?thesis by auto
qed

lemma system_works_progress:
  assumes c: "corresponds c" and run: "running w0 xs ss (client_view c)" and wf0: "wf_world w0"
    and "\<not> (orders c = [] \<and> IdleCondition (the_pool c))"
  shows "\<exists>r. system_works c r"
proof (cases "orders c")
  case (Cons pf js)
  obtain p f where o: "orders c = (p, f) # js" using Cons by (cases pf) simp
  from running_subscribes [of w0 xs ss p f js "the_world c"] run obtain w us where
    "Publisher_Subscribe_flow_control exec p f (the_world c) = ret w" "appended us (the_world c) w"
    by (auto simp: o)
  then show ?thesis using client_orders [OF o] schedules_exists by blast
next
  case Nil
  have s: "serving (the_pool c)" using c by (simp add: corresponds_def)
  have "\<not> IdleCondition (the_pool c)" using assms(4) Nil by simp
  from serving_progress [OF s this] consider r where "thread_step (the_pool c) r"
    | i k t where "i < length (threads (the_pool c))" "threads (the_pool c) ! i = Busy (WorkerJob k t)" by blast
  then show ?thesis
  proof cases
    case 1
    then show ?thesis using pool_works by blast
  next
    case (2 i k t)
    show ?thesis
    proof (cases "i \<in> executed c")
      case True
      then show ?thesis using task_over by blast
    next
      case False
      from executes_corresponds(1) [OF c 2 this] obtain ts where q: "queues (the_world c) k = t # ts" by blast
      from running_executes [OF run wf0 q] obtain w us where
        "run_task exec t (taken k (the_world c)) = ret w" "appended us (taken k (the_world c)) w"
        by (auto simp: taken_def q simp del: run_task.simps)
      then show ?thesis using task_executes [OF 2 False] schedules_exists by blast
    qed
  qed
qed

lemma system_works_terminates:
  assumes "corresponds c" and "running w0 xs ss (client_view c)" and wf0: "wf_world w0"
  shows "Wellfounded.accp (\<lambda>c2 c1. system_works c1 (ret c2)) c"
  using assms(1,2)
proof (induction "(distance xs ss, system_weight c)" arbitrary: xs ss c
    rule: wf_induct_rule [OF wf_lex_prod [OF wf_distance wf_less_than]])
  case 1
  show ?case
  proof (rule accpI)
    fix c2 assume w: "system_works c (ret c2)"
    from system_works_step [OF w 1(2,3) wf0] have c2: "corresponds c2"
      and cases: "client_view c2 = client_view c \<and> system_weight c2 < system_weight c
        \<or> concurrent_step (client_view c) (ret (client_view c2))" by auto
    from cases show "Wellfounded.accp (\<lambda>c2 c1. system_works c1 (ret c2)) c2"
    proof (elim disjE)
      assume "client_view c2 = client_view c \<and> system_weight c2 < system_weight c"
      then show ?thesis using 1(1) [of xs ss c2] c2 1(3) by simp
    next
      assume "concurrent_step (client_view c) (ret (client_view c2))"
      from running_step [OF 1(3) this wf0] obtain xs' ss' where
        "running w0 xs' ss' (client_view c2)" "(distance xs' ss', distance xs ss) \<in> mult distance_order" by auto
      then show ?thesis using 1(1) [of xs' ss' c2] c2 by simp
    qed
  qed
qed

text \<open>Every run of the system is one of the machine.\<close>

lemma concurrent_steps_snoc:
  "concurrent_steps s r1 \<Longrightarrow> r1 = ret s1 \<Longrightarrow> concurrent_step s1 r \<Longrightarrow> concurrent_steps s r"
proof (induction rule: concurrent_steps.induct)
  case (no_more s)
  then have step: "concurrent_step s r" by simp
  show ?case
  proof (cases "returns r")
    case True
    then obtain s' where r: "r = ret s'" by (auto simp: returns_iff)
    show ?thesis unfolding r by (rule one_more [OF step [unfolded r] concurrent_steps.no_more])
  next
    case False
    show ?thesis by (rule one_fails [OF step False])
  qed
next
  case (one_more s s' r)
  then show ?case by (blast intro: concurrent_steps.one_more)
next
  case (one_fails s r)
  then show ?case by simp
qed

lemma system_steps_simulated:
  assumes "system_steps c0 r" and c0: "corresponds c0" and run: "running w xs ss (client_view c0)" and wf: "wf_world w"
  shows "\<exists>c. r = ret c \<and> corresponds c \<and> concurrent_steps (client_view c0) (ret (client_view c))"
  using assms(1,2,3)
proof (induction rule: system_steps.induct)
  case (system_starts c)
  then show ?case by (auto intro: concurrent_steps.no_more)
next
  case (system_goes c c' r)
  from system_goes.IH [OF system_goes.prems] have c': "corresponds c'" "concurrent_steps (client_view c) (ret (client_view c'))" by auto
  from running_steps [OF c'(2) system_goes.prems(2) wf] obtain xs' ss' where "running w xs' ss' (client_view c')" by auto
  from system_works_step [OF system_goes.hyps(2) c'(1) this wf] obtain c2 where c2: "r = ret c2" "corresponds c2"
    and cases: "client_view c2 = client_view c' \<or> concurrent_step (client_view c') (ret (client_view c2))" by blast
  from cases have "concurrent_steps (client_view c) (ret (client_view c2))"
    using c'(2) concurrent_steps_snoc [OF c'(2) refl] by (elim disjE) simp_all
  then show ?case using c2 by blast
next
  case (system_wakes c c' s)
  from system_wakes.IH [OF system_wakes.prems] have c': "corresponds c'" "concurrent_steps (client_view c) (ret (client_view c'))" by auto
  have "serving (the_pool c')" using c'(1) by (simp add: corresponds_def)
  from moves_corresponds [OF c'(1) thread_woken_effect [OF system_wakes.hyps(2) this]] c'(2) show ?case by simp
qed

section \<open>Subscribing and waiting until the scheduler is idle\<close>

definition new_system :: "('v, 'u) order list \<Rightarrow> ('v, 'u) task pool \<Rightarrow> ('v, 'u) world \<Rightarrow> ('v, 'u) system" where
  "new_system ss s w = \<lparr>orders = ordered ss, the_pool = s, the_world = w, executed = {}\<rparr>"

text \<open>All subscriptions are made, and \<open>WaitUntilIdle\<close> returns.\<close>

definition finished :: "('v, 'u) system \<Rightarrow> bool" where
  "finished c \<longleftrightarrow> orders c = [] \<and> IdleCondition (the_pool c)"

lemma new_system_corresponds:
  "ThreadPoolScheduler_new n = ret s \<Longrightarrow> n < 2 ^ 31 \<Longrightarrow> queues w = (\<lambda>_. []) \<Longrightarrow> corresponds (new_system ss s w)"
  using serving_new [of n s] pending_new [of n s] by (simp add: corresponds_def new_system_def executed_on_def)

lemma finished_over: "corresponds c \<Longrightarrow> finished c \<Longrightarrow> over (client_view c)"
  using idle_pending [of "the_pool c"] serving_ok [of "the_pool c"]
  by (auto simp: corresponds_def finished_def over_def fun_eq_iff)

lemma system_reached:
  assumes "system_steps c0 r" and "corresponds c0" and "running w xs ss (client_view c0)" and "wf_world w"
  obtains c xs' ss' where "r = ret c" and "corresponds c" and "running w xs' ss' (client_view c)"
    and "concurrent_steps (client_view c0) (ret (client_view c))"
  using system_steps_simulated [OF assms] running_steps [OF _ assms(3,4)] by (metis ret_inject)

lemma system_finishes:
  assumes "Wellfounded.accp (\<lambda>c2 c1. system_works c1 (ret c2)) c" and "system_steps c0 (ret c)"
    and "corresponds c0" and "running w xs ss (client_view c0)" and "wf_world w"
  shows "\<exists>c. system_steps c0 (ret c) \<and> finished c"
  using assms(1,2)
proof (induction rule: Wellfounded.accp.induct)
  case (accI c)
  obtain xs' ss' where c: "corresponds c" "running w xs' ss' (client_view c)"
    using system_reached [OF accI.prems assms(3-5)] by (metis ret_inject)
  show ?case
  proof (cases "finished c")
    case True
    then show ?thesis using accI.prems by blast
  next
    case False
    then obtain r where r: "system_works c r" using system_works_progress [OF c assms(5)] by (auto simp: finished_def)
    then obtain c' where "r = ret c'" using system_works_step [OF r c assms(5)] by blast
    then show ?thesis using accI.IH [of c'] r system_goes [OF accI.prems] by blast
  qed
qed

text \<open>
  C3: asynchronous pipelines on the thread pool of the library, with any number of threads: while a
  client subscribes to pipelines and then waits, whatever the threads do and however often they wake up
  for nothing, no check of the streams or of the scheduler fails, no freed object is used, and without
  further such wake-ups everything comes to an end; it ends nowhere but where \<open>WaitUntilIdle\<close>
  returns, and whenever that returns, each subscriber has received every value of its pipeline in order
  and its terminal status once, and every object is freed.
\<close>

theorem thread_pool_delivers:
  fixes w :: "('v, 'u) world"
  assumes "ThreadPoolScheduler_new n = ret s" and "n < 2 ^ 31" and "\<forall>(p, f, vs, t)\<in>set ss. arrives p vs t"
    and "wf_world w" and "queues w = (\<lambda>_. [])"
  shows "(\<exists>c. system_steps (new_system ss s w) (ret c) \<and> finished c)
    \<and> (\<forall>r. system_steps (new_system ss s w) r \<longrightarrow> (\<exists>c. r = ret c
        \<and> Wellfounded.accp (\<lambda>c2 c1. system_works c1 (ret c2)) c
        \<and> (finished c \<or> (\<exists>r'. system_works c r'))
        \<and> (finished c \<longrightarrow> (\<exists>gs. interleaving (mset (actions ss)) gs \<and> user (the_world c) = run_all gs (user w))
             \<and> heap (the_world c) = heap w \<and> refs (the_world c) = refs w \<and> impl (the_world c) = impl w)))"
proof -
  let ?c0 = "new_system ss s w"
  have view: "client_view ?c0 = (ordered ss, w)" by (simp add: new_system_def)
  have c0: "corresponds ?c0" by (rule new_system_corresponds [OF assms(1,2,5)])
  have run: "running w [] ss (client_view ?c0)" unfolding view by (rule running_start [OF assms(4,5,3)])
  have "\<exists>c. system_steps ?c0 (ret c) \<and> finished c"
    by (rule system_finishes [OF system_works_terminates [OF c0 run assms(4)] system_starts c0 run assms(4)])
  moreover have "\<exists>c. r = ret c \<and> Wellfounded.accp (\<lambda>c2 c1. system_works c1 (ret c2)) c \<and> (finished c \<or> (\<exists>r'. system_works c r'))
      \<and> (finished c \<longrightarrow> (\<exists>gs. interleaving (mset (actions ss)) gs \<and> user (the_world c) = run_all gs (user w))
           \<and> heap (the_world c) = heap w \<and> refs (the_world c) = refs w \<and> impl (the_world c) = impl w)"
    if steps: "system_steps ?c0 r" for r
  proof -
    obtain c xs' ss' where c: "r = ret c" "corresponds c" "running w xs' ss' (client_view c)"
      "concurrent_steps (client_view ?c0) (ret (client_view c))"
      using system_reached [OF steps c0 run assms(4)] by blast
    from concurrent_outcome [OF c(4) [unfolded view] assms(3-5)] finished_over [OF c(2)]
    have "finished c \<longrightarrow> (\<exists>gs. interleaving (mset (actions ss)) gs \<and> user (the_world c) = run_all gs (user w))
        \<and> heap (the_world c) = heap w \<and> refs (the_world c) = refs w \<and> impl (the_world c) = impl w" by auto
    then show ?thesis
      using c(1) system_works_terminates [OF c(2,3) assms(4)] system_works_progress [OF c(2,3) assms(4)]
      by (auto simp: finished_def)
  qed
  ultimately show ?thesis by blast
qed

text \<open>A pool of two threads, as in the example program, and one asynchronous pipeline.\<close>

theorem thread_pool_delivers_witness:
  "\<exists>s c. ThreadPoolScheduler_new 2 = ret s
    \<and> system_steps (new_system [(AsyncPublisher 0 1 (Some (CreateValuePublisher [Val (7 :: nat), Val 8])),
        buffering_next, [Val 7, Val 8], Done)] s (empty_world ([], []))) (ret c)
    \<and> IdleCondition (the_pool c) \<and> user (the_world c) = ([Val 7, Val 8], [Done]) \<and> heap (the_world c) = Map.empty"
proof -
  let ?p = "AsyncPublisher 0 1 (Some (CreateValuePublisher [Val (7 :: nat), Val 8])) :: (nat, nat val list \<times> Status list) pub"
  let ?ss = "[(?p, buffering_next, [Val 7, Val 8], Done)]"
  let ?w = "empty_world ([], []) :: (nat, nat val list \<times> Status list) world"
  have "arrives ?p [Val 7, Val 8] Done" by (intro arrives_rests rests_values; simp)
  then have 0: "\<forall>(p, f, vs, t)\<in>set ?ss. arrives p vs t" "wf_world ?w" "queues ?w = (\<lambda>_. [])"
    by (simp_all add: wf_world_def empty_world_def)
  obtain s :: "(nat, nat val list \<times> Status list) task pool" where s: "ThreadPoolScheduler_new 2 = ret s"
    by (simp add: ThreadPoolScheduler_new_def)
  note run = thread_pool_delivers [OF s _ 0]
  then obtain c where c: "system_steps (new_system ?ss s ?w) (ret c)" "finished c" by auto
  with run obtain gs where gs: "interleaving (mset (actions ?ss)) gs" "user (the_world c) = run_all gs (user ?w)"
    "heap (the_world c) = Map.empty" by (fastforce simp: empty_world_def)
  then have "gs = reactions buffering_next [Val 7, Val 8] Done" by (auto dest!: interleaving_single [OF _ refl])
  then have "user (the_world c) = ([Val 7, Val 8], [Done])"
    using gs(2) by (simp add: run_reactions received_def buffering_next_def empty_world_def)
  then show ?thesis using s c gs(3) by (auto simp: finished_def)
qed

end
