(* ===== verification/Files.thy ===== *)
theory Files
  imports Monitoring
begin

text \<open>
  The functions of \<open>base/platform.cc\<close> that reach the operating system, and the baseline
  comparison of \<open>base/testing.cc\<close> built on them. The state is the file system: regular files with
  their contents, and directories. What the code calls and the repository does not contain (the
  operating system, the shell, the protobuf parser) is the record \<open>env\<close>, a parameter of every
  operation that uses it.
\<close>

section \<open>The operating system\<close>

record os =
  files :: "string \<rightharpoonup> string"
  dirs :: "string set"
  tmp_count :: nat

text \<open>
  \<open>env_can_read\<close> and \<open>env_can_create\<close> say whether a stream on the file opens, \<open>env_stores\<close> what of
  a written text reaches the file, \<open>env_mkdir\<close> is the return value of \<open>mkdir\<close>, \<open>env_tmpnam\<close> the
  sequence of names \<open>tmpnam\<close> generates, \<open>env_system\<close> runs a shell command, \<open>env_update_baseline\<close>
  says whether \<open>RX_UPDATE_BASELINE\<close> is set.
\<close>

record env =
  env_can_read :: "string \<Rightarrow> bool"
  env_can_create :: "string \<Rightarrow> bool"
  env_stores :: "string \<Rightarrow> string"
  env_mkdir :: "string \<Rightarrow> int"
  env_tmpnam :: "nat \<Rightarrow> string"
  env_system :: "string \<Rightarrow> os \<Rightarrow> int \<times> os"
  env_update_baseline :: bool
  env_temp_dir :: string

definition platform_cc :: string where
  "platform_cc = ''rxcppuniq/base/platform.cc''"

section \<open>Files\<close>

definition ReadFileToString :: "env \<Rightarrow> string \<Rightarrow> os \<Rightarrow> string StatusOr" where
  "ReadFileToString env file_name w =
     (case files w file_name of
        Some buffer \<Rightarrow>
          if env_can_read env file_name then ValueRepr buffer
          else StatusRepr (rx_status INTERNAL platform_cc 54 (''cannot read file '' @ file_name))
      | None \<Rightarrow> StatusRepr (rx_status INTERNAL platform_cc 54 (''cannot read file '' @ file_name)))"

text \<open>The stream is not tested again after the content has been written.\<close>

definition WriteStringToFile :: "env \<Rightarrow> string \<Rightarrow> string \<Rightarrow> os \<Rightarrow> Status \<times> os" where
  "WriteStringToFile env file_name content w =
     (if \<not> env_can_create env file_name then
        (rx_status INTERNAL platform_cc 67 (''cannot create file '' @ file_name), w)
      else (rx_status OK platform_cc 72 [], w\<lparr>files := (files w)(file_name \<mapsto> env_stores env content)\<rparr>))"

text \<open>\<open>parse\<close> is the message's \<open>ParseFromIstream\<close>: the new message, if the text is well-formed.\<close>

definition ReadFileToMessage ::
  "env \<Rightarrow> (string \<Rightarrow> 'm option) \<Rightarrow> string \<Rightarrow> 'm option \<Rightarrow> os \<Rightarrow> (Status \<times> 'm option) res" where
  "ReadFileToMessage env parse file_name msg w =
     rx_check (msg \<noteq> None) ''message != nullptr''
       (case (if env_can_read env file_name then files w file_name else None) of
          None \<Rightarrow> ret (rx_status NOT_FOUND platform_cc 81 (''cannot read file '' @ file_name), msg)
        | Some text \<Rightarrow>
            (case parse text of
               None \<Rightarrow> ret (rx_status INVALID_ARGUMENT platform_cc 84 ''cannot parse message'', msg)
             | Some m \<Rightarrow> ret (rx_status OK platform_cc 86 [], Some m)))"

definition FileExists :: "string \<Rightarrow> os \<Rightarrow> bool" where
  "FileExists file_name w \<longleftrightarrow> files w file_name \<noteq> None \<or> file_name \<in> dirs w"

definition MakeTempFileName :: "env \<Rightarrow> os \<Rightarrow> string \<times> os" where
  "MakeTempFileName env w = (env_tmpnam env (tmp_count w), w\<lparr>tmp_count := Suc (tmp_count w)\<rparr>)"

text \<open>\<open>std::remove\<close> of a file.\<close>

definition remove_file :: "string \<Rightarrow> os \<Rightarrow> os" where
  "remove_file name w = w\<lparr>files := (files w)(name := None)\<rparr>"

definition EnsureDirExists :: "env \<Rightarrow> string \<Rightarrow> os \<Rightarrow> Status \<times> os" where
  "EnsureDirExists env path w =
     (if FileExists path w then (rx_status OK platform_cc 117 [], w)
      else
        let error = env_mkdir env path
        in if error \<noteq> 0 then
             (rx_status INTERNAL platform_cc 127
                (''cannot create directory '' @ path @ ''(error code '' @ int_to_string error @ '')''), w)
           else (rx_status OK platform_cc 130 [], w\<lparr>dirs := insert path (dirs w)\<rparr>))"

section \<open>Shell commands\<close>

text \<open>One output redirection: the operator, appended with a new file name if the output is wanted.\<close>

definition redirect :: "env \<Rightarrow> bool \<Rightarrow> string \<Rightarrow> string \<times> os \<Rightarrow> string \<times> string \<times> os" where
  "redirect env wanted operator cw =
     (let (command, w) = cw
      in if wanted then (let (file, w) = MakeTempFileName env w in (file, command @ operator @ file, w))
         else ([], command, w))"

text \<open>Reading a redirected output back, and removing its file if it could be read.\<close>

definition collect_output :: "env \<Rightarrow> bool \<Rightarrow> string \<Rightarrow> os \<Rightarrow> string option \<times> os" where
  "collect_output env wanted file w =
     (if wanted then
        (case ReadFileToString env file w of
           ValueRepr result \<Rightarrow> (Some result, remove_file file w)
         | StatusRepr _ \<Rightarrow> (Some [], w))
      else (None, w))"

text \<open>
  The results are the status and the strings stored through the two pointers, \<open>None\<close> for a null
  pointer.
\<close>

definition ShellCommand ::
  "env \<Rightarrow> string \<Rightarrow> bool \<Rightarrow> bool \<Rightarrow> os \<Rightarrow> Status \<times> string option \<times> string option \<times> os" where
  "ShellCommand env command want_stdout want_stderr w =
     (let (stdout_file, command_str, w) = redirect env want_stdout '' 1>'' (command, w);
          (stderr_file, command_str, w) = redirect env want_stderr '' 2>'' (command_str, w);
          (result, w) = env_system env command_str w;
          (stdout_result, w) = collect_output env want_stdout stdout_file w;
          (stderr_result, w) = collect_output env want_stderr stderr_file w
      in (if result \<noteq> 0 then
            rx_status INTERNAL platform_cc 177
              (''command execution failed: '' @ command_str @ '' returns '' @ int_to_string result)
          else rx_status OK platform_cc 180 [],
          stdout_result, stderr_result, w))"

section \<open>Properties\<close>

lemmas file_defs = ReadFileToString_def WriteStringToFile_def FileExists_def MakeTempFileName_def
  remove_file_def EnsureDirExists_def redirect_def collect_output_def ShellCommand_def

text \<open>
  A text that is written to a file is read back, on a system that lets the file be created and
  read and stores what is written, and no other file or directory changes; a file that cannot be
  created is reported and nothing changes.
\<close>

theorem WriteStringToFile_ReadFileToString:
  assumes "env_can_read env f" and "env_stores env content = content"
  shows "case WriteStringToFile env f content w of (s, w') \<Rightarrow>
    if env_can_create env f then
      code s = OK \<and> ReadFileToString env f w' = ValueRepr content \<and> FileExists f w'
      \<and> files w' = (files w)(f \<mapsto> content) \<and> dirs w' = dirs w
    else code s = INTERNAL \<and> w' = w"
  using assms by (simp add: file_defs)

definition plain_env :: env where
  "plain_env = \<lparr>env_can_read = (\<lambda>_. True), env_can_create = (\<lambda>_. True), env_stores = (\<lambda>s. s),
     env_mkdir = (\<lambda>_. 0), env_tmpnam = (\<lambda>n. ''/tmp/'' @ nat_to_string n),
     env_system = (\<lambda>_ w. (0, w)), env_update_baseline = False, env_temp_dir = ''/tmp''\<rparr>"

definition no_files :: os where
  "no_files = \<lparr>files = Map.empty, dirs = {}, tmp_count = 0\<rparr>"

theorem WriteStringToFile_ReadFileToString_witness:
  "ReadFileToString plain_env ''a'' (snd (WriteStringToFile plain_env ''a'' ''text'' no_files)) = ValueRepr ''text''"
  using WriteStringToFile_ReadFileToString [of plain_env "''a''" "''text''" no_files]
  by (simp add: plain_env_def split: prod.splits)

text \<open>
  \<open>WriteStringToFile\<close> does not notice a failing write: whenever the file can be created, it
  reports success, whatever reaches the file.
\<close>

theorem WriteStringToFile_ignores_write_errors:
  "code (fst (WriteStringToFile env f content w)) = (if env_can_create env f then OK else INTERNAL)
   \<and> files (snd (WriteStringToFile (env\<lparr>env_can_create := (\<lambda>_. True), env_stores := (\<lambda>_. [])\<rparr>) f content w)) f = Some []
   \<and> code (fst (WriteStringToFile (env\<lparr>env_can_create := (\<lambda>_. True), env_stores := (\<lambda>_. [])\<rparr>) f content w)) = OK"
  by (simp add: file_defs)

text \<open>
  A shell command whose outputs are wanted runs with both redirected to new temporary files;
  its status tells whether the exit code is 0; what it wrote to the files is returned, and the
  files are removed. What else the command did is kept.
\<close>

theorem ShellCommand_outputs:
  assumes "f1 = env_tmpnam env (tmp_count w)" and "f2 = env_tmpnam env (Suc (tmp_count w))"
    and "env_system env (cmd @ '' 1>'' @ f1 @ '' 2>'' @ f2) (w\<lparr>tmp_count := Suc (Suc (tmp_count w))\<rparr>) = (r, w1)"
    and "files w1 f1 = Some out" and "files w1 f2 = Some err" and "f1 \<noteq> f2"
    and "env_can_read env f1" and "env_can_read env f2"
  shows "\<exists>s. ShellCommand env cmd True True w
      = (s, Some out, Some err, w1\<lparr>files := (files w1)(f1 := None, f2 := None)\<rparr>)
    \<and> (code s = OK \<longleftrightarrow> r = 0)"
  using assms by (auto simp: file_defs Let_def)

text \<open>A shell that only knows one command, which prints \<open>hi\<close> and fails.\<close>

definition echo_env :: env where
  "echo_env = plain_env\<lparr>env_tmpnam := (\<lambda>n. if n = 0 then ''o'' else ''e''),
     env_system := (\<lambda>c w. if c = ''echo 1>o 2>e'' then (3, w\<lparr>files := (files w)(''o'' \<mapsto> ''hi'', ''e'' \<mapsto> [])\<rparr>) else (1, w))\<rparr>"

theorem ShellCommand_outputs_witness:
  "\<exists>s w'. ShellCommand echo_env ''echo'' True True no_files = (s, Some ''hi'', Some [], w') \<and> code s \<noteq> OK"
proof -
  let ?w = "no_files\<lparr>tmp_count := Suc (Suc 0), files := (files no_files)(''o'' \<mapsto> ''hi'', ''e'' \<mapsto> [])\<rparr>"
  have 1: "env_system echo_env (''echo'' @ '' 1>'' @ ''o'' @ '' 2>'' @ ''e'')
      (no_files\<lparr>tmp_count := Suc (Suc (tmp_count no_files))\<rparr>) = (3, ?w)"
    by (simp add: echo_env_def no_files_def)
  have 2: "''o'' = env_tmpnam echo_env (tmp_count no_files)" "''e'' = env_tmpnam echo_env (Suc (tmp_count no_files))"
    "files ?w ''o'' = Some ''hi''" "files ?w ''e'' = Some []" "''o'' \<noteq> ''e''"
    "env_can_read echo_env ''o''" "env_can_read echo_env ''e''"
    by (simp_all add: echo_env_def plain_env_def no_files_def)
  from ShellCommand_outputs [OF 2(1,2) 1 2(3-7)] show ?thesis by fastforce
qed

text \<open>
  After \<open>EnsureDirExists\<close> succeeded the path exists, files are untouched, and doing it again
  has no effect; if it fails, nothing has changed.
\<close>

theorem EnsureDirExists_establishes:
  "case EnsureDirExists env path w of (s, w') \<Rightarrow>
     files w' = files w \<and> (code s = OK \<longleftrightarrow> FileExists path w')
     \<and> (if code s = OK then code (fst (EnsureDirExists env path w')) = OK \<and> snd (EnsureDirExists env path w') = w'
        else w' = w)"
  by (simp add: file_defs Let_def)

end
