(* ===== verification/Baseline.thy ===== *)
theory Baseline
  imports Files
begin

text \<open>
  The test helpers of \<open>base/testing.cc\<close>: test file names and the comparison of a text with a
  recorded baseline, on POSIX, over the file system of theory \<open>Files\<close>. The name of the running test,
  which the test framework knows, is the parameter \<open>test_info\<close>; the state of the logger is the list
  of lines written.
\<close>

section \<open>Names\<close>

record test_info =
  ti_name :: string
  ti_test_case_name :: string

definition kProjectRoot :: string where
  "kProjectRoot = []"

definition replace_slashes :: "string \<Rightarrow> string" where
  "replace_slashes s = map (\<lambda>c. if c = CHR ''/'' then CHR ''_'' else c) s"

definition TestName :: "test_info \<Rightarrow> string" where
  "TestName ti = replace_slashes (ti_name ti)"

definition TestCaseName :: "test_info \<Rightarrow> string" where
  "TestCaseName ti = replace_slashes (ti_test_case_name ti)"

definition GetTestDataPath :: "string \<Rightarrow> string" where
  "GetTestDataPath relative_path = ConcatPath kProjectRoot relative_path"

definition TemporaryTestFile :: "env \<Rightarrow> test_info \<Rightarrow> string \<Rightarrow> string" where
  "TemporaryTestFile env ti sfx = ConcatPath (env_temp_dir env) (TestName ti @ sfx)"

definition ShouldUpdateBaseline :: "env \<Rightarrow> bool" where
  "ShouldUpdateBaseline env = env_update_baseline env"

definition IsCode :: "'a StatusOr \<Rightarrow> StatusCode \<Rightarrow> bool" where
  "IsCode x c \<longleftrightarrow> code (status x) = c"

definition IsCode_status :: "Status \<Rightarrow> StatusCode \<Rightarrow> bool" where
  "IsCode_status x c \<longleftrightarrow> code x = c"

section \<open>Comparing with a baseline\<close>

definition testing_cc :: string where
  "testing_cc = ''rxcppuniq/base/testing.cc''"

definition ComputeDiff ::
  "env \<Rightarrow> test_info \<Rightarrow> string \<Rightarrow> string \<Rightarrow> os \<Rightarrow> (string StatusOr \<times> os) res" where
  "ComputeDiff env ti baseline_file content w =
     (let baseline_file_str = GetTestDataPath baseline_file
      in if \<not> FileExists baseline_file_str w then
           ret (ValueRepr (''no recorded baseline file '' @ baseline_file_str), w)
         else
           let provided_file = TemporaryTestFile env ti ''.provided'';
               (st, w) = WriteStringToFile env provided_file content w
           in if code st \<noteq> OK then bnd (StatusOr_of_status st) (\<lambda>e. ret (e, w))
              else
                let (st, std_out, std_err, w) =
                      ShellCommand env (''diff -u '' @ baseline_file_str @ '' '' @ provided_file) True True w;
                    w = remove_file provided_file w
                in if code st \<noteq> OK then
                     (if the std_err \<noteq> [] then
                        bnd (StatusOr_of_status
                              (rx_status INTERNAL testing_cc 77 (''command failed: '' @ the std_err)))
                          (\<lambda>e. ret (e, w))
                      else ret (ValueRepr (the std_out), w))
                   else ret (ValueRepr [], w))"

text \<open>The file the new baseline goes to when it is not updated in place, and what is reported.\<close>

definition new_baseline_path :: "test_info \<Rightarrow> string \<Rightarrow> string" where
  "new_baseline_path ti baseline_file =
     ConcatPath (ConcatPath ''/tmp'' (''rx_'' @ TestCaseName ti)) (BaseName baseline_file)"

definition newline :: string where
  "newline = [CHR 10]"

definition baseline_report :: "string \<Rightarrow> string \<Rightarrow> string \<Rightarrow> string" where
  "baseline_report diff_result new_baseline_file baseline_file =
     diff_result @ newline @ ''New baseline file: '' @ new_baseline_file
       @ newline @ ''To update, use:''
       @ newline @ newline @ '' cp '' @ new_baseline_file @ '' '' @ baseline_file @ newline
       @ newline @ ''To automatically update baseline files, use''
       @ newline @ ''environment variable RX_UPDATE_BASELINE.''"

definition VerifyAgainstBaseline ::
  "env \<Rightarrow> test_info \<Rightarrow> string \<Rightarrow> string \<Rightarrow> os \<Rightarrow> string list
    \<Rightarrow> (string StatusOr \<times> os \<times> string list) res" where
  "VerifyAgainstBaseline env ti baseline_file content w err =
     bnd (ComputeDiff env ti baseline_file content w) (\<lambda>(status_or_diff_result, w).
     if \<not> ok status_or_diff_result then ret (status_or_diff_result, w, err)
     else
     bnd (ValueOrDie status_or_diff_result) (\<lambda>diff_result.
     if diff_result = [] then ret (status_or_diff_result, w, err)
     else
       let auto_update = ShouldUpdateBaseline env;
           (new_baseline_file, diff_result, w) =
             (if auto_update then
                (GetTestDataPath baseline_file,
                 newline @ ''Automatically updated baseline file: '' @ baseline_file, w)
              else
                let temp_output_dir = ConcatPath ''/tmp'' (''rx_'' @ TestCaseName ti);
                    (_, w) = EnsureDirExists env temp_output_dir w;
                    new_baseline_file = ConcatPath temp_output_dir (BaseName baseline_file)
                in (new_baseline_file, baseline_report diff_result new_baseline_file baseline_file, w));
           (st, w) = WriteStringToFile env new_baseline_file content w
       in if code st \<noteq> OK then bnd (StatusOr_of_status st) (\<lambda>e. ret (e, w, err))
          else if auto_update then
            bnd (LogMessage_destroy testing_cc 149 kInfo diff_result err) (\<lambda>err.
            ret (ValueRepr [], w, err))
          else ret (ValueRepr diff_result, w, err)))"

section \<open>Properties\<close>

text \<open>
  A system on which files can be created, read and written in full.
\<close>

definition files_work :: "env \<Rightarrow> bool" where
  "files_work env \<longleftrightarrow> (\<forall>f. env_can_read env f) \<and> (\<forall>f. env_can_create env f) \<and> (\<forall>s. env_stores env s = s)"

text \<open>
  \<open>diff -u b p\<close>, its outputs redirected to \<open>o'\<close> and \<open>e\<close>, succeeds with no output if the files are equal,
  and else fails with the difference \<open>d\<close>.
\<close>

definition diff_works ::
  "env \<Rightarrow> string \<Rightarrow> string \<Rightarrow> string \<Rightarrow> string \<Rightarrow> string \<Rightarrow> os \<Rightarrow> bool" where
  "diff_works env b p o' e d w \<longleftrightarrow> d \<noteq> []
     \<and> env_system env ((''diff -u '' @ b @ '' '' @ p) @ '' 1>'' @ o' @ '' 2>'' @ e) w =
       (if files w b = files w p then (0, w\<lparr>files := (files w)(o' \<mapsto> [], e \<mapsto> [])\<rparr>)
        else (1, w\<lparr>files := (files w)(o' \<mapsto> d, e \<mapsto> [])\<rparr>))"

lemma GetTestDataPath_id [simp]: "GetTestDataPath p = p"
  by (simp add: GetTestDataPath_def ConcatPath_def kProjectRoot_def)

lemma ComputeDiff_result:
  assumes "files_work env" and "files w b = Some old" and "p = TemporaryTestFile env ti ''.provided''"
    and "o' = env_tmpnam env (tmp_count w)" and "e = env_tmpnam env (Suc (tmp_count w))"
    and "distinct [b, p, o', e]"
    and "diff_works env b p o' e d
      (w\<lparr>tmp_count := Suc (Suc (tmp_count w)), files := (files w)(p \<mapsto> content)\<rparr>)"
  shows "ComputeDiff env ti b content w =
    ret (ValueRepr (if old = content then [] else d),
      w\<lparr>tmp_count := Suc (Suc (tmp_count w)), files := (files w)(p := None, o' := None, e := None)\<rparr>)"
proof -
  have w: "w\<lparr>files := X, tmp_count := n\<rparr> = w\<lparr>tmp_count := n, files := X\<rparr>" for X n
    by (cases w) simp
  show ?thesis
    using assms
    by (auto simp: ComputeDiff_def file_defs files_work_def diff_works_def Let_def w fun_eq_iff)
qed

lemma EnsureDirExists_files [simp]: "files (snd (EnsureDirExists env path w)) = files w"
  by (simp add: EnsureDirExists_def Let_def)


text \<open>A system with a working \<open>diff\<close> for the files \<open>b\<close> and \<open>t/n.provided\<close>.\<close>

definition diff_env :: env where
  "diff_env = plain_env\<lparr>env_temp_dir := ''t'', env_tmpnam := (\<lambda>n. if n = 0 then ''o'' else ''e''),
     env_system := (\<lambda>_ w. if files w ''b'' = files w ''t/n.provided''
       then (0, w\<lparr>files := (files w)(''o'' \<mapsto> [], ''e'' \<mapsto> [])\<rparr>)
       else (1, w\<lparr>files := (files w)(''o'' \<mapsto> ''different'', ''e'' \<mapsto> [])\<rparr>))\<rparr>"

definition baseline_os :: os where
  "baseline_os = \<lparr>files = [''b'' \<mapsto> ''old''], dirs = {}, tmp_count = 0\<rparr>"

definition some_test :: test_info where
  "some_test = \<lparr>ti_name = ''n'', ti_test_case_name = ''a/b''\<rparr>"


end
