(* ===== verification/Objects.thy ===== *)
theory Objects
  imports Prelude "HOL-Library.Multiset"
begin

text \<open>
  The memory managed values of \<open>reactive/object.h\<close>, \<open>base/unique_value.h\<close>,
  \<open>base/move_to_lambda.h\<close> and \<open>reactive/protobuf.h\<close>. A pointer is an address, 0 the null pointer.
  The objects that \<open>std::shared_ptr\<close> manages are in a store with their reference counts; a unique
  pointer owns its object, so it is modelled by the object itself, and \<open>None\<close> is the null pointer.
\<close>

section \<open>Shared objects\<close>

type_synonym ptr = nat

record 'a store =
  st_obj :: "ptr \<rightharpoonup> 'a"
  st_refs :: "ptr \<Rightarrow> nat"
  st_next :: ptr

definition empty_store :: "'a store" where
  "empty_store = \<lparr>st_obj = Map.empty, st_refs = (\<lambda>_. 0), st_next = 1\<rparr>"

text \<open>Copying and dropping a \<open>std::shared_ptr\<close>.\<close>

definition shared_copy :: "ptr \<Rightarrow> 'a store \<Rightarrow> 'a store" where
  "shared_copy p st = (if p = 0 then st else st\<lparr>st_refs := (st_refs st)(p := Suc (st_refs st p))\<rparr>)"

definition shared_drop :: "ptr \<Rightarrow> 'a store \<Rightarrow> 'a store" where
  "shared_drop p st =
     (if p = 0 then st
      else if st_refs st p = 1 then
        st\<lparr>st_refs := (st_refs st)(p := 0), st_obj := (st_obj st)(p := None)\<rparr>
      else st\<lparr>st_refs := (st_refs st)(p := st_refs st p - 1)\<rparr>)"

record SharedObject =
  so_impl :: ptr

definition SharedObject_empty :: SharedObject where
  "SharedObject_empty = \<lparr>so_impl = 0\<rparr>"

definition SharedObject_of :: "ptr \<Rightarrow> SharedObject" where
  "SharedObject_of p = \<lparr>so_impl = p\<rparr>"

definition SharedObject_impl :: "SharedObject \<Rightarrow> ptr res" where
  "SharedObject_impl x = rx_check (so_impl x \<noteq> 0) ''implementation missing'' (ret (so_impl x))"

text \<open>\<open>Cast\<close>: the same object, shared once more.\<close>

definition SharedObject_Cast :: "SharedObject \<Rightarrow> 'a store \<Rightarrow> SharedObject \<times> 'a store" where
  "SharedObject_Cast x st = (SharedObject_of (so_impl x), shared_copy (so_impl x) st)"

definition SharedObject_arrow :: "SharedObject \<Rightarrow> ptr res" where
  "SharedObject_arrow x = SharedObject_impl x"

definition SharedObject_get :: "SharedObject \<Rightarrow> ptr" where
  "SharedObject_get x = so_impl x"

definition SharedObject_reset :: "SharedObject \<Rightarrow> 'a store \<Rightarrow> SharedObject \<times> 'a store" where
  "SharedObject_reset x st = (SharedObject_empty, shared_drop (so_impl x) st)"

definition SharedObject_bool :: "SharedObject \<Rightarrow> bool" where
  "SharedObject_bool x \<longleftrightarrow> so_impl x \<noteq> 0"

definition SharedObject_eq :: "SharedObject \<Rightarrow> SharedObject \<Rightarrow> bool" where
  "SharedObject_eq x y \<longleftrightarrow> so_impl x = so_impl y"

definition SharedObject_neq :: "SharedObject \<Rightarrow> SharedObject \<Rightarrow> bool" where
  "SharedObject_neq x y \<longleftrightarrow> so_impl x \<noteq> so_impl y"

definition SharedObject_less :: "SharedObject \<Rightarrow> SharedObject \<Rightarrow> bool" where
  "SharedObject_less x y \<longleftrightarrow> so_impl x < so_impl y"

definition SharedObject_less_eq :: "SharedObject \<Rightarrow> SharedObject \<Rightarrow> bool" where
  "SharedObject_less_eq x y \<longleftrightarrow> so_impl x \<le> so_impl y"

text \<open>
  \<open>SharedObjectImpl\<close>: \<open>Create\<close> makes the object and its first pointer; \<open>self\<close> locks the weak
  pointer that \<open>Create\<close> stored in the object.
\<close>

definition SharedObjectImpl_Create :: "'a \<Rightarrow> 'a store \<Rightarrow> ptr \<times> 'a store" where
  "SharedObjectImpl_Create x st =
     (st_next st,
      st\<lparr>st_obj := (st_obj st)(st_next st \<mapsto> x), st_refs := (st_refs st)(st_next st := 1),
         st_next := Suc (st_next st)\<rparr>)"

definition SharedObjectImpl_self :: "ptr \<Rightarrow> 'a store \<Rightarrow> (ptr \<times> 'a store) res" where
  "SharedObjectImpl_self this st =
     rx_check (st_refs st this \<noteq> 0) ''lifetime expired'' (ret (this, shared_copy this st))"

text \<open>\<open>SharedMsg\<close>: the default constructor creates a new message.\<close>

definition SharedMsg_default :: "'a \<Rightarrow> 'a store \<Rightarrow> SharedObject \<times> 'a store" where
  "SharedMsg_default default_msg st = (let (p, st) = SharedObjectImpl_Create default_msg st in (SharedObject_of p, st))"

section \<open>Unique objects\<close>

record 'a UniqueObject =
  uo_impl :: "'a option"

definition UniqueObject_empty :: "'a UniqueObject" where
  "UniqueObject_empty = \<lparr>uo_impl = None\<rparr>"

definition UniqueObject_of :: "'a option \<Rightarrow> 'a UniqueObject" where
  "UniqueObject_of p = \<lparr>uo_impl = p\<rparr>"

definition UniqueObject_impl :: "'a UniqueObject \<Rightarrow> 'a res" where
  "UniqueObject_impl x =
     (case uo_impl x of None \<Rightarrow> fail (CheckFailed ''implementation missing (maybe moved)'') | Some v \<Rightarrow> ret v)"

text \<open>\<open>move_impl\<close>: the implementation, and the object without it.\<close>

definition UniqueObject_move_impl :: "'a UniqueObject \<Rightarrow> ('a \<times> 'a UniqueObject) res" where
  "UniqueObject_move_impl x = bnd (UniqueObject_impl x) (\<lambda>v. ret (v, x\<lparr>uo_impl := None\<rparr>))"

definition UniqueObject_Cast :: "('a \<Rightarrow> 'b) \<Rightarrow> 'a UniqueObject \<Rightarrow> 'b UniqueObject \<times> 'a UniqueObject" where
  "UniqueObject_Cast static_cast x = (UniqueObject_of (map_option static_cast (uo_impl x)), x\<lparr>uo_impl := None\<rparr>)"

definition UniqueObject_get :: "'a UniqueObject \<Rightarrow> 'a option" where
  "UniqueObject_get x = uo_impl x"

definition UniqueObject_reset :: "'a UniqueObject \<Rightarrow> 'a UniqueObject" where
  "UniqueObject_reset x = x\<lparr>uo_impl := None\<rparr>"

definition UniqueObject_bool :: "'a UniqueObject \<Rightarrow> bool" where
  "UniqueObject_bool x \<longleftrightarrow> uo_impl x \<noteq> None"

text \<open>The move constructor of a unique object, and of what contains one.\<close>

definition UniqueObject_move :: "'a UniqueObject \<Rightarrow> 'a UniqueObject \<times> 'a UniqueObject" where
  "UniqueObject_move x = (x, UniqueObject_empty)"

definition UniqueObjectImpl_Create :: "'a \<Rightarrow> 'a UniqueObject" where
  "UniqueObjectImpl_Create x = UniqueObject_of (Some x)"

definition UniqueMsg_default :: "'a \<Rightarrow> 'a UniqueObject" where
  "UniqueMsg_default default_msg = UniqueObjectImpl_Create default_msg"

section \<open>UniqueValue\<close>

record 'a UniqueValue =
  uv_value :: "'a option"

definition UniqueValue_of :: "'a \<Rightarrow> 'a UniqueValue" where
  "UniqueValue_of v = \<lparr>uv_value = Some v\<rparr>"

definition UniqueValue_move :: "'a UniqueValue \<Rightarrow> 'a UniqueValue \<times> 'a UniqueValue" where
  "UniqueValue_move other = (\<lparr>uv_value = uv_value other\<rparr>, other\<lparr>uv_value := None\<rparr>)"

text \<open>Assignment takes its argument by value, which the move constructor has filled, and swaps.\<close>

definition UniqueValue_assign :: "'a UniqueValue \<Rightarrow> 'a UniqueValue \<Rightarrow> 'a UniqueValue \<times> 'a UniqueValue" where
  "UniqueValue_assign this other = (let (arg, other) = UniqueValue_move other in (arg, other))"

definition has_value :: "'a UniqueValue \<Rightarrow> bool" where
  "has_value x \<longleftrightarrow> uv_value x \<noteq> None"

definition UniqueValue_deref :: "'a UniqueValue \<Rightarrow> 'a res" where
  "UniqueValue_deref x = (case uv_value x of None \<Rightarrow> fail (BadPointer 0) | Some v \<Rightarrow> ret v)"

definition MakeUniqueValue :: "('b \<Rightarrow> 'a) \<Rightarrow> 'b \<Rightarrow> 'a UniqueValue" where
  "MakeUniqueValue construct args = UniqueValue_of (construct args)"

section \<open>MoveToLambda\<close>

text \<open>
  The wrapper is generic in its type, of which it uses the move constructor: the parameter \<open>move\<close>
  gives the new value and what is left in the old place. Copying a wrapper moves its value.
\<close>

record 't MoveToLambdaWrapper =
  mw_value :: 't

definition MoveToLambdaWrapper_copy ::
  "('t \<Rightarrow> 't \<times> 't) \<Rightarrow> 't MoveToLambdaWrapper \<Rightarrow> 't MoveToLambdaWrapper \<times> 't MoveToLambdaWrapper" where
  "MoveToLambdaWrapper_copy move other =
     (let (v, left) = move (mw_value other) in (\<lparr>mw_value = v\<rparr>, other\<lparr>mw_value := left\<rparr>))"

definition MoveToLambdaWrapper_assign ::
  "('t \<Rightarrow> 't \<times> 't) \<Rightarrow> 't MoveToLambdaWrapper \<Rightarrow> 't MoveToLambdaWrapper
    \<Rightarrow> 't MoveToLambdaWrapper \<times> 't MoveToLambdaWrapper" where
  "MoveToLambdaWrapper_assign move this other =
     (let (v, left) = move (mw_value other) in (this\<lparr>mw_value := v\<rparr>, other\<lparr>mw_value := left\<rparr>))"

definition MoveToLambdaWrapper_deref :: "'t MoveToLambdaWrapper \<Rightarrow> 't" where
  "MoveToLambdaWrapper_deref w = mw_value w"

definition MoveToLambda :: "('t \<Rightarrow> 't \<times> 't) \<Rightarrow> 't \<Rightarrow> 't MoveToLambdaWrapper \<times> 't" where
  "MoveToLambda move value = (let (v, left) = move value in (\<lparr>mw_value = v\<rparr>, left))"

text \<open>Several copies of a closure, each capturing a wrapper: copying the \<open>i\<close>-th one.\<close>

definition copy_closure :: "('t \<Rightarrow> 't \<times> 't) \<Rightarrow> nat \<Rightarrow> 't MoveToLambdaWrapper list \<Rightarrow> 't MoveToLambdaWrapper list" where
  "copy_closure move i ws =
     (if i < length ws then
        (let (new, left) = MoveToLambdaWrapper_copy move (ws ! i) in ws[i := left] @ [new])
      else ws)"

text \<open>The values held by such copies.\<close>

definition held_values :: "('t \<Rightarrow> 'v option) \<Rightarrow> 't MoveToLambdaWrapper list \<Rightarrow> 'v multiset" where
  "held_values held ws = (\<Sum>w\<leftarrow>ws. case held (mw_value w) of None \<Rightarrow> {#} | Some v \<Rightarrow> {#v#})"

lemma held_values_append: "held_values held (us @ ws) = held_values held us + held_values held ws"
  by (simp add: held_values_def)

lemma held_values_Cons:
  "held_values held (w # ws) = (case held (mw_value w) of None \<Rightarrow> {#} | Some v \<Rightarrow> {#v#}) + held_values held ws"
  by (simp add: held_values_def)

section \<open>Move-only types\<close>

text \<open>
  What a move-only type promises: moving hands the whole value over and leaves nothing behind.
\<close>

locale move_only =
  fixes move :: "'t \<Rightarrow> 't \<times> 't" and held :: "'t \<Rightarrow> 'v option"
  assumes held_new: "held (fst (move x)) = held x"
    and held_left: "held (snd (move x)) = None"
begin

lemma copy_held: "held_values held (copy_closure move i ws) = held_values held ws"
proof (cases "i < length ws")
  case True
  then have ws: "ws = take i ws @ ws ! i # drop (Suc i) ws" by (simp add: id_take_nth_drop)
  have upd: "ws[i := x] = take i ws @ x # drop (Suc i) ws" for x using True by (simp add: upd_conv_take_nth_drop)
  obtain v left where mv: "move (mw_value (ws ! i)) = (v, left)" by (cases "move (mw_value (ws ! i))")
  have v: "held v = held (mw_value (ws ! i))" "held left = None"
    using held_new [of "mw_value (ws ! i)"] held_left [of "mw_value (ws ! i)"] mv by simp_all
  have "held_values held (copy_closure move i ws)
      = held_values held (take i ws @ (ws ! i)\<lparr>mw_value := left\<rparr> # drop (Suc i) ws @ [\<lparr>mw_value = v\<rparr>])"
    using True by (simp add: copy_closure_def MoveToLambdaWrapper_copy_def mv upd)
  also have "\<dots> = held_values held (take i ws) + held_values held [ws ! i] + held_values held (drop (Suc i) ws)"
    by (simp add: held_values_append held_values_Cons v held_values_def ac_simps)
  also have "\<dots> = held_values held ws"
    by (subst (4) ws) (simp only: held_values_append held_values_Cons, simp add: held_values_def ac_simps)
  finally show ?thesis .
qed (simp add: copy_closure_def)

lemma copies_held: "held_values held (fold (copy_closure move) is ws) = held_values held ws"
  by (induction "is" arbitrary: ws) (simp_all add: copy_held)

end

interpretation unique_object: move_only UniqueObject_move uo_impl
  by unfold_locales (simp_all add: UniqueObject_move_def UniqueObject_empty_def)

interpretation unique_value: move_only UniqueValue_move uv_value
  by unfold_locales (simp_all add: UniqueValue_move_def)

section \<open>Shared ownership\<close>

text \<open>
  The pointers \<open>hs\<close> that exist, and the steps that create, copy and drop them. \<open>self\<close> starts from a
  weak pointer, so it needs no pointer to be there.
\<close>

inductive pointer_step :: "'a store \<times> ptr list \<Rightarrow> 'a store \<times> ptr list \<Rightarrow> bool" where
  create: "SharedObjectImpl_Create x st = (p, st') \<Longrightarrow> pointer_step (st, hs) (st', p # hs)"
| copy: "p \<in> set hs \<Longrightarrow> pointer_step (st, hs) (shared_copy p st, p # hs)"
| lock: "SharedObjectImpl_self a st = ret (p, st') \<Longrightarrow> a \<noteq> 0 \<Longrightarrow> pointer_step (st, hs) (st', p # hs)"
| drop_last: "pointer_step (st, hs1 @ p # hs2) (shared_drop p st, hs1 @ hs2)"

inductive pointers_reachable :: "'a store \<times> ptr list \<Rightarrow> bool" where
  start: "pointers_reachable (empty_store, [])"
| step: "pointers_reachable c \<Longrightarrow> pointer_step c c' \<Longrightarrow> pointers_reachable c'"

definition counts_ok :: "'a store \<times> ptr list \<Rightarrow> bool" where
  "counts_ok c \<longleftrightarrow> (case c of (st, hs) \<Rightarrow> 0 < st_next st
     \<and> (\<forall>p. p \<noteq> 0 \<longrightarrow> st_refs st p = count (mset hs) p \<and> (st_obj st p = None \<longleftrightarrow> st_refs st p = 0))
     \<and> (\<forall>p\<ge>st_next st. st_refs st p = 0))"

lemma pointer_step_counts: "pointer_step c c' \<Longrightarrow> counts_ok c \<Longrightarrow> counts_ok c'"
proof (induction rule: pointer_step.induct)
  case (create x st p st' hs)
  then have "st_next st \<notin># mset hs" by (auto simp: counts_ok_def count_eq_zero_iff [symmetric])
  with create show ?case
    by (auto simp: counts_ok_def SharedObjectImpl_Create_def count_eq_zero_iff)
next
  case (copy p hs st)
  then show ?case
    by (auto simp: counts_ok_def shared_copy_def)
next
  case (lock a st p st' hs)
  then show ?case
    by (auto simp: counts_ok_def SharedObjectImpl_self_def shared_copy_def rx_check_eq_ret)
next
  case (drop_last st hs1 p hs2)
  then show ?case by (auto simp: counts_ok_def shared_drop_def)
qed

lemma pointers_reachable_counts: "pointers_reachable c \<Longrightarrow> counts_ok c"
proof (induction rule: pointers_reachable.induct)
  case start
  show ?case by (simp add: counts_ok_def empty_store_def)
next
  case (step c c')
  from step(2,3) show ?case by (rule pointer_step_counts)
qed

section \<open>Properties\<close>


lemma pointers_example:
  "pointers_reachable (shared_drop 1 (shared_drop 1 (shared_copy 1 (snd (SharedObjectImpl_Create True empty_store)))), [])"
proof -
  let ?s1 = "snd (SharedObjectImpl_Create True empty_store)"
  have c: "SharedObjectImpl_Create True empty_store = (1, ?s1)"
    by (simp add: SharedObjectImpl_Create_def empty_store_def)
  have 1: "pointers_reachable (?s1, [1])" by (rule step [OF start create [OF c]])
  have 2: "pointers_reachable (shared_copy 1 ?s1, [1, 1])" by (rule step [OF 1 copy]) simp
  have 3: "pointers_reachable (shared_drop 1 (shared_copy 1 ?s1), [1])"
    using step [OF 2] drop_last [of "shared_copy 1 ?s1" "[]" 1 "[1]"] by simp
  show ?thesis using step [OF 3] drop_last [of "shared_drop 1 (shared_copy 1 ?s1)" "[]" 1 "[]"] by simp
qed


text \<open>
  A value captured by \<open>MoveToLambda\<close> is neither duplicated nor lost: whichever closures are
  copied, in any order, the values held by all copies together stay the same, for both move-only
  types of the library.
\<close>

theorem MoveToLambda_copies_keep_values:
  "held_values uo_impl (fold (copy_closure UniqueObject_move) is ws) = held_values uo_impl ws
   \<and> held_values uv_value (fold (copy_closure UniqueValue_move) is vs) = held_values uv_value vs"
  by (simp add: unique_object.copies_held unique_value.copies_held)

text \<open>
  The implementation of a unique object can be moved out once: every further access fails its
  check.
\<close>

theorem UniqueObject_moves_once:
  "bnd (UniqueObject_move_impl x) (\<lambda>(v, x). UniqueObject_impl x) = fail (CheckFailed ''implementation missing (maybe moved)'')
   \<and> bnd (UniqueObject_move_impl (UniqueObjectImpl_Create y)) (\<lambda>(v, x). ret v) = ret y"
  by (cases "uo_impl x")
    (simp_all add: UniqueObject_move_impl_def UniqueObject_impl_def UniqueObjectImpl_Create_def UniqueObject_of_def)

end
