(* ===== verification/Poly_Value.thy ===== *)
theory Poly_Value
  imports Monitoring
begin

text \<open>
  \<open>PolyValue\<close> (\<open>reactive/poly_value.h\<close>, \<open>reactive/poly_value.cc\<close>): values with their type erased,
  serialized on demand. The C++ types that can be packed are named by \<open>cpp_type\<close>: types without
  serialization, copyable or not, the shared and unique protobuf messages, and \<open>SerializedValue\<close>.
  Serializing and parsing a message is protobuf's, the parameter \<open>proto\<close>.
\<close>

section \<open>Types and values\<close>

datatype cpp_type = CopyableT nat | MoveOnlyT nat | SharedMsgT nat | UniqueMsgT nat | SerializedValueT

fun is_copy_constructible :: "cpp_type \<Rightarrow> bool" where
  "is_copy_constructible (CopyableT _) = True"
| "is_copy_constructible (SharedMsgT _) = True"
| "is_copy_constructible _ = False"

type_synonym bytes = "8 word list"

text \<open>
  \<open>MsgValue\<close> is a \<open>SharedMsg\<close> or \<open>UniqueMsg\<close>, \<open>None\<close> without a message; \<open>Serialized\<close> is a
  \<open>SerializedValue\<close>, \<open>None\<close> when its bytes have been moved away.
\<close>

datatype 'v cpp_value = PlainValue 'v | MsgValue "'v option" | Serialized "bytes option"

fun has_cpp_type :: "cpp_type \<Rightarrow> 'v cpp_value \<Rightarrow> bool" where
  "has_cpp_type (CopyableT _) (PlainValue _) = True"
| "has_cpp_type (MoveOnlyT _) (PlainValue _) = True"
| "has_cpp_type (SharedMsgT _) (MsgValue _) = True"
| "has_cpp_type (UniqueMsgT _) (MsgValue _) = True"
| "has_cpp_type SerializedValueT (Serialized _) = True"
| "has_cpp_type _ _ = False"

text \<open>
  A \<open>absl::any\<close>: of type \<open>T\<close>, of type \<open>std::shared_ptr<T>\<close>, or a \<open>ValueWithSerializer\<close>, whose
  serializer is the lambda that \<open>Pack<T>\<close> made.
\<close>

datatype 'v any = AnyOf cpp_type "'v cpp_value" | AnyShared cpp_type "'v cpp_value"
  | ValueWithSerializer "'v any" cpp_type

type_synonym 'v PolyValue = "'v any option"

record 'v proto =
  pb_serialize :: "nat \<Rightarrow> 'v \<Rightarrow> bytes option"
  pb_parse :: "nat \<Rightarrow> bytes \<Rightarrow> 'v option"

definition poly_value_h :: string where
  "poly_value_h = ''rxcppuniq/reactive/poly_value.h''"

section \<open>SerializationTraits\<close>

fun Available :: "cpp_type \<Rightarrow> bool" where
  "Available (SharedMsgT _) = True"
| "Available (UniqueMsgT _) = True"
| "Available _ = False"

definition no_serialization :: "'a StatusOr" where
  "no_serialization = StatusRepr (rx_status UNAVAILABLE poly_value_h 51 ''serialization not available for this type'')"

definition SharedMsg_Serialize :: "'v proto \<Rightarrow> nat \<Rightarrow> 'v option \<Rightarrow> bytes StatusOr res" where
  "SharedMsg_Serialize proto n value =
     (case value of
        None \<Rightarrow> fail (CheckFailed ''implementation missing'')
      | Some msg \<Rightarrow>
          (case pb_serialize proto n msg of
             None \<Rightarrow> ret (StatusRepr (rx_status INTERNAL poly_value_h 264 ''serialization failed''))
           | Some bs \<Rightarrow> ret (ValueRepr bs)))"

definition SharedMsg_Parse :: "'v proto \<Rightarrow> nat \<Rightarrow> bytes option \<Rightarrow> 'v cpp_value StatusOr res" where
  "SharedMsg_Parse proto n serialized_value =
     (case serialized_value of
        None \<Rightarrow> fail (BadPointer 0)
      | Some bs \<Rightarrow>
          (case pb_parse proto n bs of
             None \<Rightarrow> ret (StatusRepr (rx_status INTERNAL poly_value_h 274 ''deserialization failed''))
           | Some msg \<Rightarrow> ret (ValueRepr (MsgValue (Some msg)))))"

definition UniqueMsg_Serialize :: "'v proto \<Rightarrow> nat \<Rightarrow> 'v option \<Rightarrow> bytes StatusOr res" where
  "UniqueMsg_Serialize proto n value =
     (case value of
        None \<Rightarrow> fail (CheckFailed ''implementation missing (maybe moved)'')
      | Some msg \<Rightarrow>
          (case pb_serialize proto n msg of
             None \<Rightarrow> ret (StatusRepr (rx_status INTERNAL poly_value_h 290 ''serialization failed''))
           | Some bs \<Rightarrow> ret (ValueRepr bs)))"

definition UniqueMsg_Parse :: "'v proto \<Rightarrow> nat \<Rightarrow> bytes option \<Rightarrow> 'v cpp_value StatusOr res" where
  "UniqueMsg_Parse proto n serialized_value =
     (case serialized_value of
        None \<Rightarrow> fail (BadPointer 0)
      | Some bs \<Rightarrow>
          (case pb_parse proto n bs of
             None \<Rightarrow> ret (StatusRepr (rx_status INTERNAL poly_value_h 300 ''deserialization failed''))
           | Some msg \<Rightarrow> ret (ValueRepr (MsgValue (Some msg)))))"

fun traits_Serialize :: "'v proto \<Rightarrow> cpp_type \<Rightarrow> 'v cpp_value \<Rightarrow> bytes StatusOr res" where
  "traits_Serialize proto (SharedMsgT n) (MsgValue m) = SharedMsg_Serialize proto n m"
| "traits_Serialize proto (UniqueMsgT n) (MsgValue m) = UniqueMsg_Serialize proto n m"
| "traits_Serialize proto _ _ = ret no_serialization"

fun traits_Parse :: "'v proto \<Rightarrow> cpp_type \<Rightarrow> bytes option \<Rightarrow> 'v cpp_value StatusOr res" where
  "traits_Parse proto (SharedMsgT n) bs = SharedMsg_Parse proto n bs"
| "traits_Parse proto (UniqueMsgT n) bs = UniqueMsg_Parse proto n bs"
| "traits_Parse proto _ bs = ret no_serialization"

section \<open>PolyValue\<close>

fun Is :: "cpp_type \<Rightarrow> 'v any \<Rightarrow> bool" where
  "Is T (AnyOf T' _) = (T = T')"
| "Is T _ = False"

fun Is_shared :: "cpp_type \<Rightarrow> 'v any \<Rightarrow> bool" where
  "Is_shared T (AnyShared T' _) = (T = T')"
| "Is_shared T _ = False"

fun Is_with_serializer :: "'v any \<Rightarrow> bool" where
  "Is_with_serializer (ValueWithSerializer _ _) = True"
| "Is_with_serializer _ = False"

definition Pack_copyable :: "cpp_type \<Rightarrow> 'v cpp_value \<Rightarrow> 'v PolyValue" where
  "Pack_copyable T v =
     (let result = AnyOf T v in Some (if Available T then ValueWithSerializer result T else result))"

definition Pack_move_only :: "cpp_type \<Rightarrow> 'v cpp_value \<Rightarrow> 'v PolyValue" where
  "Pack_move_only T v =
     (let result = AnyShared T v in Some (if Available T then ValueWithSerializer result T else result))"

text \<open>The overload is chosen by \<open>std::is_copy_constructible<T>\<close>.\<close>

definition Pack :: "cpp_type \<Rightarrow> 'v cpp_value \<Rightarrow> 'v PolyValue" where
  "Pack T v = (if is_copy_constructible T then Pack_copyable T v else Pack_move_only T v)"

definition wrong_type :: "cpp_type \<Rightarrow> Status" where
  "wrong_type T = rx_status INTERNAL poly_value_h (if is_copy_constructible T then 130 else 159)
     ''value has not the expected type''"

text \<open>The lambda that \<open>Pack<T>\<close> attaches.\<close>

definition run_serializer :: "'v proto \<Rightarrow> cpp_type \<Rightarrow> 'v any \<Rightarrow> bytes StatusOr res" where
  "run_serializer proto T packed_value =
     (case packed_value of
        AnyOf T' v \<Rightarrow>
          if is_copy_constructible T \<and> Is T packed_value then traits_Serialize proto T v
          else ret (StatusRepr (wrong_type T))
      | AnyShared T' v \<Rightarrow>
          if \<not> is_copy_constructible T \<and> Is_shared T packed_value then traits_Serialize proto T v
          else ret (StatusRepr (wrong_type T))
      | ValueWithSerializer _ _ \<Rightarrow> ret (StatusRepr (wrong_type T)))"

definition CheckType :: "bool \<Rightarrow> Status" where
  "CheckType is_expected =
     (if \<not> is_expected then rx_status INVALID_ARGUMENT poly_value_h 238 ''value has not the requested type''
      else rx_status OK poly_value_h 241 [])"

definition move_any :: "'v PolyValue \<Rightarrow> 'v any res" where
  "move_any p = (case p of None \<Rightarrow> fail (CheckFailed ''implementation missing (maybe moved)'') | Some a \<Rightarrow> ret a)"

fun strip_serializer :: "'v any \<Rightarrow> 'v any" where
  "strip_serializer (ValueWithSerializer a _) = a"
| "strip_serializer a = a"

definition any_value :: "'v any \<Rightarrow> 'v cpp_value res" where
  "any_value a = (case a of AnyOf _ v \<Rightarrow> ret v | AnyShared _ v \<Rightarrow> ret v | _ \<Rightarrow> fail (CheckFailed ''bad_any_cast''))"

definition Unpack_copyable :: "'v proto \<Rightarrow> cpp_type \<Rightarrow> 'v PolyValue \<Rightarrow> 'v cpp_value StatusOr res" where
  "Unpack_copyable proto T p =
     bnd (move_any p) (\<lambda>packed_value.
     case packed_value of
       AnyShared SerializedValueT (Serialized bs) \<Rightarrow> traits_Parse proto T bs
     | _ \<Rightarrow>
         (let packed_value = strip_serializer packed_value;
              st = CheckType (Is T packed_value)
          in if code st \<noteq> OK then StatusOr_of_status st
             else bnd (any_value packed_value) (\<lambda>v. ret (ValueRepr v))))"

definition Unpack_move_only :: "'v proto \<Rightarrow> cpp_type \<Rightarrow> 'v PolyValue \<Rightarrow> 'v cpp_value StatusOr res" where
  "Unpack_move_only proto T p =
     bnd (move_any p) (\<lambda>packed_value.
     case packed_value of
       AnyShared SerializedValueT (Serialized bs) \<Rightarrow> traits_Parse proto T bs
     | _ \<Rightarrow>
         (let packed_value = strip_serializer packed_value;
              st = CheckType (Is_shared T packed_value)
          in if code st \<noteq> OK then StatusOr_of_status st
             else bnd (any_value packed_value) (\<lambda>v. ret (ValueRepr v))))"

definition Unpack :: "'v proto \<Rightarrow> cpp_type \<Rightarrow> 'v PolyValue \<Rightarrow> 'v cpp_value StatusOr res" where
  "Unpack proto T p = (if is_copy_constructible T then Unpack_copyable proto T p else Unpack_move_only proto T p)"

definition Serialize :: "'v proto \<Rightarrow> 'v PolyValue \<Rightarrow> bytes StatusOr res" where
  "Serialize proto p =
     bnd (move_any p) (\<lambda>packed_value.
     case packed_value of
       ValueWithSerializer v T \<Rightarrow> run_serializer proto T v
     | _ \<Rightarrow> ret (StatusRepr (rx_status INVALID_ARGUMENT ''rxcppuniq/reactive/poly_value.cc'' 24
                   ''value is not serializable'')))"

section \<open>Properties\<close>

lemmas poly_defs = Pack_def Pack_copyable_def Pack_move_only_def Unpack_def Unpack_copyable_def
  Unpack_move_only_def Serialize_def move_any_def CheckType_def any_value_def run_serializer_def



text \<open>
  C32: a message that protobuf can serialize survives the network: serializing its \<open>PolyValue\<close> gives
  bytes, and a \<open>PolyValue\<close> made from these bytes unpacks to an equal message, if protobuf parses
  what it has serialized.
\<close>

theorem Serialize_Unpack:
  assumes "pb_serialize proto n m = Some bs" and "pb_parse proto n bs = Some m"
    and "T = SharedMsgT n \<or> T = UniqueMsgT n"
  shows "Serialize proto (Pack T (MsgValue (Some m))) = ret (ValueRepr bs)
    \<and> Unpack proto T (Pack SerializedValueT (Serialized (Some bs))) = ret (ValueRepr (MsgValue (Some m)))"
  using assms
  by (auto simp: poly_defs Let_def SharedMsg_Serialize_def SharedMsg_Parse_def UniqueMsg_Serialize_def
      UniqueMsg_Parse_def)

theorem Serialize_Unpack_witness:
  "Serialize \<lparr>pb_serialize = \<lambda>_ b. Some [if b then 1 else 0], pb_parse = \<lambda>_ bs. Some (bs = [1])\<rparr>
     (Pack (SharedMsgT 4) (MsgValue (Some True))) = ret (ValueRepr [1])"
  using Serialize_Unpack [of "\<lparr>pb_serialize = \<lambda>_ b. Some [if b then 1 else 0], pb_parse = \<lambda>_ bs. Some (bs = [1])\<rparr>"
      4 True "[1]" "SharedMsgT 4"] by simp

text \<open>
  A \<open>PolyValue\<close> never yields a value of another type: unpacking at a different type reports
  \<open>INVALID_ARGUMENT\<close>, and serializing a value of a type without serialization does too.
\<close>

theorem Unpack_other_type:
  assumes "has_cpp_type T v" and "T \<noteq> T'" and "T \<noteq> SerializedValueT"
  shows "\<exists>s. Unpack proto T' (Pack T v) = ret (StatusRepr s) \<and> code s = INVALID_ARGUMENT
    \<and> (\<not> Available T \<longrightarrow> (\<exists>s. Serialize proto (Pack T v) = ret (StatusRepr s) \<and> code s = INVALID_ARGUMENT))"
  using assms by (cases T; cases v) (auto simp: poly_defs Let_def)

theorem Unpack_other_type_witness:
  "\<exists>s. Unpack \<lparr>pb_serialize = \<lambda>_ _. None, pb_parse = \<lambda>_ _. None\<rparr> (CopyableT 2) (Pack (CopyableT 1) (PlainValue True))
     = ret (StatusRepr s) \<and> code s = INVALID_ARGUMENT"
  using Unpack_other_type [of "CopyableT 1" "PlainValue True" "CopyableT 2"] by fastforce

end
