(* ===== verification/Findings.thy ===== *)
theory Findings
  imports Pipelines Single
begin

text \<open>
  Runs of the machine in which the code does not do what its documentation promises. Each is a
  closed computation on a small pipeline, so nothing is assumed about the world it starts in.
\<close>

section \<open>The setting\<close>

type_synonym test_user = "nat val list \<times> Status list"

definition test_values :: "nat list \<Rightarrow> (nat, test_user) publisher" where
  "test_values ns = Publisher_values (map Val ns)"

definition aborted :: Status where
  "aborted = set_code ABORTED Status_default"

definition test_error :: "(nat, test_user) publisher" where
  "test_error = Some (GeneratingPublisher TriggerVal (\<lambda>x u. (StatusRepr aborted, x, u)))"

text \<open>The fault a run ends with, or what the subscriber has received and the objects left on the heap.\<close>

definition outcome :: "('v, 'u) world res \<Rightarrow> (fault + 'u \<times> addr list) option" where
  "outcome r =
     (case r of None \<Rightarrow> None | Some (Inl e) \<Rightarrow> Some (Inl e)
      | Some (Inr w) \<Rightarrow> Some (Inr (user w, filter (\<lambda>a. heap w a \<noteq> None) [0..<next_addr w])))"

definition run_buffering :: "(nat, test_user) publisher res \<Rightarrow> (fault + test_user \<times> addr list) option" where
  "run_buffering p =
     outcome (bnd p (\<lambda>p. Publisher_Subscribe_flow_control exec p buffering_next (empty_world ([], []))))"

definition run_single :: "(nat, test_user) publisher res \<Rightarrow> (fault + test_user \<times> addr list) option" where
  "run_single p =
     outcome (bnd p (\<lambda>p. Single_Subscribe exec (Single_of_publisher p) buffering_next (empty_world ([], []))))"

section \<open>Merge\<close>

text \<open>What \<open>Merge\<close> does when nothing fails: the upstreams' values in turn, then the end.\<close>

lemma Merge_values:
  "run_buffering (Publisher_Merge (test_values [1]) [test_values [2, 3]])
    = Some (Inr (([Variant 0 (Val 1), Variant 1 (Val 2), Variant 1 (Val 3)], [Done]), []))"
  by code_simp


text \<open>
  \<open>Buffer\<close> does not respect flow control at the end of its stream: for one request it delivers
  its last, incomplete buffer and then the end, so that the look-ahead of \<open>Merge\<close>, which
  requests one event at a time, fails its check; under \<open>Prefetch\<close> the same stream is delivered.
\<close>

theorem Buffer_breaks_flow_control:
  "run_buffering (bnd (Publisher_Buffer 2 (test_values [1])) (\<lambda>p. Publisher_Merge p []))
      = Some (Inl (CheckFailed ''next element not consumed''))
    \<and> run_buffering (bnd (Publisher_Buffer 2 (test_values [1])) (Publisher_Prefetch 2 (1 / 2)))
      = Some (Inr (([Vec [Val 1]], [Done]), []))"
  by (rule conjI; code_simp)

text \<open>
  The balance of available elements counts up by one per element and is to count down by adding
  \<open>- 1\<close>. \<open>Add\<close> saturates instead, so after the first element the balance is infinite, and the loop
  condition no longer says that some upstream has an element.
\<close>

lemma available_balance_saturates: "HasRequests b \<Longrightarrow> Add b (- 1) = \<lparr>rb_balance = kMax\<rparr>"
proof (cases b)
  case (fields r)
  assume "HasRequests b"
  then have "- 1 - r \<noteq> - 1" using fields by (auto simp: HasRequests_def)
  then have "- 1 - r < - 1" by (simp only: word_order.not_eq_extremum)
  then show ?thesis using fields by (simp add: Add_def kMax_def)
qed

text \<open>A merge stream with requests, a positive balance of available elements, and no element.\<close>

definition merge_starved :: "addr \<Rightarrow> ('v, 'u) world \<Rightarrow> bool" where
  "merge_starved a w \<longleftrightarrow>
     (\<exists>m. heap w a = Some (MergeStream m) \<and> balance (ms_request_balance m) > 0
       \<and> balance (ms_available_balance m) > 0 \<and> ms_current_index m < length (ms_upstream_subscribers m)
       \<and> (\<forall>up. Some up \<in> set (ms_upstream_subscribers m) \<longrightarrow>
            (\<exists>u. heap w up = Some (MergeUpstreamSubscriber u) \<and> mu_next u = None)))"

lemma merge_starved_step:
  assumes "merge_starved a w"
  shows "\<exists>w'. MergeStream_deliver_loop run a w = run (MergeDeliverLoop a) w' \<and> merge_starved a w'"
proof -
  obtain m where m: "heap w a = Some (MergeStream m)" "balance (ms_request_balance m) > 0"
    "balance (ms_available_balance m) > 0" "ms_current_index m < length (ms_upstream_subscribers m)"
    and ups: "\<And>up. Some up \<in> set (ms_upstream_subscribers m) \<Longrightarrow>
      \<exists>u. heap w up = Some (MergeUpstreamSubscriber u) \<and> mu_next u = None"
    using assms by (auto simp: merge_starved_def)
  let ?i = "ms_current_index m" and ?n = "length (ms_upstream_subscribers m)"
  let ?w = "put a (MergeStream (m\<lparr>ms_current_index := (?i + 1) mod ?n\<rparr>)) w"
  have ups': "\<exists>u. heap ?w up = Some (MergeUpstreamSubscriber u) \<and> mu_next u = None"
    if "Some up \<in> set (ms_upstream_subscribers m)" for up
    using ups [OF that] m(1) by (cases "up = a") (auto simp: put_def)
  have "heap ?w a = Some (MergeStream (m\<lparr>ms_current_index := (?i + 1) mod ?n\<rparr>))" by (simp add: put_def)
  moreover have "(?i + 1) mod ?n < ?n" using m(4) by (intro mod_less_divisor) auto
  ultimately have "merge_starved a ?w"
    unfolding merge_starved_def using m(2,3) ups'
    by (intro exI [of _ "m\<lparr>ms_current_index := (?i + 1) mod ?n\<rparr>"]) simp
  moreover have "MergeStream_deliver_loop run a w = run (MergeDeliverLoop a) ?w"
  proof (cases "ms_upstream_subscribers m ! ?i")
    case None
    then show ?thesis using m by (simp add: MergeStream_deliver_loop_def get_merge_def)
  next
    case (Some up)
    then have "Some up \<in> set (ms_upstream_subscribers m)" using m(4) nth_mem by metis
    from ups' [OF this] Some show ?thesis
      using m by (auto simp: MergeStream_deliver_loop_def get_merge_def MergeUpstreamSubscriber_HasNext_def
          get_merge_upstream_def)
  qed
  ultimately show ?thesis by blast
qed

text \<open>
  C39: the delivery loop of \<open>Merge\<close> never ends once the downstream has requests, no upstream has an
  element at hand, and the balance of available elements is positive. It is, and stays so, as soon
  as one element has been consumed while the balance was positive: adding \<open>- 1\<close> to it saturates.
  So a merge of upstreams that deliver later, through \<open>Async\<close>, spins.
\<close>

theorem Merge_starved_spins:
  assumes "merge_starved a w" and "HasRequests b"
  shows "exec (MergeDeliverLoop a) w = None \<and> Add b (- 1) = \<lparr>rb_balance = kMax\<rparr>"
proof -
  have loops: "c = MergeDeliverLoop a \<longrightarrow> \<not> merge_starved a w" if "exec c w = Some r" for c w and r :: "fault + ('a, 'b) world"
  proof (rule exec_induct [where P = "\<lambda>c w r. c = MergeDeliverLoop a \<longrightarrow> \<not> merge_starved a w", OF _ that])
    fix run :: "('a, 'b) runner" and c w r
    assume IH: "\<And>c w r. run c w = Some r \<Longrightarrow> c = MergeDeliverLoop a \<longrightarrow> \<not> merge_starved a w"
      and d: "dispatch run c w = Some r"
    show "c = MergeDeliverLoop a \<longrightarrow> \<not> merge_starved a w"
    proof (intro impI notI)
      assume c: "c = MergeDeliverLoop a" and st: "merge_starved a w"
      obtain w' where w': "MergeStream_deliver_loop run a w = run (MergeDeliverLoop a) w'" "merge_starved a w'"
        using merge_starved_step [OF st] by blast
      then have "run (MergeDeliverLoop a) w' = Some r" using d c by (simp add: dispatch_def)
      from IH [OF this] w'(2) show False by simp
    qed
  qed
  have "exec (MergeDeliverLoop a) w = None"
    using loops assms(1) by (cases "exec (MergeDeliverLoop a) w") auto
  then show ?thesis using available_balance_saturates [OF assms(2)] by simp
qed

text \<open>A merge of one asynchronous upstream, after its first element.\<close>

definition starved_world :: "(nat, unit) world" where
  "starved_world = (empty_world ())\<lparr>heap := [1 \<mapsto> MergeStream \<lparr>ms_subscriber = 3, ms_sid = 0,
       ms_upstream_subscribers = [Some 2], ms_self_lock = Some 1, ms_current_index = 0,
       ms_request_balance = \<lparr>rb_balance = 1\<rparr>, ms_available_balance = \<lparr>rb_balance = kMax\<rparr>, ms_delivering = True\<rparr>,
     2 \<mapsto> MergeUpstreamSubscriber \<lparr>mu_index = 0, mu_merge = 1, mu_next = None, mu_upstream_subscription = Some 1\<rparr>]\<rparr>"

theorem Merge_starved_spins_witness:
  "exec (MergeDeliverLoop 1) starved_world = None \<and> Add \<lparr>rb_balance = 1\<rparr> (- 1) = \<lparr>rb_balance = kMax\<rparr>"
  by (rule Merge_starved_spins) (simp_all add: merge_starved_def starved_world_def balance_def kMax_def HasRequests_def word_gt_0)

section \<open>Single\<close>


section \<open>Map\<close>

text \<open>A map function that fails: the error ends the stream for the subscriber, but nothing is freed.\<close>

lemma Map_error_leaks:
  "run_buffering (Publisher_Map (\<lambda>v u. (StatusRepr aborted, u)) (test_values [1, 2]))
    = Some (Inr (([], [aborted]), [1, 2, 3]))"
  by code_simp

section \<open>Async\<close>

text \<open>A publisher made asynchronous, subscribed with a first request for \<open>n\<close> events, in a given schedule.\<close>

definition run_async ::
  "size_t \<Rightarrow> worker_id list \<Rightarrow> (nat, test_user) publisher \<Rightarrow> (fault + test_user \<times> addr list) option" where
  "run_async n ks p =
     outcome (bnd (Publisher_Async 0 1 p) (\<lambda>p.
       bnd (Publisher_Subscribe_functions exec p (SubscribeUser [\<lambda>_ _ u. (u, DoRequest n)])
              (NextUser (\<lambda>e. [\<lambda>_ _ u. (buffering_next e u, NoAction)])) (empty_world ([], [])))
       (run_schedule ks)))"


end
