(* ===== verification/Spec2Isabelle.thy ===== *)
theory Spec2Isabelle
  imports Demand MapReduce Merge_Pipelines Invariants Single Async_On_Pool Baseline Objects Poly_Value Examples Findings
begin

text \<open>
  A verification development for rxcppuniq, reactive streams with unique ownership in C++.

  \<^bold>\<open>The program.\<close> A publisher (\<open>reactive/reactive.h\<close>) is a unique value that a subscription moves
  into a stream on the heap. A stream delivers events (a value, the end, or an error: a
  \<open>StatusOr\<close>, \<open>base/monitoring.h\<close>) to its subscriber by \<open>OnNext\<close>, never more than were asked for
  by \<open>Request\<close>; it destroys itself, and the subscriber it owns, after the last event or on
  \<open>Cancel\<close>. The operators \<open>Map\<close>, \<open>StaticCast\<close>, \<open>Buffer\<close>, \<open>Prefetch\<close>, \<open>Merge\<close>, \<open>Concat\<close>,
  \<open>FlatMap\<close> and \<open>Async\<close> (\<open>reactive/reactive_impl.inc\<close>) are streams that subscribe to others.
  \<open>Async\<close> moves the calls to workers of a thread pool (\<open>base/scheduler.cc\<close>). \<open>Single\<close>,
  \<open>PolyValue\<close> and the object helpers (\<open>reactive/single.h\<close>, \<open>poly_value.h\<close>, \<open>object.h\<close>) are small
  libraries on top and below; \<open>base/platform.cc\<close> and \<open>base/testing.cc\<close> hold file, shell and test
  functions.

  \<^bold>\<open>Which theory models what.\<close>
  \<^item> Prelude: results \<open>'a res\<close> (a value, a failed \<open>RX_CHECK\<close>, an access through a dangling pointer, or
    no return at all), their monotonicity, words.
  \<^item> Request_Balance: \<open>RequestBalance\<close>, refined to a counter over the extended naturals (locale
    \<open>request_counter\<close>). Platform: the path functions. Monitoring: \<open>Status\<close>, \<open>StatusOr\<close>, the logger
    and \<open>StatusBuilder\<close>, \<open>reactive_status.h\<close>.
  \<^item> Streams: values, publishers, the classes with an instance on the heap, the heap with its
    reference counts, subscriptions. Subscribers: \<open>FunctionalSubscriber\<close> and the forms of
    \<open>Subscribe\<close>. Generating, Chaining, Prefetching, Concatenating, Merging, FlatMapping,
    Asynchronous: one stream class each, a definition per method, every method with a parameter
    \<open>run\<close> for the virtual calls it makes. Machine: the dispatch over the classes and its least
    fixed point \<open>exec\<close>; the workers' queues and their interleavings.
  \<^item> World_Facts, Contracts: what the methods do to the heap, and the contract between a synchronous
    stream and its subscriber, which names the locations each side owns (locale \<open>passive_stream\<close>).
    Generating_Contract, Chaining_Contract, Buffer_Contract, Concat_Contract, FlatMap_Contract,
    Prefetch_Contract, Flow_Control_Contract: each class meets it.
  \<^item> Pipelines: the abstract meaning \<open>emits\<close> of a publisher and the theorem that the machine
    implements it. Stateful_FlatMap: continuations that keep state. Single: \<open>Single\<close>.
  \<^item> Resumable_Contract: streams that rest between single requests and may be cancelled there.
    Merge_Upstream, Merge_Loop, Merge_Contract: \<open>MergeStream\<close> over such upstreams, its delivery loop
    against the abstract order \<open>round_robin\<close>, with errors \<open>merged\<close>; Merge_Pipelines: what \<open>Merge\<close> and \<open>MergeUniform\<close>
    deliver. Demand: streams driven from outside.
  \<^item> Task_Runs, Async_Contract, Async_Pipelines: what the tasks of a pipeline with \<open>Async\<close> in any
    places lead to, whatever the rest of the world does between them. Async_Processes: a subscription
    to one as a process that acts on the user's state. Interleavings, Concurrency: any number of such
    processes, over all interleavings of the workers with each other and with further subscriptions.
  \<^item> Invariants: what every call keeps, whatever it is and however it ends, by induction over all
    executions of the machine (locale \<open>evolving_runner\<close>).
  \<^item> Scheduling: workers and the thread pool as a transition system over all interleavings.
    Serving_Pool: what the threads do between tasks, and why they settle down. Async_On_Pool: the
    machine and the pool together, the threads executing the tasks of the streams.
  \<^item> Objects: \<open>SharedObject\<close>, \<open>UniqueObject\<close>, \<open>UniqueValue\<close>, \<open>MoveToLambda\<close> (locale \<open>move_only\<close>).
    Poly_Value: \<open>PolyValue\<close>. Files: file and shell functions. Baseline: \<open>VerifyAgainstBaseline\<close>.
    Examples: the sieve, the state machines and the activities of \<open>example/examples.cc\<close>; MapReduce:
    its two programs that run on several workers.
  \<^item> Findings: runs in which the code does not do what it promises.

  \<^bold>\<open>What is shown.\<close> For synchronous pipelines: a subscription with automatic flow control returns,
  no check fails, no freed object is touched, the subscriber sees exactly the values and the
  terminal status the pipeline means, in order, and everything allocated is freed; the operators'
  own properties (chunks of \<open>Buffer\<close>, transparency of \<open>Prefetch\<close>, order of effects of \<open>FlatMap\<close>) are
  instances. A stream delivers no more than was requested and can be cancelled between requests.
  For pipelines with \<open>Async\<close> and automatic flow control: every interleaving of the workers ends and
  delivers the same, and concurrent subscriptions do not disturb each other; a task is atomic, since
  what tasks on different workers share is the user's state only (the word count example accesses it
  on one worker). For every call, \<open>Merge\<close> and \<open>Async\<close> included: subscriptions and streams stay
  consistent, ended subscriptions stay ended, addresses keep their class, tasks are only appended.
  For the scheduler: no check fails, tasks of a worker run one at a time and in order, no wake-up is
  lost, the idle condition means that all work is done, and the destructor's joins end. For both
  together: when \<open>WaitUntilIdle\<close> returns, the asynchronous pipelines have delivered everything, and it
  does return. The worker queues of theory Machine are the abstraction that this justifies.

  \<^bold>\<open>Representation.\<close> \<open>std::size_t\<close> is a 64 bit word; the refill mark of \<open>Prefetch\<close> and the doubles
  of the coffee machine are rationals; the ints of the sieve are unbounded. The values of all C++
  element types are one datatype \<open>val\<close>. User closures are functions on the user's state; the
  closures of the library are constructors. A destroyed object has no cell and addresses are never
  reused, so a use after free is always seen. Contracts bound the pending events by
  \<open>pending_limit\<close>, below which the balances of the streams do not saturate. There is no fuel:
  \<open>exec\<close> is a least fixed point, not returning is the value \<open>None\<close>, and every theorem about a
  pipeline states that it returns.

  \<^bold>\<open>Not modelled.\<close> Template dispatch that chooses between casts (\<open>PolyStaticCast\<close>), the gmock matchers
  of the test headers, protobuf itself, the operating system and the shell (parameters of Files and
  Poly_Value), \<open>absl::StrSplit\<close> (a parameter of \<open>CountWords\<close>). The bodies of user tasks in the
  scheduler's transition system are opaque; in Async_On_Pool the body of a stream's task is one step.
  \<open>Merge\<close> is shown correct for synchronous upstreams, of which one may fail while no other has its end
  pending; it is not correct when that one has, or with asynchronous upstreams (theory Findings).
\<close>

end
